(* ===== verification/K23_Prelude.thy ===== *)
theory K23_Prelude
  imports Main "HOL-Library.Word" "HOL-Library.Monad_Syntax"
begin

text \<open>
  The shared base of the development: the Rust machine integers the memory crates compute
  with, the convention for panics, and the arithmetic on alignments that every component
  needs.

  \<^item> \<open>usize\<close> is a 64-bit word (every supported target is 64-bit). \<open>isize\<close> is the same
    word read as two's complement with \<^term>\<open>sint\<close>.
  \<^item> A computation that may panic has an \<open>option\<close> type; \<^term>\<open>None\<close> is the panic. The model
    is the debug build: overflow of \<open>+\<close>, \<open>-\<close>, \<open>*\<close> panics, and so does a \<open>debug_assert!\<close>
    that fails. A value \<^term>\<open>Some x\<close> therefore also says that no assertion fired, and the
    release build, which skips the checks, computes the same \<open>x\<close>.
  \<^item> A Rust \<open>Option\<close> or \<open>Result\<close> that the source returns is a value inside that \<open>option\<close>.
\<close>

unbundle bit_operations_syntax

section \<open>Panics and machine integers\<close>

type_synonym usize = "64 word"
type_synonym isize = "64 word"

named_theorems panic_simps \<open>unfolding of the operations that may panic\<close>
named_theorems addr_nat \<open>operations on addresses read as natural numbers\<close>

text \<open>\<open>assert!\<close> and, in the debug build, \<open>debug_assert!\<close>.\<close>

definition debug_assert :: "bool \<Rightarrow> unit option" where
  "debug_assert b = (if b then Some () else None)"

abbreviation usize_MAX :: usize where
  "usize_MAX \<equiv> - 1"

text \<open>The operators \<open>+\<close>, \<open>-\<close>, \<open>*\<close> on \<open>usize\<close> with overflow checks.\<close>

definition usize_add :: "usize \<Rightarrow> usize \<Rightarrow> usize option" where
  "usize_add a b = (if unat a + unat b < 2 ^ 64 then Some (a + b) else None)"

definition usize_sub :: "usize \<Rightarrow> usize \<Rightarrow> usize option" where
  "usize_sub a b = (if b \<le> a then Some (a - b) else None)"

definition usize_mul :: "usize \<Rightarrow> usize \<Rightarrow> usize option" where
  "usize_mul a b = (if unat a * unat b < 2 ^ 64 then Some (a * b) else None)"

definition usize_saturating_add :: "usize \<Rightarrow> usize \<Rightarrow> usize" where
  "usize_saturating_add a b = (if unat a + unat b < 2 ^ 64 then a + b else usize_MAX)"

definition is_power_of_two :: "usize \<Rightarrow> bool" where
  "is_power_of_two a \<longleftrightarrow> a \<noteq> 0 \<and> a AND (a - 1) = 0"

declare Let_def [simp]

lemma debug_assert_simps [simp]:
  "debug_assert True = Some ()" "debug_assert False = None"
  by (simp_all add: debug_assert_def)

lemma debug_assert_eq_Some [simp]: "debug_assert b = Some u \<longleftrightarrow> b"
  by (simp add: debug_assert_def)

lemma debug_assert_eq_None [simp]: "debug_assert b = None \<longleftrightarrow> \<not> b"
  by (simp add: debug_assert_def)

lemma usize_lt: "unat (a :: usize) < 2 ^ 64"
  using unsigned_less [of a] by simp

lemma usize_eqI: "unat (a :: usize) = unat b \<Longrightarrow> a = b"
  by (simp add: word_unat_eq_iff)

lemma unat_usize_MAX: "unat usize_MAX = 2 ^ 64 - 1"
  by (simp add: unsigned_minus_1_eq_mask mask_eq_exp_minus_1)

lemma unat_add_usize: "unat a + unat b < 2 ^ 64 \<Longrightarrow> unat (a + b :: usize) = unat a + unat b"
  by (simp add: unat_word_ariths)

lemma unat_mul_usize: "unat a * unat b < 2 ^ 64 \<Longrightarrow> unat (a * b :: usize) = unat a * unat b"
  by (simp add: unat_word_ariths)

lemma usize_add_eq_Some:
  "usize_add a b = Some c \<longleftrightarrow> unat a + unat b < 2 ^ 64 \<and> unat c = unat a + unat b"
  by (auto simp: usize_add_def unat_add_usize intro!: usize_eqI)

lemma usize_sub_eq_Some:
  "usize_sub a b = Some c \<longleftrightarrow> unat b \<le> unat a \<and> unat c = unat a - unat b"
  by (auto simp: usize_sub_def word_le_nat_alt unat_sub intro!: usize_eqI)

lemma usize_mul_eq_Some:
  "usize_mul a b = Some c \<longleftrightarrow> unat a * unat b < 2 ^ 64 \<and> unat c = unat a * unat b"
  by (auto simp: usize_mul_def unat_mul_usize intro!: usize_eqI)

lemma usize_saturating_add_nat [addr_nat]:
  "unat (usize_saturating_add a b) = min (unat a + unat b) (2 ^ 64 - 1)"
  by (auto simp: usize_saturating_add_def unat_add_usize unat_usize_MAX)

lemma unat_of_nat_usize: "n < 2 ^ 64 \<Longrightarrow> unat (of_nat n :: usize) = n"
  by (simp add: unat_of_nat)

lemma unat_exp_usize [simp]: "k < 64 \<Longrightarrow> unat (2 ^ k :: usize) = 2 ^ k"
proof -
  assume "k < 64"
  then have "(2::nat) ^ k < 2 ^ 64"
    by (intro power_strict_increasing) simp_all
  moreover have "unat (of_nat (2 ^ k) :: usize) = 2 ^ k mod 2 ^ 64"
    using unat_of_nat [of "2 ^ k", where 'a = 64] by simp
  ultimately show ?thesis by simp
qed

section \<open>Stateful code that returns a \<open>Result\<close>\<close>

text \<open>
  Code that changes a state \<open>'s\<close> and returns a \<open>Result\<close> is a function from the state to an optional
  pair of \<open>Inl\<close> an error or \<open>Inr\<close> a value and the new state. \<open>act_bind\<close> is the operator \<open>?\<close>.
\<close>

type_synonym ('s, 'e, 'a) act = "'s \<Rightarrow> (('e + 'a) \<times> 's) option"

definition act_bind :: "('s, 'e, 'a) act \<Rightarrow> ('a \<Rightarrow> ('s, 'e, 'b) act) \<Rightarrow> ('s, 'e, 'b) act" where
  "act_bind m f = (\<lambda>s. case m s of
     None \<Rightarrow> None
   | Some (r, s') \<Rightarrow> (case r of Inl e \<Rightarrow> Some (Inl e, s') | Inr a \<Rightarrow> f a s'))"

definition act_ok :: "'a \<Rightarrow> ('s, 'e, 'a) act" where
  "act_ok a = (\<lambda>s. Some (Inr a, s))"

lemma act_bind_simps [simp]:
  "m s = None \<Longrightarrow> act_bind m f s = None"
  "m s = Some (Inl e, s') \<Longrightarrow> act_bind m f s = Some (Inl e, s')"
  "m s = Some (Inr a, s') \<Longrightarrow> act_bind m f s = f a s'"
  by (simp_all add: act_bind_def)

section \<open>Powers of two and alignment masks\<close>

lemma and_pow2_minus_1 [addr_nat]: "unat (a AND (2 ^ k - 1) :: usize) = unat a mod 2 ^ k"
  by (simp flip: mask_eq_exp_minus_1 take_bit_eq_mask take_bit_eq_mod add: unsigned_take_bit_eq)

lemma and_minus_pow2: "a AND (0 - 2 ^ k :: usize) = a - take_bit k a"
proof -
  have "a AND NOT (mask k) = push_bit k (drop_bit k a)"
    by (rule bit_word_eqI) (auto simp: bit_simps)
  then show ?thesis
    using bits_ident [of k a] by (simp add: minus_exp_eq_not_mask algebra_simps)
qed

lemma and_minus_pow2_nat [addr_nat]: "unat (a AND (0 - 2 ^ k) :: usize) = unat a div 2 ^ k * 2 ^ k"
proof -
  have t: "unat (take_bit k a) = unat a mod 2 ^ k"
    by (simp add: unsigned_take_bit_eq take_bit_eq_mod [of _ "unat a"])
  then have "take_bit k a \<le> a"
    by (simp add: word_le_nat_alt)
  then show ?thesis
    by (simp only: and_minus_pow2 unat_sub t minus_mod_eq_div_mult)
qed

lemma pow2_between:
  assumes "(0::nat) < n"
  obtains k where "2 ^ k \<le> n" and "n < 2 ^ Suc k"
  using ex_power_ivl1 [of 2 n] assms by auto

lemma is_power_of_two_pow2: "k < 64 \<Longrightarrow> is_power_of_two (2 ^ k)"
proof -
  assume k: "k < 64"
  have "unat (2 ^ k AND (2 ^ k - 1) :: usize) = 0"
    using k by (simp only: and_pow2_minus_1 unat_exp_usize) simp
  moreover have "(2 ^ k :: usize) \<noteq> 0"
    using k by (metis unat_0 unat_exp_usize power_not_zero zero_neq_numeral)
  ultimately show ?thesis
    by (simp add: is_power_of_two_def unat_eq_zero)
qed

lemma is_power_of_two_cases:
  assumes "is_power_of_two a"
  obtains k where "k < 64" and "a = 2 ^ k"
proof -
  from assms have a0: "0 < unat a" and z: "a AND (a - 1) = 0"
    by (simp_all add: is_power_of_two_def unat_gt_0)
  obtain k where k: "2 ^ k \<le> unat a" "unat a < 2 ^ Suc k"
    using pow2_between [OF a0] by blast
  have "(2::nat) ^ k < 2 ^ 64"
    using k(1) usize_lt [of a] by simp
  then have k64: "k < 64"
    by (simp only: power_strict_increasing_iff)
  have "unat a = 2 ^ k"
  proof (rule ccontr)
    assume "unat a \<noteq> 2 ^ k"
    with k have lo: "2 ^ k \<le> unat a - 1" by simp
    have pred: "unat (a - 1) = unat a - 1"
      using a0 by (simp add: unat_minus_one unat_gt_0)
    have "unat a div 2 ^ k = 1" and "(unat a - 1) div 2 ^ k = 1"
      using k lo by (auto intro!: div_nat_eqI)
    then have "bit (unat a) k" and "bit (unat (a - 1)) k"
      by (simp_all add: bit_iff_odd pred)
    then have "bit (a AND (a - 1)) k"
      using k64 by (simp add: bit_and_iff bit_unsigned_iff)
    with z show False by simp
  qed
  then have "a = 2 ^ k"
    using k64 by (intro usize_eqI) simp
  with k64 that show ?thesis by blast
qed

lemma is_power_of_two_iff: "is_power_of_two a \<longleftrightarrow> (\<exists>k<64. a = 2 ^ k)"
  by (auto elim: is_power_of_two_cases intro: is_power_of_two_pow2)

text \<open>Rounding a natural number down and up to a multiple, and the laws of the two.\<close>

definition round_down :: "nat \<Rightarrow> nat \<Rightarrow> nat" where
  "round_down n d = n div d * d"

definition round_up :: "nat \<Rightarrow> nat \<Rightarrow> nat" where
  "round_up n d = (n + (d - 1)) div d * d"

lemma round_down_le: "round_down n d \<le> n"
  by (simp add: round_down_def)

lemma dvd_round [simp]: "d dvd round_down n d" "d dvd round_up n d"
  by (simp_all add: round_down_def round_up_def)

lemma round_down_greatest: "d dvd m \<Longrightarrow> m \<le> n \<Longrightarrow> m \<le> round_down n d"
  unfolding round_down_def by (metis div_le_mono dvd_div_mult_self mult_le_mono1)

lemma round_up_ge: "0 < d \<Longrightarrow> n \<le> round_up n d"
proof -
  assume d: "0 < d"
  have "n + (d - 1) = (n + (d - 1)) div d * d + (n + (d - 1)) mod d" by simp
  moreover have "(n + (d - 1)) mod d \<le> d - 1"
    using d mod_less_divisor [of d "n + (d - 1)"] by linarith
  ultimately show ?thesis unfolding round_up_def by linarith
qed

lemma round_up_least: "0 < d \<Longrightarrow> d dvd m \<Longrightarrow> n \<le> m \<Longrightarrow> round_up n d \<le> m"
proof -
  assume d: "0 < d" "d dvd m" "n \<le> m"
  then obtain q where q: "m = d * q" by (auto elim: dvdE)
  have "(n + (d - 1)) div d \<le> (d * q + (d - 1)) div d"
    using d(3) q by (intro div_le_mono) simp
  also have "\<dots> = q" using d(1) by (intro div_nat_eqI) (simp_all add: algebra_simps)
  finally show ?thesis unfolding round_up_def q by (metis mult.commute mult_le_mono1)
qed

lemma round_down_multiple [simp]: "d dvd n \<Longrightarrow> round_down n d = n"
  by (simp add: round_down_def)

lemma round_up_multiple [simp]: "0 < d \<Longrightarrow> d dvd n \<Longrightarrow> round_up n d = n"
  by (rule antisym) (simp_all add: round_up_least round_up_ge)

lemma round_up_lt: "0 < d \<Longrightarrow> round_up n d < n + d"
proof -
  assume d: "0 < d"
  have "round_up n d \<le> n + (d - 1)" unfolding round_up_def by simp
  with d show ?thesis by linarith
qed

lemma round_down_gt: "0 < d \<Longrightarrow> n < round_down n d + d"
  unfolding round_down_def
  by (metis add_less_cancel_left div_mult_mod_eq mod_less_divisor)

lemma multiples_apart:
  assumes "d dvd m" "d dvd (n::nat)" "m < n"
  shows "m + d \<le> n"
proof -
  have "d dvd n - m" using assms(1,2) by simp
  then have "d \<le> n - m" using assms(3) by (intro dvd_imp_le) simp_all
  then show ?thesis using assms(3) by linarith
qed

lemma round_down_le_iff: "0 < d \<Longrightarrow> d dvd m \<Longrightarrow> round_down n d \<le> m \<longleftrightarrow> n < m + d"
  using round_down_gt [of d n] round_down_le [of n d] multiples_apart [of d m "round_down n d"]
  by (auto simp: not_less [symmetric])

lemma round_up_ge_iff: "0 < d \<Longrightarrow> d dvd m \<Longrightarrow> m + d \<le> round_up n d \<longleftrightarrow> m < n"
  using round_up_lt [of d n] round_up_ge [of d n] multiples_apart [of d m "round_up n d"]
  by auto

end
