(* ===== verification/Array_Vec.thy ===== *)
theory Array_Vec
  imports K23_Prelude
begin

text \<open>
  \<^verbatim>\<open>lib/arrayvec/src/lib.rs\<close>: the vector with inline storage of a fixed capacity. The storage
  \<open>[MaybeUninit<T>; CAP]\<close> is a list of \<open>option\<close> slots, \<^term>\<open>None\<close> for an uninitialised one, and
  \<open>CAP\<close> is its length. A panic, an access out of bounds and a read of an uninitialised slot are
  all the outer \<^term>\<open>None\<close>, so that \<^term>\<open>Some\<close> results also say that the \<open>unsafe\<close> blocks of the
  source were used soundly. \<open>ptr::read\<close> and \<open>ptr::copy\<close> leave the source slot as it is, dropping a
  slot leaves it uninitialised. Cloning an element gives the same value.

  The abstraction of a vector is the list of its first \<open>len\<close> elements; every operation is shown
  to be the list operation it stands for.
\<close>

section \<open>The vector and its storage\<close>

record 'a ArrayVec =
  av_len :: nat
  av_data :: "'a option list"

abbreviation av_capacity :: "'a ArrayVec \<Rightarrow> nat" where
  "av_capacity v \<equiv> length (av_data v)"

text \<open>Reading an initialised slot, and \<open>ptr::copy\<close> of \<open>n\<close> slots inside the storage.\<close>

definition slot_read :: "'a option list \<Rightarrow> nat \<Rightarrow> 'a option" where
  "slot_read xs i = (if i < length xs then xs ! i else None)"

definition slots_copy :: "'a option list \<Rightarrow> nat \<Rightarrow> nat \<Rightarrow> nat \<Rightarrow> 'a option list option" where
  "slots_copy xs src dst n =
     (if src + n \<le> length xs \<and> dst + n \<le> length xs
      then Some (take dst xs @ take n (drop src xs) @ drop (dst + n) xs) else None)"

text \<open>Dropping the \<open>n\<close> values from slot \<open>i\<close>, all of which must be initialised.\<close>

fun slots_drop :: "'a option list \<Rightarrow> nat \<Rightarrow> nat \<Rightarrow> 'a option list option" where
  "slots_drop xs i 0 = Some xs"
| "slots_drop xs i (Suc n) =
     do {
       _ \<leftarrow> slot_read xs i;
       slots_drop (xs[i := None]) (Suc i) n
     }"

definition nat_sub :: "nat \<Rightarrow> nat \<Rightarrow> nat option" where
  "nat_sub a b = (if b \<le> a then Some (a - b) else None)"

section \<open>Construction and inspection\<close>

definition av_new :: "nat \<Rightarrow> 'a ArrayVec" where
  "av_new CAP = \<lparr>av_len = 0, av_data = replicate CAP None\<rparr>"

definition av_is_empty :: "'a ArrayVec \<Rightarrow> bool" where
  "av_is_empty v \<longleftrightarrow> av_len v = 0"

definition av_is_full :: "'a ArrayVec \<Rightarrow> bool" where
  "av_is_full v \<longleftrightarrow> av_len v = av_capacity v"

definition av_remaining_capacity :: "'a ArrayVec \<Rightarrow> nat option" where
  "av_remaining_capacity v = nat_sub (av_capacity v) (av_len v)"

definition av_as_slice :: "'a ArrayVec \<Rightarrow> 'a list option" where
  "av_as_slice v =
     (if av_len v \<le> av_capacity v then those (take (av_len v) (av_data v)) else None)"

section \<open>Pushing and removing\<close>

datatype 'a CapacityError = CapacityError 'a

definition av_push_unchecked :: "'a \<Rightarrow> 'a ArrayVec \<Rightarrow> 'a ArrayVec option" where
  "av_push_unchecked x v =
     do {
       let len = av_len v;
       debug_assert (len < av_capacity v);
       Some (v\<lparr>av_data := (av_data v)[len := Some x], av_len := len + 1\<rparr>)
     }"

definition av_try_push :: "'a \<Rightarrow> 'a ArrayVec \<Rightarrow> (('a CapacityError + unit) \<times> 'a ArrayVec) option" where
  "av_try_push x v =
     (if av_len v < av_capacity v
      then do { v' \<leftarrow> av_push_unchecked x v; Some (Inr (), v') }
      else Some (Inl (CapacityError x), v))"

definition av_push :: "'a \<Rightarrow> 'a ArrayVec \<Rightarrow> 'a ArrayVec option" where
  "av_push x v =
     do {
       (r, v') \<leftarrow> av_try_push x v;
       (case r of Inl _ \<Rightarrow> None | Inr _ \<Rightarrow> Some v')
     }"

definition av_pop :: "'a ArrayVec \<Rightarrow> ('a option \<times> 'a ArrayVec) option" where
  "av_pop v =
     (if av_len v = 0 then Some (None, v)
      else do {
        let v' = v\<lparr>av_len := av_len v - 1\<rparr>;
        debug_assert (av_len v' < av_capacity v');
        x \<leftarrow> slot_read (av_data v') (av_len v');
        Some (Some x, v')
      })"

definition av_swap_remove :: "nat \<Rightarrow> 'a ArrayVec \<Rightarrow> ('a \<times> 'a ArrayVec) option" where
  "av_swap_remove index v =
     do {
       let len = av_len v;
       debug_assert (index < len);
       x \<leftarrow> slot_read (av_data v) index;
       data \<leftarrow> slots_copy (av_data v) (len - 1) index 1;
       Some (x, v\<lparr>av_data := data, av_len := len - 1\<rparr>)
     }"

definition av_clear :: "'a ArrayVec \<Rightarrow> 'a ArrayVec option" where
  "av_clear v =
     do {
       data \<leftarrow> slots_drop (av_data v) 0 (min (av_len v) (av_capacity v));
       Some (v\<lparr>av_len := 0, av_data := data\<rparr>)
     }"

definition av_truncate :: "nat \<Rightarrow> 'a ArrayVec \<Rightarrow> 'a ArrayVec option" where
  "av_truncate new_len v =
     (let len = av_len v in
      if new_len < len then do {
        data \<leftarrow> slots_drop (av_data v) new_len (len - new_len);
        Some (v\<lparr>av_len := new_len, av_data := data\<rparr>)
      } else Some v)"

section \<open>Extending and cloning\<close>

text \<open>The loop over the source slice zipped with the spare slots, and the whole method.\<close>

fun av_write_slots :: "'a option list \<Rightarrow> nat \<Rightarrow> 'a list \<Rightarrow> 'a option list" where
  "av_write_slots data i [] = data"
| "av_write_slots data i (x # xs) =
     (if i < length data then av_write_slots (data[i := Some x]) (Suc i) xs else data)"

definition av_try_extend_from_slice ::
  "'a list \<Rightarrow> 'a ArrayVec \<Rightarrow> ((unit CapacityError + unit) \<times> 'a ArrayVec) option" where
  "av_try_extend_from_slice other v =
     do {
       rest \<leftarrow> av_remaining_capacity v;
       if rest < length other then Some (Inl (CapacityError ()), v)
       else Some (Inr (), v\<lparr>av_data := av_write_slots (av_data v) (av_len v) other,
                            av_len := av_len v + length other\<rparr>)
     }"

definition av_extend_from_slice :: "'a list \<Rightarrow> 'a ArrayVec \<Rightarrow> 'a ArrayVec option" where
  "av_extend_from_slice other v =
     do {
       (r, v') \<leftarrow> av_try_extend_from_slice other v;
       (case r of Inl _ \<Rightarrow> None | Inr _ \<Rightarrow> Some v')
     }"

text \<open>The loop that pushes the elements of an iterator one after the other.\<close>

fun push_each :: "('a \<Rightarrow> 'v \<Rightarrow> 'v option) \<Rightarrow> 'a list \<Rightarrow> 'v \<Rightarrow> 'v option" where
  "push_each push [] v = Some v"
| "push_each push (x # xs) v = do { v' \<leftarrow> push x v; push_each push xs v' }"

definition av_from_iter :: "nat \<Rightarrow> 'a list \<Rightarrow> 'a ArrayVec option" where
  "av_from_iter CAP xs = push_each av_push xs (av_new CAP)"

definition av_clone :: "'a ArrayVec \<Rightarrow> 'a ArrayVec option" where
  "av_clone v = do { xs \<leftarrow> av_as_slice v; av_from_iter (av_capacity v) xs }"

definition av_clone_from :: "'a ArrayVec \<Rightarrow> 'a ArrayVec \<Rightarrow> 'a ArrayVec option" where
  "av_clone_from rhs v =
     do {
       ys \<leftarrow> av_as_slice rhs;
       _ \<leftarrow> av_as_slice v;
       let prefix = min (av_len v) (av_len rhs);
       let v1 = v\<lparr>av_data := av_write_slots (av_data v) 0 (take prefix ys)\<rparr>;
       if prefix < av_len v1 then av_truncate prefix v1
       else av_extend_from_slice (drop (av_len v1) ys) v1
     }"

section \<open>\<open>retain\<close>\<close>

text \<open>
  The guard \<open>BackshiftOnDrop\<close> (the vector's storage and the three counters). The closure may
  change the element it inspects and its own state \<open>'s\<close>. The two loops stop because
  \<open>processed_len\<close> grows with every step.
\<close>

record 'a BackshiftOnDrop =
  bs_data :: "'a option list"
  bs_processed_len :: nat
  bs_deleted_cnt :: nat
  bs_original_len :: nat

type_synonym ('s, 'a) retain_fn = "'s \<Rightarrow> 'a \<Rightarrow> bool \<times> 'a \<times> 's"

definition bs_process_one ::
  "bool \<Rightarrow> ('s, 'a) retain_fn \<Rightarrow> 's \<Rightarrow> 'a BackshiftOnDrop \<Rightarrow> (bool \<times> 's \<times> 'a BackshiftOnDrop) option" where
  "bs_process_one DELETED f s g =
     do {
       let cur = bs_processed_len g;
       x \<leftarrow> slot_read (bs_data g) cur;
       let (keep, x', s') = f s x;
       let data = (bs_data g)[cur := Some x'];
       if \<not> keep
       then Some (False, s', g\<lparr>bs_data := data[cur := None], bs_processed_len := cur + 1,
                               bs_deleted_cnt := bs_deleted_cnt g + 1\<rparr>)
       else do {
         data' \<leftarrow> (if DELETED then do {
                     hole \<leftarrow> nat_sub cur (bs_deleted_cnt g);
                     slots_copy data cur hole 1
                   } else Some data);
         Some (True, s', g\<lparr>bs_data := data', bs_processed_len := cur + 1\<rparr>)
       }
     }"

lemma bs_process_one_progress:
  assumes "bs_process_one D f s g = Some (kept, s', g')"
  shows "bs_processed_len g' = Suc (bs_processed_len g)" "bs_original_len g' = bs_original_len g"
  using assms
  by (cases "f s (the (slot_read (bs_data g) (bs_processed_len g)))",
      auto simp: bs_process_one_def Let_def bind_eq_Some_conv split: if_splits)+

function bs_stage1 :: "('s, 'a) retain_fn \<Rightarrow> 's \<Rightarrow> 'a BackshiftOnDrop \<Rightarrow> ('s \<times> 'a BackshiftOnDrop) option" where
  "bs_stage1 f s g =
     (if bs_processed_len g \<ge> bs_original_len g then
        (if bs_processed_len g = bs_original_len g then Some (s, g) else None)
      else case bs_process_one False f s g of
        None \<Rightarrow> None
      | Some (kept, s', g') \<Rightarrow> if \<not> kept then Some (s', g') else bs_stage1 f s' g')"
  by pat_completeness auto
termination
  by (relation "measure (\<lambda>(f, s, g). bs_original_len g - bs_processed_len g)")
    (auto simp: bs_process_one_progress)

function bs_stage2 :: "('s, 'a) retain_fn \<Rightarrow> 's \<Rightarrow> 'a BackshiftOnDrop \<Rightarrow> ('s \<times> 'a BackshiftOnDrop) option" where
  "bs_stage2 f s g =
     (if bs_processed_len g \<ge> bs_original_len g then
        (if bs_processed_len g = bs_original_len g then Some (s, g) else None)
      else case bs_process_one True f s g of
        None \<Rightarrow> None
      | Some (kept, s', g') \<Rightarrow> bs_stage2 f s' g')"
  by pat_completeness auto
termination
  by (relation "measure (\<lambda>(f, s, g). bs_original_len g - bs_processed_len g)")
    (auto simp: bs_process_one_progress)

definition bs_drop :: "'a BackshiftOnDrop \<Rightarrow> 'a ArrayVec option" where
  "bs_drop g =
     do {
       data \<leftarrow> (if bs_deleted_cnt g > 0 then do {
                  dst \<leftarrow> nat_sub (bs_processed_len g) (bs_deleted_cnt g);
                  n \<leftarrow> nat_sub (bs_original_len g) (bs_processed_len g);
                  slots_copy (bs_data g) (bs_processed_len g) dst n
                } else Some (bs_data g));
       len \<leftarrow> nat_sub (bs_original_len g) (bs_deleted_cnt g);
       Some \<lparr>av_len = len, av_data = data\<rparr>
     }"

definition av_retain :: "('s, 'a) retain_fn \<Rightarrow> 's \<Rightarrow> 'a ArrayVec \<Rightarrow> ('s \<times> 'a ArrayVec) option" where
  "av_retain f s v =
     do {
       let g = \<lparr>bs_data = av_data v, bs_processed_len = 0, bs_deleted_cnt = 0,
                bs_original_len = av_len v\<rparr>;
       (s1, g1) \<leftarrow> bs_stage1 f s g;
       (s2, g2) \<leftarrow> bs_stage2 f s1 g1;
       v' \<leftarrow> bs_drop g2;
       Some (s2, v')
     }"

section \<open>\<open>drain\<close>\<close>

datatype Bound = Unbounded | Included nat | Excluded nat

definition nat_saturating_succ :: "nat \<Rightarrow> nat" where
  "nat_saturating_succ n = min (n + 1) (2 ^ 64 - 1)"

text \<open>The iterator: \<open>dr_lo\<close> and \<open>dr_hi\<close> are the bounds of the remaining slice.\<close>

record 'a Drain =
  dr_tail_start :: nat
  dr_tail_len :: nat
  dr_lo :: nat
  dr_hi :: nat
  dr_vec :: "'a ArrayVec"

definition av_drain :: "Bound \<Rightarrow> Bound \<Rightarrow> 'a ArrayVec \<Rightarrow> 'a Drain option" where
  "av_drain start_bound end_bound v =
     do {
       let len = av_len v;
       let start = (case start_bound of
                      Unbounded \<Rightarrow> 0 | Included i \<Rightarrow> i | Excluded i \<Rightarrow> nat_saturating_succ i);
       let e = (case end_bound of
                  Excluded j \<Rightarrow> j | Included j \<Rightarrow> nat_saturating_succ j | Unbounded \<Rightarrow> len);
       let v' = v\<lparr>av_len := start\<rparr>;
       n \<leftarrow> nat_sub e start;
       tail_len \<leftarrow> nat_sub len e;
       Some \<lparr>dr_tail_start = e, dr_tail_len = tail_len, dr_lo = start, dr_hi = start + n,
             dr_vec = v'\<rparr>
     }"

definition drain_next :: "'a Drain \<Rightarrow> ('a option \<times> 'a Drain) option" where
  "drain_next d =
     (if dr_lo d < dr_hi d then do {
        x \<leftarrow> slot_read (av_data (dr_vec d)) (dr_lo d);
        Some (Some x, d\<lparr>dr_lo := dr_lo d + 1\<rparr>)
      } else Some (None, d))"

definition drain_next_back :: "'a Drain \<Rightarrow> ('a option \<times> 'a Drain) option" where
  "drain_next_back d =
     (if dr_lo d < dr_hi d then do {
        x \<leftarrow> slot_read (av_data (dr_vec d)) (dr_hi d - 1);
        Some (Some x, d\<lparr>dr_hi := dr_hi d - 1\<rparr>)
      } else Some (None, d))"

definition drain_size_hint :: "'a Drain \<Rightarrow> nat \<times> nat option" where
  "drain_size_hint d = (dr_hi d - dr_lo d, Some (dr_hi d - dr_lo d))"

text \<open>\<open>Drop\<close>: run the iterator to its end, then move the tail back over the hole.\<close>

function drain_exhaust :: "'a Drain \<Rightarrow> 'a Drain option" where
  "drain_exhaust d =
     (case drain_next d of
        None \<Rightarrow> None
      | Some (None, d') \<Rightarrow> Some d'
      | Some (Some x, d') \<Rightarrow> drain_exhaust d')"
  by pat_completeness auto
termination
  by (relation "measure (\<lambda>d. dr_hi d - dr_lo d)")
    (auto simp: drain_next_def bind_eq_Some_conv split: if_splits)

definition drain_drop :: "'a Drain \<Rightarrow> 'a ArrayVec option" where
  "drain_drop d0 =
     do {
       d \<leftarrow> drain_exhaust d0;
       let v = dr_vec d;
       if dr_tail_len d > 0 then do {
         let start = av_len v;
         let tail = dr_tail_start d;
         data \<leftarrow> (if tail \<noteq> start then slots_copy (av_data v) tail start (dr_tail_len d)
                  else Some (av_data v));
         Some (v\<lparr>av_data := data, av_len := start + dr_tail_len d\<rparr>)
       } else Some v
     }"

section \<open>The owning iterator\<close>

record 'a IntoIter =
  it_index :: nat
  it_vec :: "'a ArrayVec"

definition av_into_iter :: "'a ArrayVec \<Rightarrow> 'a IntoIter" where
  "av_into_iter v = \<lparr>it_index = 0, it_vec = v\<rparr>"

definition iter_next :: "'a IntoIter \<Rightarrow> ('a option \<times> 'a IntoIter) option" where
  "iter_next it =
     (if av_is_empty (it_vec it) \<or> it_index it \<ge> av_len (it_vec it) then Some (None, it)
      else do {
        let data = av_data (it_vec it);
        x \<leftarrow> slot_read data (it_index it);
        Some (Some x, it\<lparr>it_vec := (it_vec it)\<lparr>av_data := data[it_index it := None]\<rparr>,
                         it_index := it_index it + 1\<rparr>)
      })"

definition iter_next_back :: "'a IntoIter \<Rightarrow> ('a option \<times> 'a IntoIter) option" where
  "iter_next_back it =
     (if av_is_empty (it_vec it) \<or> it_index it \<ge> av_len (it_vec it) then Some (None, it)
      else do {
        let data = av_data (it_vec it);
        let i = av_len (it_vec it) - 1;
        x \<leftarrow> slot_read data i;
        Some (Some x, it\<lparr>it_vec := (it_vec it)\<lparr>av_data := data[i := None], av_len := i\<rparr>\<rparr>)
      })"

definition iter_size_hint :: "'a IntoIter \<Rightarrow> nat \<times> nat option" where
  "iter_size_hint it = (av_len (it_vec it), Some (av_len (it_vec it)))"

definition iter_drop :: "'a IntoIter \<Rightarrow> 'a ArrayVec option" where
  "iter_drop it =
     do {
       let len = av_len (it_vec it);
       n \<leftarrow> nat_sub len (it_index it);
       debug_assert (len \<le> av_capacity (it_vec it));
       data \<leftarrow> slots_drop (av_data (it_vec it)) (it_index it) n;
       Some ((it_vec it)\<lparr>av_len := 0, av_data := data\<rparr>)
     }"

section \<open>The abstraction to lists\<close>

lemma those_eq_Some: "those ys = Some xs \<longleftrightarrow> ys = map Some xs"
  by (induction ys arbitrary: xs) (auto split: option.splits)

lemma av_as_slice_iff:
  "av_as_slice v = Some xs \<longleftrightarrow>
     av_len v = length xs \<and> length xs \<le> av_capacity v \<and>
     (\<forall>i < length xs. av_data v ! i = Some (xs ! i))"
proof -
  have "av_as_slice v = Some xs \<longleftrightarrow> av_len v \<le> av_capacity v \<and> take (av_len v) (av_data v) = map Some xs"
    by (simp add: av_as_slice_def those_eq_Some)
  also have "\<dots> \<longleftrightarrow> av_len v = length xs \<and> length xs \<le> av_capacity v \<and>
     (\<forall>i < length xs. av_data v ! i = Some (xs ! i))"
    by (auto simp: list_eq_iff_nth_eq)
  finally show ?thesis .
qed

named_theorems av_simps \<open>unfolding of the vector's operations\<close>

lemmas [av_simps] = av_as_slice_iff slot_read_def slots_copy_def nat_sub_def

lemma av_new_slice [simp]: "av_as_slice (av_new CAP) = Some []"
  by (simp add: av_as_slice_iff av_new_def)

lemma av_try_push_room:
  assumes "av_as_slice v = Some xs" "length xs < av_capacity v"
  shows "\<exists>v'. av_try_push x v = Some (Inr (), v') \<and> av_as_slice v' = Some (xs @ [x]) \<and>
           av_capacity v' = av_capacity v"
  using assms
  by (auto simp: av_try_push_def av_push_unchecked_def av_as_slice_iff nth_append nth_list_update)

lemma av_try_push_full:
  assumes "av_as_slice v = Some xs" "\<not> length xs < av_capacity v"
  shows "av_try_push x v = Some (Inl (CapacityError x), v)"
  using assms by (simp add: av_try_push_def av_as_slice_iff)

lemma av_push_room:
  assumes "av_as_slice v = Some xs" "length xs < av_capacity v"
  shows "\<exists>v'. av_push x v = Some v' \<and> av_as_slice v' = Some (xs @ [x]) \<and>
           av_capacity v' = av_capacity v"
  using av_try_push_room [OF assms, of x] by (auto simp: av_push_def)

lemma av_push_full:
  "av_as_slice v = Some xs \<Longrightarrow> \<not> length xs < av_capacity v \<Longrightarrow> av_push x v = None"
  by (simp add: av_push_def av_try_push_full)

lemma av_pop_slice:
  assumes "av_as_slice v = Some xs"
  shows "if xs = [] then av_pop v = Some (None, v)
         else \<exists>v'. av_pop v = Some (Some (last xs), v') \<and> av_as_slice v' = Some (butlast xs) \<and>
           av_capacity v' = av_capacity v"
proof (cases xs rule: rev_cases)
  case (snoc ys y)
  then show ?thesis
    using assms by (auto simp: av_pop_def av_simps nth_append split: if_splits)
qed (use assms in \<open>simp add: av_pop_def av_as_slice_iff\<close>)

lemma nth_slots_copy_1:
  assumes "slots_copy xs src dst 1 = Some ys"
  shows "length ys = length xs" "ys = xs[dst := xs ! src]"
proof -
  have *: "src < length xs" "dst < length xs" "ys = take dst xs @ take 1 (drop src xs) @ drop (dst + 1) xs"
    using assms by (auto simp: slots_copy_def split: if_splits)
  moreover have "take 1 (drop src xs) = [xs ! src]"
    using *(1) by (simp add: take_Suc_conv_app_nth hd_drop_conv_nth)
  ultimately show "ys = xs[dst := xs ! src]"
    by (simp add: upd_conv_take_nth_drop)
  then show "length ys = length xs" by simp
qed

lemma slots_copy_1_Some: "src < length xs \<Longrightarrow> dst < length xs \<Longrightarrow> slots_copy xs src dst 1 = Some (xs[dst := xs ! src])"
  using nth_slots_copy_1(2) [of xs src dst] by (simp add: slots_copy_def)

lemma av_swap_remove_slice:
  assumes "av_as_slice v = Some xs"
  shows "if index < length xs
         then \<exists>v'. av_swap_remove index v = Some (xs ! index, v') \<and>
           av_as_slice v' = Some (butlast (xs[index := last xs])) \<and> av_capacity v' = av_capacity v
         else av_swap_remove index v = None"
proof (cases "index < length xs")
  case True
  then have ne: "xs \<noteq> []" by auto
  have len: "av_len v = length xs" "length xs \<le> av_capacity v"
    "\<And>i. i < length xs \<Longrightarrow> av_data v ! i = Some (xs ! i)"
    using assms by (simp_all add: av_as_slice_iff)
  have c: "slots_copy (av_data v) (length xs - 1) index 1 =
      Some ((av_data v)[index := Some (last xs)])"
    using True len ne by (subst slots_copy_1_Some) (auto simp: last_conv_nth)
  show ?thesis
    using True len c
    by (auto simp: av_swap_remove_def slot_read_def av_as_slice_iff nth_butlast nth_list_update)
qed (use assms in \<open>simp add: av_swap_remove_def av_as_slice_iff\<close>)

lemma slots_drop_Some:
  assumes "i + n \<le> length xs" "\<And>j. i \<le> j \<Longrightarrow> j < i + n \<Longrightarrow> xs ! j \<noteq> None"
  shows "\<exists>ys. slots_drop xs i n = Some ys \<and> length ys = length xs \<and>
           (\<forall>j < length xs. ys ! j = (if i \<le> j \<and> j < i + n then None else xs ! j))"
  using assms
proof (induction xs i n rule: slots_drop.induct)
  case (2 xs i n)
  then have "xs ! i \<noteq> None" "i < length xs" by simp_all
  then obtain x where x: "slot_read xs i = Some x"
    by (auto simp: slot_read_def)
  have "\<exists>ys. slots_drop (xs[i := None]) (Suc i) n = Some ys \<and> length ys = length (xs[i := None]) \<and>
      (\<forall>j < length (xs[i := None]).
         ys ! j = (if Suc i \<le> j \<and> j < Suc i + n then None else xs[i := None] ! j))"
    using 2 x by (intro 2(1)) (auto simp: nth_list_update)
  then show ?case
    using x 2(2) by (auto simp: nth_list_update)
qed auto

lemma av_clear_slice:
  assumes "av_as_slice v = Some xs"
  shows "\<exists>v'. av_clear v = Some v' \<and> av_as_slice v' = Some [] \<and> av_capacity v' = av_capacity v"
  using slots_drop_Some [of 0 "length xs" "av_data v"] assms
  by (auto simp: av_clear_def av_as_slice_iff min_absorb1)

lemma av_truncate_slice:
  assumes "av_as_slice v = Some xs"
  shows "\<exists>v'. av_truncate n v = Some v' \<and> av_as_slice v' = Some (take n xs) \<and>
           av_capacity v' = av_capacity v"
proof (cases "n < length xs")
  case True
  then show ?thesis
    using slots_drop_Some [of n "length xs - n" "av_data v"] assms
    by (auto simp: av_truncate_def av_as_slice_iff Let_def)
qed (use assms in \<open>simp add: av_truncate_def av_as_slice_iff\<close>)

lemma av_write_slots_nth:
  assumes "i + length xs \<le> length data"
  shows "length (av_write_slots data i xs) = length data \<and>
         (\<forall>j < length data. av_write_slots data i xs ! j =
            (if i \<le> j \<and> j < i + length xs then Some (xs ! (j - i)) else data ! j))"
  using assms
proof (induction data i xs rule: av_write_slots.induct)
  case (2 data i x xs)
  then show ?case
    by (auto simp: nth_Cons' nth_list_update not_less_eq_eq Suc_diff_le)
qed auto

lemma av_try_extend_slice:
  assumes "av_as_slice v = Some xs"
  shows "if length xs + length ys \<le> av_capacity v
         then \<exists>v'. av_try_extend_from_slice ys v = Some (Inr (), v') \<and>
           av_as_slice v' = Some (xs @ ys) \<and> av_capacity v' = av_capacity v
         else av_try_extend_from_slice ys v = Some (Inl (CapacityError ()), v)"
  using assms av_write_slots_nth [of "length xs" ys "av_data v"]
  by (auto simp: av_try_extend_from_slice_def av_remaining_capacity_def av_simps nth_append)

section \<open>The interface of a bounded vector\<close>

text \<open>
  What the clients of the vector rely on: a new vector is empty, \<open>push\<close> appends while there is
  room and fails without room. The client lemma is about pushing a whole sequence.
\<close>

locale bounded_vec =
  fixes elems :: "'v \<Rightarrow> 'a list option"
    and cap :: "'v \<Rightarrow> nat"
    and new :: "nat \<Rightarrow> 'v"
    and push :: "'a \<Rightarrow> 'v \<Rightarrow> 'v option"
  assumes elems_new: "elems (new n) = Some []"
    and cap_new: "cap (new n) = n"
    and push_room: "elems v = Some xs \<Longrightarrow> length xs < cap v \<Longrightarrow>
      \<exists>v'. push x v = Some v' \<and> elems v' = Some (xs @ [x]) \<and> cap v' = cap v"
    and push_full: "elems v = Some xs \<Longrightarrow> \<not> length xs < cap v \<Longrightarrow> push x v = None"
begin

lemma push_each_elems:
  assumes "elems v = Some xs"
  shows "if length xs + length ys \<le> cap v
         then \<exists>v'. push_each push ys v = Some v' \<and> elems v' = Some (xs @ ys) \<and> cap v' = cap v
         else ys \<noteq> [] \<longrightarrow> push_each push ys v = None"
  using assms
proof (induction ys arbitrary: v xs)
  case (Cons y ys)
  show ?case
  proof (cases "length xs < cap v")
    case True
    then obtain v' where v': "push y v = Some v'" "elems v' = Some (xs @ [y])" "cap v' = cap v"
      using push_room Cons(2) by blast
    show ?thesis
      using Cons(1) [OF v'(2)] True v' by (cases "ys = []") auto
  qed (use push_full Cons(2) in simp)
qed simp

lemma push_each_new:
  "if length ys \<le> n
   then \<exists>v'. push_each push ys (new n) = Some v' \<and> elems v' = Some ys \<and> cap v' = n
   else push_each push ys (new n) = None"
  using push_each_elems [OF elems_new, of ys n] cap_new [of n] by (cases "ys = []") auto

end

interpretation av: bounded_vec av_as_slice av_capacity av_new av_push
  by unfold_locales (simp, simp add: av_new_def, rule av_push_room, auto intro: av_push_full)

lemma av_from_iter_slice:
  "if length xs \<le> CAP
   then \<exists>v. av_from_iter CAP xs = Some v \<and> av_as_slice v = Some xs \<and> av_capacity v = CAP
   else av_from_iter CAP xs = None"
  unfolding av_from_iter_def by (rule av.push_each_new)

lemma av_as_slice_length: "av_as_slice v = Some xs \<Longrightarrow> av_len v = length xs \<and> length xs \<le> av_capacity v"
  by (simp add: av_as_slice_iff)

lemma av_clone_slice:
  assumes "av_as_slice v = Some xs"
  shows "\<exists>v'. av_clone v = Some v' \<and> av_as_slice v' = Some xs \<and> av_capacity v' = av_capacity v"
  using assms av_from_iter_slice [of xs "av_capacity v"] av_as_slice_length [OF assms]
  by (simp add: av_clone_def)

lemma av_write_prefix_slice:
  assumes "av_as_slice v = Some xs" "length zs \<le> length xs"
  shows "av_as_slice (v\<lparr>av_data := av_write_slots (av_data v) 0 zs\<rparr>) = Some (zs @ drop (length zs) xs)"
    "av_capacity (v\<lparr>av_data := av_write_slots (av_data v) 0 zs\<rparr>) = av_capacity v"
  using assms av_write_slots_nth [of 0 zs "av_data v"] by (auto simp: av_as_slice_iff nth_append)

lemma av_clone_from_slice:
  assumes "av_as_slice v = Some xs" "av_as_slice rhs = Some ys" "length ys \<le> av_capacity v"
  shows "\<exists>v'. av_clone_from rhs v = Some v' \<and> av_as_slice v' = Some ys \<and> av_capacity v' = av_capacity v"
proof -
  define zs where "zs = take (min (length xs) (length ys)) ys"
  define v1 where "v1 = v\<lparr>av_data := av_write_slots (av_data v) 0 zs\<rparr>"
  have zs: "length zs = min (length xs) (length ys)" by (simp add: zs_def)
  have v1: "av_as_slice v1 = Some (zs @ drop (length zs) xs)" "av_capacity v1 = av_capacity v"
    using av_write_prefix_slice [OF assms(1), of zs] zs by (simp_all add: v1_def)
  have len: "av_len v = length xs" "av_len rhs = length ys" "av_len v1 = length xs"
    using assms by (simp_all add: av_as_slice_iff v1_def)
  have *: "av_clone_from rhs v =
      (if length zs < length xs then av_truncate (length zs) v1
       else av_extend_from_slice (drop (length xs) ys) v1)"
    using assms by (simp add: av_clone_from_def len v1_def zs_def min.commute)
  show ?thesis
  proof (cases "length zs < length xs")
    case True
    then have "zs = ys" by (simp add: zs_def min_def split: if_splits)
    then show ?thesis
      using True av_truncate_slice [OF v1(1), of "length zs"] v1(2) by (simp add: *)
  next
    case False
    then have "zs @ drop (length xs) ys = ys" "drop (length zs) xs = []"
      by (simp_all add: zs_def min_def split: if_splits)
    moreover have "length zs + length (drop (length xs) ys) \<le> av_capacity v1"
      using False assms(3) v1(2) zs by auto
    ultimately show ?thesis
      using False av_try_extend_slice [OF v1(1), of "drop (length xs) ys"] v1(2)
      by (auto simp: * av_extend_from_slice_def)
  qed
qed

section \<open>\<open>retain\<close> as a filter\<close>

text \<open>The reference: visit the elements in order, keep those the closure accepts.\<close>

fun retain_list :: "('s, 'a) retain_fn \<Rightarrow> 's \<Rightarrow> 'a list \<Rightarrow> 's \<times> 'a list" where
  "retain_list f s [] = (s, [])"
| "retain_list f s (x # xs) =
     (let (keep, x', s') = f s x; (s'', ys) = retain_list f s' xs
      in (s'', if keep then x' # ys else ys))"

text \<open>Kept elements at the front, the elements still to visit at \<open>processed_len\<close>.\<close>

definition bs_inv :: "'a BackshiftOnDrop \<Rightarrow> 'a list \<Rightarrow> 'a list \<Rightarrow> bool" where
  "bs_inv g ys rest \<longleftrightarrow>
     bs_processed_len g = length ys + bs_deleted_cnt g \<and>
     bs_original_len g = bs_processed_len g + length rest \<and>
     bs_original_len g \<le> length (bs_data g) \<and>
     (\<forall>i < length ys. bs_data g ! i = Some (ys ! i)) \<and>
     (\<forall>i < length rest. bs_data g ! (bs_processed_len g + i) = Some (rest ! i))"

lemma bs_process_one_inv:
  assumes inv: "bs_inv g ys (x # rest)" and f: "f s x = (keep, x', s')"
    and D: "D \<or> bs_deleted_cnt g = 0"
  shows "\<exists>g'. bs_process_one D f s g = Some (keep, s', g') \<and>
           bs_inv g' (if keep then ys @ [x'] else ys) rest \<and>
           (keep \<longrightarrow> bs_deleted_cnt g' = bs_deleted_cnt g) \<and> length (bs_data g') = length (bs_data g)"
proof -
  let ?p = "bs_processed_len g"
  have p: "?p < length (bs_data g)" "bs_data g ! ?p = Some x"
    and rest: "\<And>i. i < length rest \<Longrightarrow> bs_data g ! Suc (?p + i) = Some (rest ! i)"
    using inv by (auto simp: bs_inv_def nth_Cons' dest: spec [of _ 0])
  have r: "slot_read (bs_data g) ?p = Some x" using p by (simp add: slot_read_def)
  show ?thesis
  proof (cases keep)
    case False
    then show ?thesis
      using inv f r p rest by (auto simp: bs_process_one_def bs_inv_def nth_list_update)
  next
    case True
    have hole: "nat_sub ?p (bs_deleted_cnt g) = Some (length ys)"
      using inv by (simp add: bs_inv_def nat_sub_def)
    have le: "length ys \<le> ?p" using inv by (simp add: bs_inv_def)
    have c: "slots_copy ((bs_data g)[?p := Some x']) ?p (length ys) 1 =
        Some ((bs_data g)[?p := Some x', length ys := Some x'])"
      using p le by (subst slots_copy_1_Some) auto
    show ?thesis
    proof (cases D)
      case True
      then show ?thesis
        using inv f r p rest hole c \<open>keep\<close>
        by (auto simp: bs_process_one_def bs_inv_def nth_list_update nth_append)
    next
      case False
      then show ?thesis
        using D inv f r p rest \<open>keep\<close>
        by (auto simp: bs_process_one_def bs_inv_def nth_list_update nth_append)
    qed
  qed
qed

declare bs_stage1.simps [simp del] bs_stage2.simps [simp del]

lemma bs_stage2_inv:
  assumes "bs_inv g ys rest"
  shows "\<exists>g'. bs_stage2 f s g = Some (fst (retain_list f s rest), g') \<and>
           bs_inv g' (ys @ snd (retain_list f s rest)) [] \<and> length (bs_data g') = length (bs_data g)"
  using assms
proof (induction rest arbitrary: g ys s)
  case Nil
  then show ?case
    by (simp add: bs_stage2.simps [of f s g]) (simp add: bs_inv_def)
next
  case (Cons x rest)
  obtain keep x' s' where f: "f s x = (keep, x', s')" by (cases "f s x")
  obtain g' where g': "bs_process_one True f s g = Some (keep, s', g')"
    "bs_inv g' (if keep then ys @ [x'] else ys) rest" "length (bs_data g') = length (bs_data g)"
    using bs_process_one_inv [where D = True and f = f and s = s, OF Cons(2) f] by blast
  have "\<not> bs_processed_len g \<ge> bs_original_len g"
    using Cons(2) by (simp add: bs_inv_def)
  then show ?case
    using Cons(1) [OF g'(2), of s'] g' f
    by (subst bs_stage2.simps) (auto split: prod.splits if_splits)
qed

lemma bs_stage1_inv:
  assumes "bs_inv g ys rest" "bs_deleted_cnt g = 0"
  shows "\<exists>s1 g1 ys1 rest1. bs_stage1 f s g = Some (s1, g1) \<and> bs_inv g1 ys1 rest1 \<and>
           length (bs_data g1) = length (bs_data g) \<and>
           fst (retain_list f s rest) = fst (retain_list f s1 rest1) \<and>
           ys @ snd (retain_list f s rest) = ys1 @ snd (retain_list f s1 rest1)"
  using assms
proof (induction rest arbitrary: g ys s)
  case Nil
  then have "bs_stage1 f s g = Some (s, g)"
    by (subst bs_stage1.simps) (simp add: bs_inv_def)
  with Nil show ?case by force
next
  case (Cons x rest)
  obtain keep x' s' where f: "f s x = (keep, x', s')" by (cases "f s x")
  obtain g' where g': "bs_process_one False f s g = Some (keep, s', g')"
    "bs_inv g' (if keep then ys @ [x'] else ys) rest" "length (bs_data g') = length (bs_data g)"
    "keep \<longrightarrow> bs_deleted_cnt g' = 0"
    using bs_process_one_inv [where D = False and f = f and s = s, OF Cons(2) f] Cons(3) by auto
  have lt: "\<not> bs_processed_len g \<ge> bs_original_len g"
    using Cons(2) by (simp add: bs_inv_def)
  show ?case
  proof (cases keep)
    case True
    then show ?thesis
      using Cons(1) [of g' "ys @ [x']" s'] g' f lt
      by (subst bs_stage1.simps) (simp add: split_beta)
  next
    case False
    then have "bs_stage1 f s g = Some (s', g')"
      using g' lt by (subst bs_stage1.simps) simp
    then show ?thesis
      using False g' f
      by (intro exI [of _ s'] exI [of _ g'] exI [of _ ys] exI [of _ rest]) (simp add: split_beta)
  qed
qed

lemma av_retain_slice:
  assumes "av_as_slice v = Some xs"
  shows "\<exists>v'. av_retain f s v = Some (fst (retain_list f s xs), v') \<and>
           av_as_slice v' = Some (snd (retain_list f s xs)) \<and> av_capacity v' = av_capacity v"
proof -
  let ?g = "\<lparr>bs_data = av_data v, bs_processed_len = 0, bs_deleted_cnt = 0, bs_original_len = av_len v\<rparr>"
  have "bs_inv ?g [] xs" using assms by (simp add: bs_inv_def av_as_slice_iff)
  then obtain s1 g1 ys1 rest1 where 1: "bs_stage1 f s ?g = Some (s1, g1)" "bs_inv g1 ys1 rest1"
    "length (bs_data g1) = av_capacity v"
    "fst (retain_list f s xs) = fst (retain_list f s1 rest1)"
    "snd (retain_list f s xs) = ys1 @ snd (retain_list f s1 rest1)"
    using bs_stage1_inv [of ?g "[]" xs f s] by auto
  then obtain g2 where 2: "bs_stage2 f s1 g1 = Some (fst (retain_list f s xs), g2)"
    "bs_inv g2 (snd (retain_list f s xs)) []" "length (bs_data g2) = av_capacity v"
    using bs_stage2_inv [of g1 ys1 rest1 f s1] by auto
  have "\<exists>v'. bs_drop g2 = Some v' \<and> av_as_slice v' = Some (snd (retain_list f s xs)) \<and>
      av_capacity v' = av_capacity v"
    using 2(2,3) by (auto simp: bs_drop_def bs_inv_def av_simps)
  then show ?thesis
    using 1(1) 2(1) by (auto simp: av_retain_def)
qed

section \<open>Double-ended iterators\<close>

text \<open>
  A client takes elements from either end in any order: \<open>False\<close> for \<open>next\<close>, \<open>True\<close> for
  \<open>next_back\<close>. The reference takes them from a list.
\<close>

fun run_ends :: "('i \<Rightarrow> ('a option \<times> 'i) option) \<Rightarrow> ('i \<Rightarrow> ('a option \<times> 'i) option) \<Rightarrow>
    bool list \<Rightarrow> 'i \<Rightarrow> ('a option list \<times> 'i) option" where
  "run_ends next_f back_f [] it = Some ([], it)"
| "run_ends next_f back_f (b # bs) it =
     do {
       (x, it') \<leftarrow> (if b then back_f it else next_f it);
       (xs, it'') \<leftarrow> run_ends next_f back_f bs it';
       Some (x # xs, it'')
     }"

fun deque_run :: "bool list \<Rightarrow> 'a list \<Rightarrow> 'a option list \<times> 'a list" where
  "deque_run [] xs = ([], xs)"
| "deque_run (b # bs) [] = (let (ys, r) = deque_run bs [] in (None # ys, r))"
| "deque_run (b # bs) (x # xs) =
     (if b then let (ys, r) = deque_run bs (butlast (x # xs)) in (Some (last (x # xs)) # ys, r)
      else let (ys, r) = deque_run bs xs in (Some x # ys, r))"

locale double_ended_iter =
  fixes rest :: "'i \<Rightarrow> 'a list option"
    and frame :: "'i \<Rightarrow> 'f"
    and next_f :: "'i \<Rightarrow> ('a option \<times> 'i) option"
    and back_f :: "'i \<Rightarrow> ('a option \<times> 'i) option"
  assumes next_Nil: "rest it = Some [] \<Longrightarrow> next_f it = Some (None, it)"
    and back_Nil: "rest it = Some [] \<Longrightarrow> back_f it = Some (None, it)"
    and next_Cons: "rest it = Some (x # xs) \<Longrightarrow>
      \<exists>it'. next_f it = Some (Some x, it') \<and> rest it' = Some xs \<and> frame it' = frame it"
    and back_snoc: "rest it = Some (xs @ [x]) \<Longrightarrow>
      \<exists>it'. back_f it = Some (Some x, it') \<and> rest it' = Some xs \<and> frame it' = frame it"
begin

lemma run_ends_deque:
  assumes "rest it = Some xs"
  shows "\<exists>it'. run_ends next_f back_f bs it = Some (fst (deque_run bs xs), it') \<and>
           rest it' = Some (snd (deque_run bs xs)) \<and> frame it' = frame it"
  using assms
proof (induction bs xs arbitrary: it rule: deque_run.induct)
  case (2 b bs)
  then show ?case
    using next_Nil [of it] back_Nil [of it] by (cases b) (fastforce simp: split_beta)+
next
  case (3 b bs x xs)
  show ?case
  proof (cases b)
    case True
    have "rest it = Some (butlast (x # xs) @ [last (x # xs)])"
      using 3(3) by (simp del: last.simps butlast.simps)
    then obtain it' where "back_f it = Some (Some (last (x # xs)), it')"
      "rest it' = Some (butlast (x # xs))" "frame it' = frame it"
      using back_snoc by blast
    then show ?thesis
      using 3(1) [OF True, of it'] True by (fastforce simp: split_beta)
  next
    case False
    obtain it' where "next_f it = Some (Some x, it')" "rest it' = Some xs" "frame it' = frame it"
      using next_Cons 3(3) by blast
    then show ?thesis
      using 3(2) [OF False, of it'] False by (fastforce simp: split_beta)
  qed
qed simp

end

text \<open>The values of the slots from \<open>lo\<close> to \<open>hi\<close>, when they are all initialised.\<close>

definition slots_slice :: "'a option list \<Rightarrow> nat \<Rightarrow> nat \<Rightarrow> 'a list option" where
  "slots_slice data lo hi =
     (if lo \<le> hi \<and> hi \<le> length data then those (take (hi - lo) (drop lo data)) else None)"

lemma slots_slice_iff:
  "slots_slice data lo hi = Some xs \<longleftrightarrow>
     lo \<le> hi \<and> hi \<le> length data \<and> length xs = hi - lo \<and>
     (\<forall>i < length xs. data ! (lo + i) = Some (xs ! i))"
  by (auto simp: slots_slice_def those_eq_Some list_eq_iff_nth_eq)

definition drain_rest :: "'a Drain \<Rightarrow> 'a list option" where
  "drain_rest d = slots_slice (av_data (dr_vec d)) (dr_lo d) (dr_hi d)"

definition iter_rest :: "'a IntoIter \<Rightarrow> 'a list option" where
  "iter_rest it = slots_slice (av_data (it_vec it)) (it_index it) (av_len (it_vec it))"

definition drain_frame :: "'a Drain \<Rightarrow> nat \<times> nat \<times> 'a ArrayVec" where
  "drain_frame d = (dr_tail_start d, dr_tail_len d, dr_vec d)"

lemma slots_slice_plus:
  "slots_slice data lo hi = Some xs \<longleftrightarrow>
     hi = lo + length xs \<and> hi \<le> length data \<and> (\<forall>i < length xs. data ! (lo + i) = Some (xs ! i))"
  by (auto simp: slots_slice_iff)

lemma slots_slice_Cons:
  "slots_slice data lo hi = Some (x # xs) \<longleftrightarrow>
     lo < hi \<and> slot_read data lo = Some x \<and> slots_slice data (Suc lo) hi = Some xs"
  by (auto simp: slots_slice_plus slot_read_def All_less_Suc2 split: if_splits)

lemma slots_slice_snoc:
  "slots_slice data lo hi = Some (xs @ [x]) \<longleftrightarrow>
     lo < hi \<and> slot_read data (hi - 1) = Some x \<and> slots_slice data lo (hi - 1) = Some xs"
proof (cases "hi = lo + Suc (length xs)")
  case True
  then show ?thesis
    by (auto simp: slots_slice_plus slot_read_def All_less_Suc nth_append split: if_splits)
qed (auto simp: slots_slice_plus)

lemma slots_slice_Nil: "slots_slice data lo hi = Some [] \<longleftrightarrow> lo = hi \<and> hi \<le> length data"
  by (auto simp: slots_slice_plus)

lemma slots_slice_update:
  "\<not> (lo \<le> i \<and> i < hi) \<Longrightarrow> slots_slice (data[i := y]) lo hi = slots_slice data lo hi"
  by (auto simp: slots_slice_def intro!: arg_cong [of _ _ those] nth_equalityI)

interpretation dr: double_ended_iter drain_rest drain_frame drain_next drain_next_back
proof
  fix it :: "'a Drain" and x xs
  show "drain_rest it = Some [] \<Longrightarrow> drain_next it = Some (None, it)"
    and "drain_rest it = Some [] \<Longrightarrow> drain_next_back it = Some (None, it)"
    by (simp_all add: drain_rest_def drain_next_def drain_next_back_def slots_slice_Nil)
  show "\<exists>it'. drain_next it = Some (Some x, it') \<and> drain_rest it' = Some xs \<and>
      drain_frame it' = drain_frame it" if "drain_rest it = Some (x # xs)"
    using that by (simp add: drain_rest_def drain_next_def drain_frame_def slots_slice_Cons)
  show "\<exists>it'. drain_next_back it = Some (Some x, it') \<and> drain_rest it' = Some xs \<and>
      drain_frame it' = drain_frame it" if "drain_rest it = Some (xs @ [x])"
    using that by (simp add: drain_rest_def drain_next_back_def drain_frame_def slots_slice_snoc)
qed

interpretation it: double_ended_iter iter_rest "\<lambda>it. av_capacity (it_vec it)" iter_next iter_next_back
proof
  fix it :: "'a IntoIter" and x xs
  show "iter_rest it = Some [] \<Longrightarrow> iter_next it = Some (None, it)"
    and "iter_rest it = Some [] \<Longrightarrow> iter_next_back it = Some (None, it)"
    by (simp_all add: iter_rest_def iter_next_def iter_next_back_def slots_slice_Nil)
  show "\<exists>it'. iter_next it = Some (Some x, it') \<and> iter_rest it' = Some xs \<and>
      av_capacity (it_vec it') = av_capacity (it_vec it)" if "iter_rest it = Some (x # xs)"
    using that
    by (auto simp: iter_rest_def iter_next_def av_is_empty_def slots_slice_Cons slots_slice_update)
  show "\<exists>it'. iter_next_back it = Some (Some x, it') \<and> iter_rest it' = Some xs \<and>
      av_capacity (it_vec it') = av_capacity (it_vec it)" if "iter_rest it = Some (xs @ [x])"
    using that
    by (auto simp: iter_rest_def iter_next_back_def av_is_empty_def slots_slice_snoc slots_slice_update)
qed

declare drain_exhaust.simps [simp del]

lemma drain_exhaust_Some:
  assumes "drain_rest d = Some xs"
  shows "\<exists>d'. drain_exhaust d = Some d' \<and> drain_frame d' = drain_frame d"
  using assms
proof (induction xs arbitrary: d)
  case Nil
  then show ?case
    by (subst drain_exhaust.simps) (simp add: dr.next_Nil)
next
  case (Cons x xs)
  obtain d1 where "drain_next d = Some (Some x, d1)" "drain_rest d1 = Some xs"
    "drain_frame d1 = drain_frame d"
    using dr.next_Cons [OF Cons(2)] by blast
  then show ?case
    using Cons(1) [of d1] by (subst drain_exhaust.simps) simp
qed

lemma drain_drop_slice:
  assumes "drain_rest d = Some ys" "drain_frame d = (e, length xs - e, v\<lparr>av_len := s\<rparr>)"
    "av_as_slice v = Some xs" "s \<le> e" "e \<le> length xs"
  shows "\<exists>v'. drain_drop d = Some v' \<and> av_as_slice v' = Some (take s xs @ drop e xs) \<and>
           av_capacity v' = av_capacity v"
proof -
  obtain d' where d': "drain_exhaust d = Some d'" "drain_frame d' = drain_frame d"
    using drain_exhaust_Some [OF assms(1)] by blast
  then have f: "dr_tail_start d' = e" "dr_tail_len d' = length xs - e" "dr_vec d' = v\<lparr>av_len := s\<rparr>"
    using assms(2) by (simp_all add: drain_frame_def)
  show ?thesis
  proof (cases "e = length xs \<or> e = s")
    case True
    then show ?thesis
      using assms(3-5) by (auto simp: drain_drop_def d'(1) f av_as_slice_iff)
  next
    case False
    then show ?thesis
      using assms(3-5)
      by (simp add: drain_drop_def d'(1) f av_simps) (auto simp: nth_append min_def)
  qed
qed

lemma av_drain_Some:
  assumes "av_as_slice v = Some xs" "s \<le> e" "e \<le> length xs"
  shows "\<exists>d. av_drain (Included s) (Excluded e) v = Some d \<and>
           drain_rest d = Some (take (e - s) (drop s xs)) \<and>
           drain_frame d = (e, length xs - e, v\<lparr>av_len := s\<rparr>)"
proof (intro exI conjI)
  let ?d = "\<lparr>dr_tail_start = e, dr_tail_len = length xs - e, dr_lo = s, dr_hi = e,
              dr_vec = v\<lparr>av_len := s\<rparr>\<rparr>"
  have v: "av_len v = length xs" "length xs \<le> av_capacity v"
    "\<And>i. i < length xs \<Longrightarrow> av_data v ! i = Some (xs ! i)"
    using assms(1) by (simp_all add: av_as_slice_iff)
  show "av_drain (Included s) (Excluded e) v = Some ?d"
    using assms(2,3) v(1) by (simp add: av_drain_def nat_sub_def)
  show "drain_rest ?d = Some (take (e - s) (drop s xs))"
    using assms(2,3) v(2,3) by (simp add: drain_rest_def slots_slice_plus)
  show "drain_frame ?d = (e, length xs - e, v\<lparr>av_len := s\<rparr>)"
    by (simp add: drain_frame_def)
qed

lemma iter_drop_Some:
  assumes "iter_rest it = Some xs"
  shows "\<exists>v. iter_drop it = Some v \<and> av_as_slice v = Some []"
proof -
  have *: "it_index it \<le> av_len (it_vec it)" "av_len (it_vec it) = it_index it + length xs"
    "av_len (it_vec it) \<le> av_capacity (it_vec it)"
    "\<And>i. i < length xs \<Longrightarrow> av_data (it_vec it) ! (it_index it + i) = Some (xs ! i)"
    using assms by (auto simp: iter_rest_def slots_slice_plus)
  have "av_data (it_vec it) ! j \<noteq> None" if "it_index it \<le> j" "j < it_index it + length xs" for j
    using *(4) [of "j - it_index it"] that by simp
  then show ?thesis
    using slots_drop_Some [of "it_index it" "length xs" "av_data (it_vec it)"] *
    by (auto simp: iter_drop_def av_simps)
qed

section \<open>Properties\<close>

text \<open>
  C34. A vector that holds the list \<open>xs\<close> behaves as that list bounded by its capacity: \<open>try_push\<close>
  appends or gives the element back, \<open>pop\<close> takes the last element, \<open>swap_remove\<close> takes the
  element at an index and fills the hole with the last one, \<open>truncate\<close> and \<open>clear\<close> shorten,
  \<open>try_extend_from_slice\<close> appends all elements or none, \<open>clone\<close> copies. None of them panics
  (except \<open>swap_remove\<close> out of bounds), reads an uninitialised slot or changes the capacity.
\<close>

theorem av_refines_list:
  assumes "av_as_slice v = Some xs"
  shows "(if length xs < av_capacity v
          then \<exists>v'. av_try_push x v = Some (Inr (), v') \<and> av_as_slice v' = Some (xs @ [x]) \<and>
            av_capacity v' = av_capacity v
          else av_try_push x v = Some (Inl (CapacityError x), v)) \<and>
         (if xs = [] then av_pop v = Some (None, v)
          else \<exists>v'. av_pop v = Some (Some (last xs), v') \<and> av_as_slice v' = Some (butlast xs) \<and>
            av_capacity v' = av_capacity v) \<and>
         (if i < length xs
          then \<exists>v'. av_swap_remove i v = Some (xs ! i, v') \<and>
            av_as_slice v' = Some (butlast (xs[i := last xs])) \<and> av_capacity v' = av_capacity v
          else av_swap_remove i v = None) \<and>
         (\<exists>v'. av_truncate n v = Some v' \<and> av_as_slice v' = Some (take n xs) \<and>
            av_capacity v' = av_capacity v) \<and>
         (\<exists>v'. av_clear v = Some v' \<and> av_as_slice v' = Some [] \<and> av_capacity v' = av_capacity v) \<and>
         (if length xs + length ys \<le> av_capacity v
          then \<exists>v'. av_try_extend_from_slice ys v = Some (Inr (), v') \<and>
            av_as_slice v' = Some (xs @ ys) \<and> av_capacity v' = av_capacity v
          else av_try_extend_from_slice ys v = Some (Inl (CapacityError ()), v)) \<and>
         (\<exists>v'. av_clone v = Some v' \<and> av_as_slice v' = Some xs \<and> av_capacity v' = av_capacity v)"
  using av_try_push_room [OF assms] av_try_push_full [OF assms]
    av_pop_slice [OF assms] av_swap_remove_slice [OF assms, of i] av_truncate_slice [OF assms, of n]
    av_clear_slice [OF assms] av_try_extend_slice [OF assms, of ys] av_clone_slice [OF assms]
  by (intro conjI) simp_all

theorem av_refines_list_witness:
  "av_as_slice (\<lparr>av_len = 2, av_data = [Some 7, Some 9, None]\<rparr> :: nat ArrayVec) = Some [7, 9] \<and>
   (\<exists>v'. av_swap_remove 0 (\<lparr>av_len = 2, av_data = [Some 7, Some 9, None]\<rparr> :: nat ArrayVec) = Some (7, v') \<and>
      av_as_slice v' = Some [9])"
proof -
  have s: "av_as_slice (\<lparr>av_len = 2, av_data = [Some 7, Some 9, None]\<rparr> :: nat ArrayVec) = Some [7, 9]"
    by (simp add: av_as_slice_def)
  show ?thesis
    using s av_refines_list [OF s, of 0 0 0 "[]"] by auto
qed

text \<open>
  \<open>from_iter\<close> builds the vector of the iterator's elements when they fit the capacity and
  panics when they do not; \<open>clone_from\<close> makes a vector equal to another one, whatever it held.
\<close>

lemma av_from_iter_and_clone_from:
  assumes "av_as_slice v = Some xs" "av_as_slice rhs = Some ys" "length ys \<le> av_capacity v"
  shows "(if length zs \<le> CAP
          then \<exists>w. av_from_iter CAP zs = Some w \<and> av_as_slice w = Some zs \<and> av_capacity w = CAP
          else av_from_iter CAP zs = None) \<and>
         (\<exists>v'. av_clone_from rhs v = Some v' \<and> av_as_slice v' = Some ys \<and>
            av_capacity v' = av_capacity v)"
  using av_from_iter_slice [of zs CAP] av_clone_from_slice [OF assms] by simp

text \<open>
  C13. \<open>retain\<close>, with its two loops over a hole that moves through the storage, is the stateful
  filter: the closure sees the elements once and in order, the elements it accepts stay (as the
  closure left them), and the vector ends with exactly those.
\<close>

theorem av_retain_refines_filter:
  assumes "av_as_slice v = Some xs"
  shows "\<exists>v'. av_retain f s v = Some (fst (retain_list f s xs), v') \<and>
           av_as_slice v' = Some (snd (retain_list f s xs)) \<and> av_capacity v' = av_capacity v"
  using av_retain_slice [OF assms] .

theorem av_retain_refines_filter_witness:
  "av_as_slice (\<lparr>av_len = 3, av_data = [Some 1, Some 2, Some 3]\<rparr> :: nat ArrayVec) = Some [1, 2, 3] \<and>
   (\<exists>v'. av_retain (\<lambda>s x. (x \<noteq> 1, x + s, s + 1)) 10
      (\<lparr>av_len = 3, av_data = [Some 1, Some 2, Some 3]\<rparr> :: nat ArrayVec) = Some (13, v') \<and>
      av_as_slice v' = Some [13, 15])"
proof -
  have s: "av_as_slice (\<lparr>av_len = 3, av_data = [Some 1, Some 2, Some 3]\<rparr> :: nat ArrayVec) = Some [1, 2, 3]"
    by (simp add: av_as_slice_def)
  show ?thesis
    using s av_retain_refines_filter [OF s, of "\<lambda>s x. (x \<noteq> 1, x + s, s + 1)" 10] by auto
qed

text \<open>
  C35. \<open>drain(s..e)\<close> panics exactly when \<open>s > e\<close> or \<open>e\<close> exceeds the length. Otherwise the iterator
  yields the elements \<open>s..e\<close> from whichever end the client asks, its size hint is exact at every
  point, and dropping it early or late leaves the vector with the elements before \<open>s\<close> and from \<open>e\<close>.
\<close>

theorem av_drain_correct:
  assumes "av_as_slice v = Some xs"
  shows "if s \<le> e \<and> e \<le> length xs
         then \<exists>d d' v'. av_drain (Included s) (Excluded e) v = Some d \<and>
           run_ends drain_next drain_next_back bs d =
             Some (fst (deque_run bs (take (e - s) (drop s xs))), d') \<and>
           drain_size_hint d' = (length (snd (deque_run bs (take (e - s) (drop s xs)))),
             Some (length (snd (deque_run bs (take (e - s) (drop s xs)))))) \<and>
           drain_drop d' = Some v' \<and> av_as_slice v' = Some (take s xs @ drop e xs) \<and>
           av_capacity v' = av_capacity v
         else av_drain (Included s) (Excluded e) v = None"
proof (cases "s \<le> e \<and> e \<le> length xs")
  case True
  then obtain d where d: "av_drain (Included s) (Excluded e) v = Some d"
    "drain_rest d = Some (take (e - s) (drop s xs))"
    "drain_frame d = (e, length xs - e, v\<lparr>av_len := s\<rparr>)"
    using av_drain_Some [OF assms] by blast
  obtain d' where d': "run_ends drain_next drain_next_back bs d =
        Some (fst (deque_run bs (take (e - s) (drop s xs))), d')"
      "drain_rest d' = Some (snd (deque_run bs (take (e - s) (drop s xs))))"
      "drain_frame d' = drain_frame d"
    using dr.run_ends_deque [OF d(2), of bs] by blast
  have "drain_size_hint d' = (length (snd (deque_run bs (take (e - s) (drop s xs)))),
      Some (length (snd (deque_run bs (take (e - s) (drop s xs))))))"
    using d'(2) by (simp add: drain_size_hint_def drain_rest_def slots_slice_plus)
  moreover obtain v' where "drain_drop d' = Some v'" "av_as_slice v' = Some (take s xs @ drop e xs)"
    "av_capacity v' = av_capacity v"
    using drain_drop_slice [OF d'(2) _ assms, of e s] d'(3) d(3) True by auto
  ultimately show ?thesis
    using True d(1) d'(1) by (simp only: simp_thms if_True) blast
next
  case False
  then show ?thesis
    using assms by (auto simp: av_drain_def av_simps)
qed

theorem av_drain_correct_witness:
  "av_as_slice (\<lparr>av_len = 3, av_data = [Some 1, Some 2, Some 3]\<rparr> :: nat ArrayVec) = Some [1, 2, 3] \<and>
   (\<exists>d d' v'. av_drain (Included 0) (Excluded 2)
        (\<lparr>av_len = 3, av_data = [Some 1, Some 2, Some 3]\<rparr> :: nat ArrayVec) = Some d \<and>
      run_ends drain_next drain_next_back [True] d = Some ([Some 2], d') \<and>
      drain_size_hint d' = (1, Some 1) \<and> drain_drop d' = Some v' \<and> av_as_slice v' = Some [3])"
proof -
  have s: "av_as_slice (\<lparr>av_len = 3, av_data = [Some 1, Some 2, Some 3]\<rparr> :: nat ArrayVec) = Some [1, 2, 3]"
    by (simp add: av_as_slice_def)
  show ?thesis
    using s av_drain_correct [OF s, of 0 2 "[True]"] by (simp add: numeral_2_eq_2) blast
qed

text \<open>
  C36. The owning iterator yields the elements of the vector from whichever end the client asks
  and can be dropped at any point without touching an element twice. Its size hint, however, is
  the exact number of remaining elements only before the first call of \<open>next\<close>: every call of \<open>next\<close> that
  yields an element leaves the hint one too large.
\<close>

theorem av_into_iter_correct:
  assumes "av_as_slice v = Some xs"
  shows "\<exists>it. run_ends iter_next iter_next_back bs (av_into_iter v) = Some (fst (deque_run bs xs), it) \<and>
           (\<exists>w. iter_drop it = Some w \<and> av_as_slice w = Some []) \<and>
           iter_size_hint it = (length (snd (deque_run bs xs)) + it_index it,
             Some (length (snd (deque_run bs xs)) + it_index it)) \<and>
           iter_size_hint (av_into_iter v) = (length xs, Some (length xs))"
proof -
  have "iter_rest (av_into_iter v) = Some xs"
    using assms by (simp add: iter_rest_def av_into_iter_def slots_slice_plus av_as_slice_iff)
  then obtain it where it: "run_ends iter_next iter_next_back bs (av_into_iter v) =
        Some (fst (deque_run bs xs), it)" "iter_rest it = Some (snd (deque_run bs xs))"
    using it.run_ends_deque by blast
  have "iter_size_hint it = (length (snd (deque_run bs xs)) + it_index it,
      Some (length (snd (deque_run bs xs)) + it_index it))"
    using it(2) by (simp add: iter_size_hint_def iter_rest_def slots_slice_plus)
  then show ?thesis
    using it iter_drop_Some [OF it(2)] assms
    by (auto simp: iter_size_hint_def av_into_iter_def av_as_slice_iff)
qed

theorem av_into_iter_correct_witness:
  "av_as_slice (\<lparr>av_len = 2, av_data = [Some 1, Some 2]\<rparr> :: nat ArrayVec) = Some [1, 2] \<and>
   (\<exists>it. run_ends iter_next iter_next_back [False]
        (av_into_iter (\<lparr>av_len = 2, av_data = [Some 1, Some 2]\<rparr> :: nat ArrayVec)) = Some ([Some 1], it) \<and>
      iter_size_hint it = (2, Some 2))"
proof -
  have s: "av_as_slice (\<lparr>av_len = 2, av_data = [Some 1, Some 2]\<rparr> :: nat ArrayVec) = Some [1, 2]"
    by (simp add: av_as_slice_def)
  show ?thesis
    using s av_into_iter_correct [OF s, of "[False]"]
    by (auto simp: av_into_iter_def iter_next_def av_is_empty_def slot_read_def iter_size_hint_def)
qed

end
