(* ===== verification/Address.thy ===== *)
theory Address
  imports K23_Prelude
begin

text \<open>
  \<^verbatim>\<open>lib/mem-core/src/address.rs\<close>: the newtypes \<open>VirtualAddress\<close> and \<open>PhysicalAddress\<close>. One
  macro, \<open>impl_address!\<close>, gives both the same methods, so the model has one definition per
  method, on the wrapped \<open>usize\<close>. The methods that panic (\<open>add\<close>, \<open>sub\<close>, \<open>offset\<close>,
  \<open>offset_from_unsigned\<close>, the alignment methods) return an \<open>option\<close>.

  The lemmas read every method as arithmetic on natural numbers: an aligned address is a
  multiple, \<open>align_down\<close> and \<open>align_up\<close> are the greatest multiple below and the least one
  above, and sign extension has exactly the two canonical halves as fixed points.
\<close>

type_synonym vaddr = usize
type_synonym paddr = usize

section \<open>Arithmetic\<close>

definition addr_MAX :: usize where
  "addr_MAX = usize_MAX"

definition addr_MIN :: usize where
  "addr_MIN = 0"

definition addr_is_null :: "usize \<Rightarrow> bool" where
  "addr_is_null a \<longleftrightarrow> a = 0"

definition addr_add :: "usize \<Rightarrow> usize \<Rightarrow> usize option" where
  "addr_add a n = usize_add a n"

definition addr_sub :: "usize \<Rightarrow> usize \<Rightarrow> usize option" where
  "addr_sub a n = usize_sub a n"

definition addr_offset :: "usize \<Rightarrow> isize \<Rightarrow> usize option" where
  "addr_offset a off =
     (let r = uint a + sint off in
      if r < 0 \<or> 2 ^ 64 \<le> r then None else Some (word_of_int r))"

definition addr_wrapping_add :: "usize \<Rightarrow> usize \<Rightarrow> usize" where
  "addr_wrapping_add a n = a + n"

definition addr_wrapping_sub :: "usize \<Rightarrow> usize \<Rightarrow> usize" where
  "addr_wrapping_sub a n = a - n"

definition addr_wrapping_offset :: "usize \<Rightarrow> isize \<Rightarrow> usize" where
  "addr_wrapping_offset a off = word_of_int (uint a + sint off)"

definition addr_saturating_add :: "usize \<Rightarrow> usize \<Rightarrow> usize" where
  "addr_saturating_add a n = usize_saturating_add a n"

text \<open>\<open>checked_add\<close> returns a Rust \<open>Option\<close>: here \<^term>\<open>None\<close> is a value, not a panic.\<close>

definition addr_checked_add :: "usize \<Rightarrow> usize \<Rightarrow> usize option" where
  "addr_checked_add a n = (if unat a + unat n < 2 ^ 64 then Some (a + n) else None)"

definition addr_offset_from :: "usize \<Rightarrow> usize \<Rightarrow> isize" where
  "addr_offset_from a origin = a - origin"

definition addr_offset_from_unsigned :: "usize \<Rightarrow> usize \<Rightarrow> usize option" where
  "addr_offset_from_unsigned a origin = (if a < origin then None else Some (a - origin))"

section \<open>Alignment\<close>

definition addr_is_aligned_to :: "usize \<Rightarrow> usize \<Rightarrow> bool option" where
  "addr_is_aligned_to a align =
     do {
       debug_assert (is_power_of_two align);
       Some (a AND (align - 1) = 0)
     }"

definition addr_align_up :: "usize \<Rightarrow> usize \<Rightarrow> usize option" where
  "addr_align_up a align =
     (if \<not> is_power_of_two align then None
      else do {
        let aligned = addr_wrapping_add a (align - 1) AND (0 - align);
        ok \<leftarrow> addr_is_aligned_to aligned align;
        debug_assert ok;
        debug_assert (a \<le> aligned);
        Some aligned
      })"

definition addr_align_down :: "usize \<Rightarrow> usize \<Rightarrow> usize option" where
  "addr_align_down a align =
     (if \<not> is_power_of_two align then None
      else do {
        let aligned = a AND (0 - align);
        ok \<leftarrow> addr_is_aligned_to aligned align;
        debug_assert ok;
        debug_assert (aligned \<le> a);
        Some aligned
      })"

section \<open>Canonical virtual addresses\<close>

text \<open>
  \<open>canonicalize\<close> shifts left and then arithmetically right by \<open>usize::BITS -
  A::VIRTUAL_ADDRESS_BITS\<close>; \<open>va_bits\<close> stands for the architecture's constant, which is
  between 1 and 63.
\<close>

definition addr_canonicalize :: "nat \<Rightarrow> vaddr \<Rightarrow> vaddr" where
  "addr_canonicalize va_bits a =
     (let shift = 64 - va_bits in signed_drop_bit shift (push_bit shift a))"

definition addr_is_canonical :: "nat \<Rightarrow> vaddr \<Rightarrow> bool" where
  "addr_is_canonical va_bits a \<longleftrightarrow>
     (let msk = NOT (push_bit va_bits 1 - 1); upper = a AND msk
      in upper = 0 \<or> upper = msk)"

section \<open>Conversions and \<open>Step\<close>\<close>

text \<open>\<open>TryFrom\<close> an integer of any width: the value when it fits \<open>usize\<close>.\<close>

definition addr_try_from :: "int \<Rightarrow> usize option" where
  "addr_try_from n = (if 0 \<le> n \<and> n < 2 ^ 64 then Some (word_of_int n) else None)"

definition addr_steps_between :: "usize \<Rightarrow> usize \<Rightarrow> nat \<times> nat option" where
  "addr_steps_between s e =
     (if s \<le> e then (unat (e - s), Some (unat (e - s))) else (0, None))"

definition addr_forward_checked :: "usize \<Rightarrow> usize \<Rightarrow> usize option" where
  "addr_forward_checked s n = addr_checked_add s n"

definition addr_backward_checked :: "usize \<Rightarrow> usize \<Rightarrow> usize option" where
  "addr_backward_checked s n = (if n \<le> s then Some (s - n) else None)"

section \<open>The methods as arithmetic on natural numbers\<close>

lemma addr_add_eq_Some [addr_nat]:
  "addr_add a n = Some b \<longleftrightarrow> unat a + unat n < 2 ^ 64 \<and> unat b = unat a + unat n"
  by (simp add: addr_add_def usize_add_eq_Some)

lemma addr_sub_eq_Some [addr_nat]:
  "addr_sub a n = Some b \<longleftrightarrow> unat n \<le> unat a \<and> unat b = unat a - unat n"
  by (simp add: addr_sub_def usize_sub_eq_Some)

lemma addr_saturating_add_nat [addr_nat]:
  "unat (addr_saturating_add a n) = min (unat a + unat n) (2 ^ 64 - 1)"
  by (simp add: addr_saturating_add_def usize_saturating_add_nat)

lemma addr_offset_from_unsigned_eq_Some [addr_nat]:
  "addr_offset_from_unsigned a b = Some n \<longleftrightarrow> unat b \<le> unat a \<and> unat n = unat a - unat b"
  by (auto simp: addr_offset_from_unsigned_def word_less_nat_alt unat_sub word_le_nat_alt
      intro!: usize_eqI)

lemma addr_offset_from_unsigned_eq_None:
  "addr_offset_from_unsigned a b = None \<longleftrightarrow> unat a < unat b"
  by (auto simp: addr_offset_from_unsigned_def word_less_nat_alt)

lemma addr_wrapping_offset_eq: "addr_wrapping_offset a off = a + off"
  by (simp add: addr_wrapping_offset_def)

lemma addr_is_aligned_to_pow2:
  "k < 64 \<Longrightarrow> addr_is_aligned_to a (2 ^ k) = Some (2 ^ k dvd unat a)"
  by (simp add: addr_is_aligned_to_def is_power_of_two_pow2 dvd_eq_mod_eq_0
      flip: and_pow2_minus_1 unat_eq_zero)

lemma addr_is_aligned_to_eq_Some:
  "addr_is_aligned_to a d = Some ok \<longleftrightarrow> is_power_of_two d \<and> ok = (unat d dvd unat a)"
proof (cases "is_power_of_two d")
  case True
  then obtain k where "k < 64" "d = 2 ^ k" by (rule is_power_of_two_cases)
  then show ?thesis
    using True by (auto simp: addr_is_aligned_to_pow2)
qed (simp add: addr_is_aligned_to_def)

lemma addr_align_down_pow2:
  assumes "k < 64"
  shows "\<exists>b. addr_align_down a (2 ^ k) = Some b \<and> unat b = round_down (unat a) (2 ^ k)"
proof -
  let ?b = "a AND (0 - 2 ^ k)"
  have b: "unat ?b = round_down (unat a) (2 ^ k)"
    by (simp only: and_minus_pow2_nat round_down_def)
  then have "addr_is_aligned_to ?b (2 ^ k) = Some True"
    using assms by (simp only: addr_is_aligned_to_pow2 dvd_round)
  moreover have "?b \<le> a"
    by (simp only: word_le_nat_alt b round_down_le)
  ultimately show ?thesis
    using assms b by (simp add: addr_align_down_def is_power_of_two_pow2)
qed

lemma addr_align_down_eq_Some [addr_nat]:
  "addr_align_down a d = Some b \<longleftrightarrow> is_power_of_two d \<and> unat b = round_down (unat a) (unat d)"
proof (cases "is_power_of_two d")
  case True
  then obtain k where "k < 64" "d = 2 ^ k" by (rule is_power_of_two_cases)
  then show ?thesis
    using True addr_align_down_pow2 [of k a] by (auto intro!: usize_eqI)
qed (simp add: addr_align_down_def)

lemma round_up_overflow:
  assumes "k < 64"
  shows "round_up n (2 ^ k) < 2 ^ 64 \<longleftrightarrow> n + (2 ^ k - 1) < 2 ^ 64"
proof
  assume *: "round_up n (2 ^ k) < 2 ^ 64"
  show "n + (2 ^ k - 1) < 2 ^ 64"
  proof (rule ccontr)
    assume "\<not> ?thesis"
    moreover have "(2::nat) ^ k dvd 2 ^ 64"
      using assms by (simp only: le_imp_power_dvd less_imp_le)
    ultimately have "2 ^ 64 \<le> round_down (n + (2 ^ k - 1)) (2 ^ k)"
      by (intro round_down_greatest) (simp_all only: not_less)
    with * show False by (simp only: round_up_def round_down_def)
  qed
next
  assume "n + (2 ^ k - 1) < 2 ^ 64"
  moreover have "round_up n (2 ^ k) \<le> n + (2 ^ k - 1)"
    unfolding round_up_def by (rule div_times_less_eq_dividend)
  ultimately show "round_up n (2 ^ k) < 2 ^ 64" by (rule le_less_trans [rotated])
qed

lemma unat_pow2_minus_1: "k < 64 \<Longrightarrow> unat (2 ^ k - 1 :: usize) = 2 ^ k - 1"
proof -
  assume k: "k < 64"
  have "(2 ^ k :: usize) \<noteq> 0"
    using is_power_of_two_pow2 [OF k] by (simp add: is_power_of_two_def)
  then show ?thesis
    using k by (simp add: unat_minus_one)
qed

lemma align_up_word:
  assumes k: "k < 64"
  shows "unat (a + (2 ^ k - 1) AND (0 - 2 ^ k) :: usize) =
     (if round_up (unat a) (2 ^ k) < 2 ^ 64 then round_up (unat a) (2 ^ k) else 0)"
proof (cases "unat a + (2 ^ k - 1) < 2 ^ 64")
  case True
  then have "unat (a + (2 ^ k - 1)) = unat a + (2 ^ k - 1)"
    using k by (simp add: unat_add_usize unat_pow2_minus_1)
  then show ?thesis
    using True round_up_overflow [OF k] by (simp only: and_minus_pow2_nat round_up_def if_True)
next
  case False
  let ?s = "unat a + (2 ^ k - 1)"
  have "?s < 2 ^ 64 + 2 ^ k"
    using usize_lt [of a] by linarith
  moreover have pk: "(2::nat) ^ k \<le> 2 ^ 64"
    using k by (intro power_increasing) simp_all
  ultimately have m: "?s mod 2 ^ 64 = ?s - 2 ^ 64" and lt: "?s - 2 ^ 64 < 2 ^ k"
    using False by (auto simp only: le_mod_geq mod_less not_less)
  have "unat (a + (2 ^ k - 1)) = ?s mod 2 ^ 64"
    using k by (simp add: unat_word_ariths unat_pow2_minus_1)
  then have "unat (a + (2 ^ k - 1)) div 2 ^ k = 0"
    using m lt by (simp only: div_less)
  then show ?thesis
    using False round_up_overflow [OF k, of "unat a"]
    by (simp only: and_minus_pow2_nat mult_0 if_False simp_thms)
qed

lemma addr_align_up_eq_Some [addr_nat]:
  "addr_align_up a d = Some b \<longleftrightarrow>
     is_power_of_two d \<and> round_up (unat a) (unat d) < 2 ^ 64 \<and>
     unat b = round_up (unat a) (unat d)"
proof (cases "is_power_of_two d")
  case True
  then obtain k where k: "k < 64" and d: "d = 2 ^ k" by (rule is_power_of_two_cases)
  let ?b = "a + (2 ^ k - 1) AND (0 - 2 ^ k)" and ?r = "round_up (unat a) (2 ^ k)"
  have al: "addr_is_aligned_to ?b (2 ^ k) = Some True"
    using k by (simp only: addr_is_aligned_to_pow2 align_up_word) simp
  have ge: "a \<le> ?b \<longleftrightarrow> ?r < 2 ^ 64"
  proof (cases "?r < 2 ^ 64")
    case True
    then show ?thesis
      using round_up_ge [of "2 ^ k" "unat a"]
      by (simp only: word_le_nat_alt align_up_word [OF k] if_True) simp
  next
    case False
    then have "unat a \<noteq> 0" by (intro notI) simp
    with False show ?thesis
      by (simp only: word_le_nat_alt align_up_word [OF k] if_False le_zero_eq)
  qed
  have "addr_align_up a d = (if ?r < 2 ^ 64 then Some ?b else None)"
    unfolding addr_align_up_def Let_def addr_wrapping_add_def d
    by (simp only: is_power_of_two_pow2 [OF k] al ge) simp
  then show ?thesis
    using k d True align_up_word [OF k, of a] by (auto intro!: usize_eqI split: if_splits)
qed (simp add: addr_align_up_def)

section \<open>Sign extension and the canonical halves\<close>

lemma canonicalize_bit:
  assumes "0 < v" "v < 64" "n < 64"
  shows "bit (addr_canonicalize v a) n \<longleftrightarrow> bit a (min n (v - 1))"
  using assms
  by (auto simp: addr_canonicalize_def Let_def bit_simps min_def)

lemma canonicalize_idem:
  assumes "0 < v" "v < 64"
  shows "addr_canonicalize v (addr_canonicalize v a) = addr_canonicalize v a"
  by (rule bit_word_eqI) (use assms in \<open>simp add: canonicalize_bit\<close>)

lemma unat_less_pow2_iff: "unat (a :: usize) < 2 ^ m \<longleftrightarrow> (\<forall>n. m \<le> n \<and> n < 64 \<longrightarrow> \<not> bit a n)"
proof -
  have "unat a < 2 ^ m \<longleftrightarrow> take_bit m (unat a) = unat a"
    by (simp only: take_bit_nat_eq_self_iff)
  also have "\<dots> \<longleftrightarrow> take_bit m a = a"
    by (simp only: word_unat_eq_iff unsigned_take_bit_eq)
  also have "\<dots> \<longleftrightarrow> (\<forall>n. m \<le> n \<and> n < 64 \<longrightarrow> \<not> bit a n)"
    by (simp add: bit_eq_iff bit_take_bit_iff) (meson not_less)
  finally show ?thesis .
qed

lemma unat_ge_minus_pow2_iff:
  assumes "m \<le> 64"
  shows "2 ^ 64 - 2 ^ m \<le> unat (a :: usize) \<longleftrightarrow> (\<forall>n. m \<le> n \<and> n < 64 \<longrightarrow> bit a n)"
proof -
  have "NOT a = - 1 - a" by (simp add: not_eq_complement)
  then have "unat (NOT a) = 2 ^ 64 - 1 - unat a"
    by (simp add: unat_sub unat_usize_MAX)
  moreover have "(2::nat) ^ m \<le> 2 ^ 64"
    using assms by (intro power_increasing) simp_all
  ultimately have "2 ^ 64 - 2 ^ m \<le> unat a \<longleftrightarrow> unat (NOT a) < 2 ^ m"
    using usize_lt [of a] by auto
  also have "\<dots> \<longleftrightarrow> (\<forall>n. m \<le> n \<and> n < 64 \<longrightarrow> bit a n)"
    by (auto simp: unat_less_pow2_iff bit_not_iff)
  finally show ?thesis .
qed

lemma canonicalize_fixed_iff:
  assumes "0 < v" "v < 64"
  shows "addr_canonicalize v a = a \<longleftrightarrow> unat a < 2 ^ (v - 1) \<or> 2 ^ 64 - 2 ^ (v - 1) \<le> unat a"
proof -
  have "addr_canonicalize v a = a \<longleftrightarrow> (\<forall>n<64. bit (addr_canonicalize v a) n = bit a n)"
    by (auto intro: bit_word_eqI)
  also have "\<dots> \<longleftrightarrow> (\<forall>n. v - 1 \<le> n \<and> n < 64 \<longrightarrow> bit a n = bit a (v - 1))"
    using assms by (simp add: canonicalize_bit min_def) (metis le_antisym linear)
  also have "\<dots> \<longleftrightarrow> (\<forall>n. v - 1 \<le> n \<and> n < 64 \<longrightarrow> \<not> bit a n) \<or> (\<forall>n. v - 1 \<le> n \<and> n < 64 \<longrightarrow> bit a n)"
    using assms by (cases "bit a (v - 1)") (auto dest: spec [of _ "v - 1"])
  finally show ?thesis
    using assms by (simp only: unat_less_pow2_iff unat_ge_minus_pow2_iff less_imp_le diff_le_self order.trans)
qed

lemma is_canonical_iff:
  assumes "v < 64"
  shows "addr_is_canonical v a \<longleftrightarrow> unat a < 2 ^ v \<or> 2 ^ 64 - 2 ^ v \<le> unat a"
proof -
  have "addr_is_canonical v a \<longleftrightarrow> a AND NOT (mask v) = 0 \<or> a AND NOT (mask v) = NOT (mask v)"
    by (simp add: addr_is_canonical_def Let_def mask_eq_exp_minus_1 push_bit_of_1)
  moreover have "a AND NOT (mask v) = 0 \<longleftrightarrow> (\<forall>n. v \<le> n \<and> n < 64 \<longrightarrow> \<not> bit a n)"
    by (simp add: bit_eq_iff bit_simps) (meson not_less)
  moreover have "a AND NOT (mask v) = NOT (mask v) \<longleftrightarrow> (\<forall>n. v \<le> n \<and> n < 64 \<longrightarrow> bit a n)"
    by (simp add: bit_eq_iff bit_simps) (meson not_less)
  ultimately show ?thesis
    using assms by (simp only: unat_less_pow2_iff unat_ge_minus_pow2_iff less_imp_le)
qed

section \<open>Properties\<close>

text \<open>
  C39. For a power-of-two alignment \<open>d\<close>, \<open>align_down\<close> always returns, and returns the greatest
  multiple of \<open>d\<close> that is at most \<open>a\<close>; \<open>align_up\<close> returns the least multiple of \<open>d\<close> that is
  at least \<open>a\<close>, and panics exactly when no multiple of \<open>d\<close> at or above \<open>a\<close> fits a \<open>usize\<close>.
\<close>

theorem addr_align_correct:
  assumes "is_power_of_two d"
  shows "(\<exists>b. addr_align_down a d = Some b \<and> unat d dvd unat b \<and> unat b \<le> unat a \<and>
            (\<forall>m \<le> unat a. unat d dvd m \<longrightarrow> m \<le> unat b)) \<and>
         (case addr_align_up a d of
            Some b \<Rightarrow> unat d dvd unat b \<and> unat a \<le> unat b \<and>
              (\<forall>m \<ge> unat a. unat d dvd m \<longrightarrow> unat b \<le> m)
          | None \<Rightarrow> (\<forall>m \<ge> unat a. unat d dvd m \<longrightarrow> 2 ^ 64 \<le> m))"
proof
  obtain k where k: "k < 64" "d = 2 ^ k" using assms by (rule is_power_of_two_cases)
  have d0: "0 < unat d" using k by simp
  show "\<exists>b. addr_align_down a d = Some b \<and> unat d dvd unat b \<and> unat b \<le> unat a \<and>
            (\<forall>m \<le> unat a. unat d dvd m \<longrightarrow> m \<le> unat b)"
    using addr_align_down_pow2 [OF k(1), of a] k
    by (metis dvd_round(1) round_down_greatest round_down_le unat_exp_usize)
  show "case addr_align_up a d of
      Some b \<Rightarrow> unat d dvd unat b \<and> unat a \<le> unat b \<and>
        (\<forall>m \<ge> unat a. unat d dvd m \<longrightarrow> unat b \<le> m)
    | None \<Rightarrow> (\<forall>m \<ge> unat a. unat d dvd m \<longrightarrow> 2 ^ 64 \<le> m)"
  proof (cases "addr_align_up a d")
    case None
    have "\<not> round_up (unat a) (unat d) < 2 ^ 64"
    proof
      assume lt: "round_up (unat a) (unat d) < 2 ^ 64"
      then have "unat (of_nat (round_up (unat a) (unat d)) :: usize) = round_up (unat a) (unat d)"
        by (simp add: unat_of_nat)
      then show False
        using None addr_align_up_eq_Some [of a d] assms lt by simp
    qed
    then show ?thesis
      using None d0 by (auto intro: order.trans [OF _ round_up_least] simp only: not_less option.case)
  next
    case (Some b)
    then show ?thesis
      using addr_align_up_eq_Some [of a d b] d0 by (simp add: round_up_ge round_up_least)
  qed
qed

theorem addr_align_correct_witness:
  "is_power_of_two 4096 \<and> addr_align_down 8200 4096 = Some 8192 \<and>
   addr_align_up 8200 4096 = Some 12288 \<and> addr_align_up (- 1) 4096 = None \<and>
   unat (4096 :: usize) dvd unat (8192 :: usize)"
proof -
  have p: "is_power_of_two 4096" by (simp add: is_power_of_two_def)
  have "addr_align_down 8200 4096 = Some 8192" "addr_align_up 8200 4096 = Some 12288"
    "addr_align_up (- 1) 4096 = None"
    by (simp_all add: addr_align_down_def addr_align_up_def addr_is_aligned_to_def p
        addr_wrapping_add_def)
  then show ?thesis
    using p addr_align_correct [OF p, of 8200] by simp
qed

text \<open>
  C40. Sign extension from bit \<open>v - 1\<close> is idempotent, and its fixed points are exactly the lower
  half (below \<open>2 ^ (v - 1)\<close>) and the upper half (from \<open>2 ^ 64 - 2 ^ (v - 1)\<close>). The check
  \<open>is_canonical\<close> is weaker: it also accepts exactly the addresses of the hole between
  \<open>2 ^ (v - 1)\<close> and \<open>2 ^ v\<close>, and of its mirror image below the upper half, which
  \<open>canonicalize\<close> moves elsewhere.
\<close>

theorem addr_canonical_halves:
  assumes "0 < v" "v < 64"
  shows "addr_canonicalize v (addr_canonicalize v a) = addr_canonicalize v a \<and>
         (addr_canonicalize v a = a \<longleftrightarrow> unat a < 2 ^ (v - 1) \<or> 2 ^ 64 - 2 ^ (v - 1) \<le> unat a) \<and>
         (addr_canonicalize v a = a \<longrightarrow> addr_is_canonical v a) \<and>
         (addr_is_canonical v a \<and> addr_canonicalize v a \<noteq> a \<longleftrightarrow>
            2 ^ (v - 1) \<le> unat a \<and> unat a < 2 ^ v \<or>
            2 ^ 64 - 2 ^ v \<le> unat a \<and> unat a < 2 ^ 64 - 2 ^ (v - 1))"
proof -
  have v: "(2::nat) ^ v = 2 * 2 ^ (v - 1)"
    using assms(1) by (cases v) simp_all
  have v64: "(2::nat) ^ v \<le> 2 ^ 63"
    using assms(2) by (intro power_increasing) simp_all
  show ?thesis
    using canonicalize_idem [OF assms] v v64 usize_lt [of a]
    unfolding canonicalize_fixed_iff [OF assms] is_canonical_iff [OF assms(2)] by auto
qed

theorem addr_canonical_halves_witness:
  "(0::nat) < 39 \<and> (39::nat) < 64 \<and> addr_is_canonical 39 0x4000000000 \<and>
   addr_canonicalize 39 0x4000000000 = 0xffffffc000000000 \<and>
   addr_canonicalize 39 0xffffffc000000000 = 0xffffffc000000000"
  using addr_canonical_halves [of 39 "0x4000000000"]
  by (simp add: addr_is_canonical_def addr_canonicalize_def Let_def)

end
