(* ===== verification/Address_Range.thy ===== *)
theory Address_Range
  imports Address
begin

text \<open>
  \<^verbatim>\<open>lib/mem-core/src/address_range.rs\<close>: the trait \<open>AddressRangeExt\<close> on \<open>Range<VirtualAddress>\<close>
  and \<open>Range<PhysicalAddress>\<close>, again one macro for both. A range is half open; \<open>start\<close> may
  lie above \<open>end\<close>. The lemmas relate every method to the set of addresses the range holds.
\<close>

record addr_range =
  range_start :: usize
  range_end :: usize

definition range_of :: "usize \<Rightarrow> usize \<Rightarrow> addr_range" where
  "range_of s e = \<lparr>range_start = s, range_end = e\<rparr>"

definition range_from_start_len :: "usize \<Rightarrow> usize \<Rightarrow> addr_range option" where
  "range_from_start_len s n =
     do {
       e \<leftarrow> addr_add s n;
       Some \<lparr>range_start = s, range_end = e\<rparr>
     }"

definition range_is_empty :: "addr_range \<Rightarrow> bool" where
  "range_is_empty r \<longleftrightarrow> range_start r \<ge> range_end r"

definition range_len :: "addr_range \<Rightarrow> usize option" where
  "range_len r =
     (if range_start r \<ge> range_end r then Some 0
      else addr_offset_from_unsigned (range_end r) (range_start r))"

definition range_contains :: "addr_range \<Rightarrow> usize \<Rightarrow> bool" where
  "range_contains r a \<longleftrightarrow> range_start r \<le> a \<and> a < range_end r"

definition range_overlaps :: "addr_range \<Rightarrow> addr_range \<Rightarrow> bool" where
  "range_overlaps r s \<longleftrightarrow> range_start r < range_end s \<and> range_start s < range_end r"

definition range_intersect :: "addr_range \<Rightarrow> addr_range \<Rightarrow> addr_range" where
  "range_intersect r s =
     \<lparr>range_start = max (range_start r) (range_start s),
      range_end = min (range_end r) (range_end s)\<rparr>"

definition range_align_in :: "addr_range \<Rightarrow> usize \<Rightarrow> addr_range option" where
  "range_align_in r align =
     do {
       s \<leftarrow> addr_align_up (range_start r) align;
       e \<leftarrow> addr_align_down (range_end r) align;
       Some \<lparr>range_start = s, range_end = e\<rparr>
     }"

definition range_align_out :: "addr_range \<Rightarrow> usize \<Rightarrow> addr_range option" where
  "range_align_out r align =
     do {
       s \<leftarrow> addr_align_down (range_start r) align;
       e \<leftarrow> addr_align_up (range_end r) align;
       Some \<lparr>range_start = s, range_end = e\<rparr>
     }"

section \<open>Ranges as sets of addresses\<close>

text \<open>The addresses of a range, as natural numbers.\<close>

definition range_nat :: "addr_range \<Rightarrow> nat set" where
  "range_nat r = {unat (range_start r) ..< unat (range_end r)}"

lemma range_contains_nat: "range_contains r a \<longleftrightarrow> unat a \<in> range_nat r"
  by (simp add: range_contains_def range_nat_def word_le_nat_alt word_less_nat_alt)

lemma range_is_empty_nat: "range_is_empty r \<longleftrightarrow> range_nat r = {}"
  by (auto simp: range_is_empty_def range_nat_def word_le_nat_alt)

lemma range_nat_less: "n \<in> range_nat r \<Longrightarrow> n < 2 ^ 64"
  using usize_lt [of "range_end r"] by (simp add: range_nat_def)

lemma range_len_nat [addr_nat]:
  "range_len r = Some n \<longleftrightarrow> unat n = unat (range_end r) - unat (range_start r)"
proof (cases "range_start r \<ge> range_end r")
  case True
  then show ?thesis
    by (auto simp: range_len_def word_le_nat_alt unat_eq_zero)
next
  case False
  then show ?thesis
    by (simp add: range_len_def addr_offset_from_unsigned_eq_Some word_le_nat_alt)
qed

lemma range_len_Some: "\<exists>n. range_len r = Some n"
  by (auto simp: range_len_def addr_offset_from_unsigned_def not_le)

lemma range_len_card: "range_len r = Some n \<Longrightarrow> card (range_nat r) = unat n"
  by (simp add: range_len_nat range_nat_def)

lemma range_from_start_len_eq_Some:
  "range_from_start_len s n = Some r \<longleftrightarrow>
     range_start r = s \<and> unat s + unat n < 2 ^ 64 \<and> unat (range_end r) = unat s + unat n"
  by (cases r) (auto simp: range_from_start_len_def bind_eq_Some_conv addr_add_eq_Some
      intro!: exI usize_eqI)

lemma range_nat_intersect: "range_nat (range_intersect r s) = range_nat r \<inter> range_nat s"
  by (auto simp: range_nat_def range_intersect_def max_def min_def word_le_nat_alt)

lemma range_overlaps_nonempty:
  assumes "\<not> range_is_empty r" "\<not> range_is_empty s"
  shows "range_overlaps r s \<longleftrightarrow> range_nat r \<inter> range_nat s \<noteq> {}"
proof -
  have "range_nat r \<inter> range_nat s \<noteq> {} \<longleftrightarrow>
      max (unat (range_start r)) (unat (range_start s)) < min (unat (range_end r)) (unat (range_end s))"
    by (auto simp: range_nat_def)
  then show ?thesis
    using assms
    by (auto simp: range_overlaps_def range_is_empty_def not_le word_less_nat_alt)
qed

lemma range_overlaps_common: "range_nat r \<inter> range_nat s \<noteq> {} \<Longrightarrow> range_overlaps r s"
  by (auto simp: range_nat_def range_overlaps_def word_less_nat_alt)

lemma range_align_in_eq_Some:
  "range_align_in r d = Some r' \<longleftrightarrow>
     is_power_of_two d \<and> round_up (unat (range_start r)) (unat d) < 2 ^ 64 \<and>
     unat (range_start r') = round_up (unat (range_start r)) (unat d) \<and>
     unat (range_end r') = round_down (unat (range_end r)) (unat d)"
  by (cases r') (auto simp: range_align_in_def bind_eq_Some_conv addr_align_up_eq_Some
      addr_align_down_eq_Some intro!: exI usize_eqI)

lemma range_align_out_eq_Some:
  "range_align_out r d = Some r' \<longleftrightarrow>
     is_power_of_two d \<and> round_up (unat (range_end r)) (unat d) < 2 ^ 64 \<and>
     unat (range_start r') = round_down (unat (range_start r)) (unat d) \<and>
     unat (range_end r') = round_up (unat (range_end r)) (unat d)"
  by (cases r') (auto simp: range_align_out_def bind_eq_Some_conv addr_align_up_eq_Some
      addr_align_down_eq_Some intro!: exI usize_eqI)

section \<open>Properties\<close>

text \<open>
  C37. The set semantics of ranges: \<open>len\<close> never panics and counts the addresses, \<open>intersect\<close>
  holds exactly the common addresses, and for non-empty ranges \<open>overlaps\<close> says whether there
  is a common address. (For an empty range strictly inside another one \<open>overlaps\<close> is true
  although no address is common. \<^verbatim>\<open>MODEL.md\<close>, A-2.2, says that \<open>len\<close> panics on an inverted
  range; the code returns zero, as \<^verbatim>\<open>TESTPLAN.md\<close>, R1, asks.)
\<close>

theorem range_set_semantics:
  "(\<exists>n. range_len r = Some n \<and> unat n = card {a. range_contains r a}) \<and>
   (\<forall>a. range_contains (range_intersect r s) a \<longleftrightarrow> range_contains r a \<and> range_contains s a) \<and>
   (\<not> range_is_empty r \<and> \<not> range_is_empty s \<longrightarrow>
      (range_overlaps r s \<longleftrightarrow> (\<exists>a. range_contains r a \<and> range_contains s a)))"
proof (intro conjI allI impI)
  obtain n where n: "range_len r = Some n" using range_len_Some by blast
  have "bij_betw unat {a. range_contains r a} (range_nat r)"
  proof (rule bij_betw_imageI)
    show "inj_on unat {a. range_contains r a}" by (rule inj_onI) (rule usize_eqI)
    show "unat ` {a. range_contains r a} = range_nat r"
    proof
      show "range_nat r \<subseteq> unat ` {a. range_contains r a}"
      proof
        fix m assume m: "m \<in> range_nat r"
        then have "unat (of_nat m :: usize) = m"
          using range_nat_less by (simp add: unat_of_nat)
        with m show "m \<in> unat ` {a. range_contains r a}"
          by (intro image_eqI [of _ _ "of_nat m"]) (simp_all add: range_contains_nat)
      qed
    qed (auto simp: range_contains_nat)
  qed
  with n show "\<exists>n. range_len r = Some n \<and> unat n = card {a. range_contains r a}"
    using range_len_card bij_betw_same_card by metis
next
  fix a show "range_contains (range_intersect r s) a \<longleftrightarrow> range_contains r a \<and> range_contains s a"
    by (simp add: range_contains_nat range_nat_intersect)
next
  assume ne: "\<not> range_is_empty r \<and> \<not> range_is_empty s"
  show "range_overlaps r s \<longleftrightarrow> (\<exists>a. range_contains r a \<and> range_contains s a)"
  proof
    assume "range_overlaps r s"
    then obtain m where m: "m \<in> range_nat r" "m \<in> range_nat s"
      using range_overlaps_nonempty ne by blast
    then have "unat (of_nat m :: usize) = m"
      using range_nat_less by (simp add: unat_of_nat)
    with m show "\<exists>a. range_contains r a \<and> range_contains s a"
      by (intro exI [of _ "of_nat m"]) (simp add: range_contains_nat)
  qed (use ne range_overlaps_nonempty [of r s] in \<open>auto simp: range_contains_nat\<close>)
qed

theorem range_set_semantics_witness:
  "range_overlaps (range_of 0 10) (range_of 5 20) \<and>
   (\<exists>a. range_contains (range_of 0 10) a \<and> range_contains (range_of 5 20) a) \<and>
   range_overlaps (range_of 5 5) (range_of 0 10) \<and>
   \<not> (\<exists>a. range_contains (range_of 5 5) a)"
proof -
  have "range_overlaps (range_of 0 10) (range_of 5 20)" "range_overlaps (range_of 5 5) (range_of 0 10)"
    "\<not> range_is_empty (range_of 0 10)" "\<not> range_is_empty (range_of 5 20)"
    by (simp_all add: range_of_def range_overlaps_def range_is_empty_def)
  moreover have "\<not> range_contains (range_of 5 5) a" for a
    by (auto simp: range_of_def range_contains_def not_less)
  ultimately show ?thesis
    using range_set_semantics [of "range_of 0 10" "range_of 5 20"] by blast
qed



end
