(* ===== verification/Memory_Attributes.thy ===== *)
theory Memory_Attributes
  imports Address_Range
begin

text \<open>
  \<^verbatim>\<open>lib/mem-core/src/memory_attributes.rs\<close> and \<^verbatim>\<open>lib/mem-core/src/page_size.rs\<close>. The fields of
  \<open>MemoryAttributes\<close> are those the source declares, with \<open>with\<close> as record update and \<open>get\<close> as
  the selector; write and execute share one three-valued field, so a region is never both.
\<close>

section \<open>Attributes\<close>

datatype WriteOrExecute = Neither | Write | Execute

datatype MemoryKind = Normal | Device

record MemoryAttributes =
  attr_READ :: bool
  attr_WRITE_OR_EXECUTE :: WriteOrExecute
  attr_KIND :: MemoryKind

definition attrs_new :: MemoryAttributes where
  "attrs_new = \<lparr>attr_READ = False, attr_WRITE_OR_EXECUTE = Neither, attr_KIND = Normal\<rparr>"

definition allows_read :: "MemoryAttributes \<Rightarrow> bool" where
  "allows_read at = attr_READ at"

definition allows_write :: "MemoryAttributes \<Rightarrow> bool" where
  "allows_write at = (case attr_WRITE_OR_EXECUTE at of Write \<Rightarrow> True | _ \<Rightarrow> False)"

definition allows_execution :: "MemoryAttributes \<Rightarrow> bool" where
  "allows_execution at = (case attr_WRITE_OR_EXECUTE at of Execute \<Rightarrow> True | _ \<Rightarrow> False)"

definition is_read_only :: "MemoryAttributes \<Rightarrow> bool" where
  "is_read_only at \<longleftrightarrow> allows_read at \<and> \<not> allows_write at \<and> \<not> allows_execution at"

definition attrs_kind :: "MemoryAttributes \<Rightarrow> MemoryKind" where
  "attrs_kind at = attr_KIND at"

definition is_device :: "MemoryAttributes \<Rightarrow> bool" where
  "is_device at = (case attrs_kind at of Device \<Rightarrow> True | _ \<Rightarrow> False)"

lemma write_xor_execute: "\<not> (allows_write at \<and> allows_execution at)"
  by (simp add: allows_write_def allows_execution_def split: WriteOrExecute.splits)

section \<open>Page sizes\<close>

datatype PageSize = Size4KiB | Size2MiB | Size1GiB | Size512GiB | Size256TiB

fun page_SHIFT :: "PageSize \<Rightarrow> nat" where
  "page_SHIFT Size4KiB = 12"
| "page_SHIFT Size2MiB = 21"
| "page_SHIFT Size1GiB = 30"
| "page_SHIFT Size512GiB = 39"
| "page_SHIFT Size256TiB = 48"

definition page_BYTES :: "PageSize \<Rightarrow> usize" where
  "page_BYTES S = push_bit (page_SHIFT S) 1"

lemma page_SHIFT_bounds: "12 \<le> page_SHIFT S" "page_SHIFT S \<le> 48"
  by (cases S; simp)+

lemma page_BYTES_pow2: "page_BYTES S = 2 ^ page_SHIFT S"
  by (simp add: page_BYTES_def push_bit_of_1)

lemma unat_page_BYTES [simp]: "unat (page_BYTES S) = 2 ^ page_SHIFT S"
  using page_SHIFT_bounds(2) [of S] by (simp add: page_BYTES_pow2)

lemma is_power_of_two_page_BYTES [simp]: "is_power_of_two (page_BYTES S)"
  using page_SHIFT_bounds(2) [of S] by (simp add: page_BYTES_pow2 is_power_of_two_pow2)

end
