(* ===== verification/Page_Table_Entry.thy ===== *)
theory Page_Table_Entry
  imports Memory_Attributes
begin

text \<open>
  \<^verbatim>\<open>lib/mem-core/src/arch/riscv64.rs\<close>: the RISC-V \<open>PageTableEntry\<close>, a 64-bit word whose layout
  the source declares with \<open>bitfield!\<close> and fixes with compile-time assertions: \<open>VALID\<close>,
  \<open>READ\<close>, \<open>WRITE\<close>, \<open>EXECUTE\<close> are bits 0 to 3 and \<open>ADDRESS\<close> is the 44 bits from bit 10. The
  accessors \<open>with\<close> and \<open>get\<close> read and write the bits the assertions name.
\<close>

type_synonym pte = usize

section \<open>The layout\<close>

abbreviation (input) pte_VALID :: nat where "pte_VALID \<equiv> 0"
abbreviation (input) pte_READ :: nat where "pte_READ \<equiv> Suc 0"
abbreviation (input) pte_WRITE :: nat where "pte_WRITE \<equiv> 2"
abbreviation (input) pte_EXECUTE :: nat where "pte_EXECUTE \<equiv> 3"

definition PAGE_OFFSET_BITS :: nat where
  "PAGE_OFFSET_BITS = 12"

definition pte_with :: "nat \<Rightarrow> bool \<Rightarrow> pte \<Rightarrow> pte" where
  "pte_with n b e = (if b then set_bit n e else unset_bit n e)"

definition pte_get :: "nat \<Rightarrow> pte \<Rightarrow> bool" where
  "pte_get n e = bit e n"

definition pte_ADDRESS_max_value :: usize where
  "pte_ADDRESS_max_value = mask 44"

definition pte_with_ADDRESS :: "usize \<Rightarrow> pte \<Rightarrow> pte" where
  "pte_with_ADDRESS v e = (e AND NOT (push_bit 10 (mask 44))) OR push_bit 10 (take_bit 44 v)"

definition pte_get_ADDRESS :: "pte \<Rightarrow> usize" where
  "pte_get_ADDRESS e = take_bit 44 (drop_bit 10 e)"

section \<open>Construction and inspection\<close>

definition pte_VACANT :: pte where
  "pte_VACANT = 0"

definition pte_new_leaf :: "paddr \<Rightarrow> MemoryAttributes \<Rightarrow> pte option" where
  "pte_new_leaf address attributes =
     do {
       let address_raw = drop_bit PAGE_OFFSET_BITS address;
       debug_assert (address_raw \<le> pte_ADDRESS_max_value);
       Some (pte_with pte_EXECUTE (allows_execution attributes)
              (pte_with pte_WRITE (allows_write attributes)
                (pte_with pte_READ (allows_read attributes)
                  (pte_with_ADDRESS address_raw
                    (pte_with pte_VALID True 0)))))
     }"

definition pte_new_table :: "paddr \<Rightarrow> pte option" where
  "pte_new_table address =
     do {
       let address_raw = drop_bit PAGE_OFFSET_BITS address;
       debug_assert (address_raw \<le> pte_ADDRESS_max_value);
       Some (pte_with_ADDRESS address_raw (pte_with pte_VALID True 0))
     }"

definition pte_is_vacant :: "pte \<Rightarrow> bool" where
  "pte_is_vacant e \<longleftrightarrow> \<not> pte_get pte_VALID e"

definition pte_is_leaf :: "pte \<Rightarrow> bool" where
  "pte_is_leaf e \<longleftrightarrow>
     pte_get pte_VALID e \<and> (pte_get pte_READ e \<or> (pte_get pte_WRITE e \<or> pte_get pte_EXECUTE e))"

definition pte_is_table :: "pte \<Rightarrow> bool" where
  "pte_is_table e \<longleftrightarrow>
     pte_get pte_VALID e \<and> \<not> pte_get pte_READ e \<and> \<not> pte_get pte_WRITE e \<and> \<not> pte_get pte_EXECUTE e"

definition pte_address :: "pte \<Rightarrow> paddr" where
  "pte_address e = push_bit PAGE_OFFSET_BITS (pte_get_ADDRESS e)"

definition pte_attributes :: "pte \<Rightarrow> MemoryAttributes option" where
  "pte_attributes e =
     do {
       write_or_execute \<leftarrow>
         (case (pte_get pte_WRITE e, pte_get pte_EXECUTE e) of
            (True, False) \<Rightarrow> Some Write
          | (False, True) \<Rightarrow> Some Execute
          | (False, False) \<Rightarrow> Some Neither
          | (True, True) \<Rightarrow> None);
       Some (attrs_new\<lparr>attr_READ := pte_get pte_READ e, attr_WRITE_OR_EXECUTE := write_or_execute\<rparr>)
     }"

section \<open>The bits of a constructed entry\<close>

lemma pte_with_bit [bit_simps]:
  "bit (pte_with n b e) m \<longleftrightarrow> m < 64 \<and> (if m = n then b else bit e m)"
  by (auto simp: pte_with_def bit_set_bit_iff bit_unset_bit_iff dest: bit_imp_le_length)

lemma pte_with_ADDRESS_bit [bit_simps]:
  "bit (pte_with_ADDRESS v e) m \<longleftrightarrow>
     (if 10 \<le> m \<and> m < 54 then bit v (m - 10) else bit e m)"
  by (auto simp: pte_with_ADDRESS_def bit_simps dest: bit_imp_le_length)

lemma address_raw_le_max: "drop_bit PAGE_OFFSET_BITS a \<le> pte_ADDRESS_max_value \<longleftrightarrow> unat a < 2 ^ 56"
proof -
  have "drop_bit PAGE_OFFSET_BITS a \<le> pte_ADDRESS_max_value \<longleftrightarrow> unat a div 2 ^ 12 \<le> 2 ^ 44 - 1"
    by (simp add: word_le_nat_alt PAGE_OFFSET_BITS_def pte_ADDRESS_max_value_def
        unat_drop_bit_eq mask_eq_exp_minus_1 drop_bit_eq_div unat_div_distrib)
  also have "\<dots> \<longleftrightarrow> unat a < 2 ^ 56"
    by (auto simp: less_eq_div_iff_mult_less_eq)
  finally show ?thesis .
qed

lemma pte_new_leaf_eq_None: "pte_new_leaf a at = None \<longleftrightarrow> 2 ^ 56 \<le> unat a"
  by (simp add: pte_new_leaf_def Let_def address_raw_le_max bind_eq_None_conv not_less)

lemma pte_new_leaf_bits:
  assumes "pte_new_leaf a at = Some e"
  shows "pte_get pte_VALID e" "pte_get pte_READ e = allows_read at"
    "pte_get pte_WRITE e = allows_write at" "pte_get pte_EXECUTE e = allows_execution at"
  using assms by (auto simp: pte_new_leaf_def Let_def bind_eq_Some_conv pte_get_def bit_simps)

lemma pte_new_table_bits:
  assumes "pte_new_table a = Some e"
  shows "pte_get pte_VALID e" "\<not> pte_get pte_READ e" "\<not> pte_get pte_WRITE e"
    "\<not> pte_get pte_EXECUTE e"
  using assms by (auto simp: pte_new_table_def Let_def bind_eq_Some_conv pte_get_def bit_simps)

text \<open>The address field of a constructed entry: the address with its page offset cleared.\<close>

lemma pte_address_bit:
  "bit (pte_address e) n \<longleftrightarrow> 12 \<le> n \<and> n < 56 \<and> bit e (n - 2)"
  by (auto simp: pte_address_def pte_get_ADDRESS_def PAGE_OFFSET_BITS_def bit_simps
      dest: bit_imp_le_length)

lemma page_offset_clear_bit:
  "bit (a - take_bit 12 a) n \<longleftrightarrow> 12 \<le> n \<and> bit (a :: usize) n"
proof -
  have "a - take_bit 12 a = a AND NOT (mask 12)"
    using and_minus_pow2 [of a 12] minus_exp_eq_not_mask [of 12, where 'a = "64 word"] by simp
  then show ?thesis
    by (auto simp: bit_simps dest: bit_imp_le_length)
qed

lemma pte_address_of_bits:
  assumes "unat (a :: usize) < 2 ^ 56" "\<And>m. 10 \<le> m \<Longrightarrow> m < 54 \<Longrightarrow> bit e m \<longleftrightarrow> bit a (m + 2)"
  shows "unat (pte_address e) = round_down (unat a) 4096"
proof -
  have "pte_address e = a - take_bit 12 a"
  proof (rule bit_word_eqI)
    fix n assume "n < LENGTH(64)"
    moreover have "\<not> bit a n" if "56 \<le> n" "n < 64"
      using assms(1) that unat_less_pow2_iff by blast
    moreover have "bit e (n - 2) \<longleftrightarrow> bit a n" if "12 \<le> n" "n < 56"
    proof -
      have "n - 2 + 2 = n" using that by linarith
      with assms(2) [of "n - 2"] that show ?thesis by simp
    qed
    ultimately show "bit (pte_address e) n \<longleftrightarrow> bit (a - take_bit 12 a) n"
      unfolding pte_address_bit page_offset_clear_bit by (cases "n < 56") auto
  qed
  then have "pte_address e = a AND (0 - 2 ^ 12)"
    by (simp only: and_minus_pow2)
  then have "unat (pte_address e) = unat a div 2 ^ 12 * 2 ^ 12"
    by (simp only: and_minus_pow2_nat)
  then show ?thesis
    by (simp add: round_down_def)
qed

lemma pte_new_leaf_address:
  assumes "pte_new_leaf a at = Some e"
  shows "unat (pte_address e) = round_down (unat a) 4096"
proof (rule pte_address_of_bits)
  show "unat a < 2 ^ 56"
    using assms pte_new_leaf_eq_None [of a at] by (simp only: not_le option.distinct) auto
  show "bit e m \<longleftrightarrow> bit a (m + 2)" if "10 \<le> m" "m < 54" for m
    using assms that
    by (auto simp: pte_new_leaf_def Let_def bind_eq_Some_conv bit_simps PAGE_OFFSET_BITS_def)
qed

lemma pte_new_table_eq_None: "pte_new_table a = None \<longleftrightarrow> 2 ^ 56 \<le> unat a"
  by (simp add: pte_new_table_def Let_def address_raw_le_max bind_eq_None_conv not_less)

lemma pte_new_table_address:
  assumes "pte_new_table a = Some e"
  shows "unat (pte_address e) = round_down (unat a) 4096"
proof (rule pte_address_of_bits)
  show "unat a < 2 ^ 56"
    using assms pte_new_table_eq_None [of a] by (simp only: not_le option.distinct) auto
  show "bit e m \<longleftrightarrow> bit a (m + 2)" if "10 \<le> m" "m < 54" for m
    using assms that
    by (auto simp: pte_new_table_def Let_def bind_eq_Some_conv bit_simps PAGE_OFFSET_BITS_def)
qed

text \<open>The attributes an entry can hold: at least one of read, write and execute.\<close>

definition allows_access :: "MemoryAttributes \<Rightarrow> bool" where
  "allows_access at \<longleftrightarrow> allows_read at \<or> allows_write at \<or> allows_execution at"

lemmas pte_state_defs = pte_is_vacant_def pte_is_leaf_def pte_is_table_def

lemma pte_new_leaf_is_leaf: "pte_new_leaf a at = Some e \<Longrightarrow> pte_is_leaf e \<longleftrightarrow> allows_access at"
  by (simp add: pte_is_leaf_def pte_new_leaf_bits allows_access_def)

lemma pte_new_table_is_table: "pte_new_table a = Some e \<Longrightarrow> pte_is_table e"
  by (simp add: pte_is_table_def pte_new_table_bits)

lemma pte_new_leaf_attributes:
  assumes "pte_new_leaf a at = Some e"
  shows "pte_attributes e = Some (at\<lparr>attr_KIND := Normal\<rparr>)"
proof -
  have "pte_attributes e =
      Some (attrs_new\<lparr>attr_READ := allows_read at, attr_WRITE_OR_EXECUTE := attr_WRITE_OR_EXECUTE at\<rparr>)"
    using pte_new_leaf_bits [OF assms]
    by (cases "attr_WRITE_OR_EXECUTE at")
      (simp_all add: pte_attributes_def allows_write_def allows_execution_def)
  then show ?thesis
    by (simp add: allows_read_def attrs_new_def)
qed

lemma pte_not_vacant_cases: "\<not> pte_is_vacant e \<longleftrightarrow> pte_is_leaf e \<or> pte_is_table e"
  by (auto simp: pte_state_defs)

lemma pte_leaf_not_table: "pte_is_leaf e \<Longrightarrow> \<not> pte_is_table e"
  by (auto simp: pte_state_defs)

lemma pte_VACANT_state [simp]: "pte_is_vacant 0" "\<not> pte_is_leaf 0" "\<not> pte_is_table 0"
  by (simp_all add: pte_state_defs pte_get_def)

section \<open>Properties\<close>

text \<open>
  C31. Every 64-bit word is exactly one of vacant, leaf and table. Building a leaf or a table
  entry panics exactly for an address beyond the 56 physical bits; otherwise the entry gives the
  page-aligned address back, a table entry is a table, and a leaf entry gives back the
  attributes with the memory kind reset to \<open>Normal\<close>. A leaf entry is a leaf exactly when the
  attributes allow some access: one with no permission reads back as a table.
\<close>

theorem pte_round_trip:
  "(pte_is_vacant e \<or> pte_is_leaf e \<or> pte_is_table e) \<and>
   \<not> (pte_is_vacant e \<and> pte_is_leaf e) \<and> \<not> (pte_is_vacant e \<and> pte_is_table e) \<and>
   \<not> (pte_is_leaf e \<and> pte_is_table e) \<and>
   (case pte_new_leaf a at of
      None \<Rightarrow> 2 ^ 56 \<le> unat a
    | Some l \<Rightarrow> unat a < 2 ^ 56 \<and> unat (pte_address l) = round_down (unat a) 4096 \<and>
        pte_attributes l = Some (at\<lparr>attr_KIND := Normal\<rparr>) \<and>
        (pte_is_leaf l \<longleftrightarrow> allows_access at) \<and> (pte_is_table l \<longleftrightarrow> \<not> allows_access at)) \<and>
   (case pte_new_table a of
      None \<Rightarrow> 2 ^ 56 \<le> unat a
    | Some t \<Rightarrow> unat a < 2 ^ 56 \<and> unat (pte_address t) = round_down (unat a) 4096 \<and>
        pte_is_table t)"
proof -
  have "case pte_new_leaf a at of
      None \<Rightarrow> 2 ^ 56 \<le> unat a
    | Some l \<Rightarrow> unat a < 2 ^ 56 \<and> unat (pte_address l) = round_down (unat a) 4096 \<and>
        pte_attributes l = Some (at\<lparr>attr_KIND := Normal\<rparr>) \<and>
        (pte_is_leaf l \<longleftrightarrow> allows_access at) \<and> (pte_is_table l \<longleftrightarrow> \<not> allows_access at)"
  proof (cases "pte_new_leaf a at")
    case (Some l)
    moreover have "unat a < 2 ^ 56"
      using Some pte_new_leaf_eq_None [of a at] by (simp only: not_le option.distinct) auto
    moreover have "pte_is_table l \<longleftrightarrow> \<not> allows_access at"
      using pte_new_leaf_bits [OF Some] by (simp add: pte_is_table_def allows_access_def)
    ultimately show ?thesis
      by (simp add: pte_new_leaf_address pte_new_leaf_attributes pte_new_leaf_is_leaf)
  qed (use pte_new_leaf_eq_None [of a at] in simp)
  moreover have "case pte_new_table a of
      None \<Rightarrow> 2 ^ 56 \<le> unat a
    | Some t \<Rightarrow> unat a < 2 ^ 56 \<and> unat (pte_address t) = round_down (unat a) 4096 \<and> pte_is_table t"
  proof (cases "pte_new_table a")
    case (Some t)
    moreover have "unat a < 2 ^ 56"
      using Some pte_new_table_eq_None [of a] by (simp only: not_le option.distinct) auto
    ultimately show ?thesis
      by (simp add: pte_new_table_address pte_new_table_is_table)
  qed (use pte_new_table_eq_None [of a] in simp)
  ultimately show ?thesis
    using pte_not_vacant_cases [of e] by (auto simp: pte_state_defs)
qed

end
