(* ===== verification/Arch_Levels.thy ===== *)
theory Arch_Levels
  imports Page_Table_Entry
begin

text \<open>
  \<^verbatim>\<open>lib/mem-core/src/arch/mod.rs\<close> and the level tables of \<^verbatim>\<open>lib/mem-core/src/arch/riscv64.rs\<close>:
  the geometry of the page table. An \<open>arch\<close> value holds the associated constants of the trait
  \<open>Arch\<close> from which the others are computed; \<open>Riscv64Sv39\<close>, \<open>Riscv64Sv48\<close> and
  \<open>Riscv64Sv57\<close> are its three instances. \<open>wf_arch\<close> states what the generic code relies on:
  every level has a power-of-two number of entries, a level's entry spans exactly one table of
  the next level, and a table fits a granule.
\<close>

section \<open>Levels\<close>

record PageTableLevel =
  lv_entries :: nat
  lv_supports_leaf :: bool
  lv_index_shift :: nat

record arch =
  LEVELS :: "PageTableLevel list"
  DEFAULT_PHYSMAP_BASE :: vaddr

definition MAX_PAGE_TABLE_LEVELS :: nat where
  "MAX_PAGE_TABLE_LEVELS = 5"

definition level_new :: "PageSize \<Rightarrow> nat \<Rightarrow> bool \<Rightarrow> PageTableLevel" where
  "level_new P entries supports_leaf =
     \<lparr>lv_entries = entries, lv_supports_leaf = supports_leaf, lv_index_shift = page_SHIFT P\<rparr>"

definition level_page_size :: "PageTableLevel \<Rightarrow> usize" where
  "level_page_size lv = push_bit (lv_index_shift lv) 1"

text \<open>Indexing \<open>A::LEVELS[depth]\<close>, which panics out of bounds.\<close>

definition level_at :: "arch \<Rightarrow> nat \<Rightarrow> PageTableLevel option" where
  "level_at A depth = (if depth < length (LEVELS A) then Some (LEVELS A ! depth) else None)"

definition pte_index_of :: "PageTableLevel \<Rightarrow> vaddr \<Rightarrow> nat option" where
  "pte_index_of lv address =
     do {
       m \<leftarrow> usize_sub (of_nat (lv_entries lv)) 1;
       let raw = drop_bit (lv_index_shift lv) address AND m;
       idx \<leftarrow> (if unat raw < 2 ^ 16 then Some (unat raw) else None);
       debug_assert (idx < lv_entries lv);
       Some idx
     }"

definition can_map :: "PageTableLevel \<Rightarrow> vaddr \<Rightarrow> paddr \<Rightarrow> usize \<Rightarrow> bool option" where
  "can_map lv virt phys len =
     do {
       let page_size = level_page_size lv;
       va \<leftarrow> addr_is_aligned_to virt page_size;
       if va then do {
         pa \<leftarrow> addr_is_aligned_to phys page_size;
         Some (pa \<and> len \<ge> page_size \<and> lv_supports_leaf lv)
       } else Some False
     }"

section \<open>Constants computed from the levels\<close>

definition GRANULE_SIZE :: "arch \<Rightarrow> usize" where
  "GRANULE_SIZE A = level_page_size (last (LEVELS A))"

fun ilog2 :: "nat \<Rightarrow> nat" where
  "ilog2 n = (if n < 2 then 0 else Suc (ilog2 (n div 2)))"

definition VIRTUAL_ADDRESS_BITS :: "arch \<Rightarrow> nat" where
  "VIRTUAL_ADDRESS_BITS A =
     (let lv = LEVELS A ! 0; max_bits = ilog2 (lv_entries lv) in max_bits + lv_index_shift lv)"

text \<open>The loop of \<open>leaf_depth_of\<close>; \<^term>\<open>None\<close> is its panic, which const evaluation reports.\<close>

fun leaf_depth_loop :: "PageTableLevel list \<Rightarrow> PageSize \<Rightarrow> nat \<Rightarrow> nat option" where
  "leaf_depth_loop [] S depth = None"
| "leaf_depth_loop (lv # lvs) S depth =
     (if level_page_size lv = page_BYTES S \<and> lv_supports_leaf lv then Some depth
      else leaf_depth_loop lvs S (depth + 1))"

definition leaf_depth_of :: "arch \<Rightarrow> PageSize \<Rightarrow> nat option" where
  "leaf_depth_of A S = leaf_depth_loop (LEVELS A) S 0"

section \<open>The three RISC-V paging modes\<close>

definition Riscv64Sv39 :: arch where
  "Riscv64Sv39 =
     \<lparr>LEVELS = [level_new Size1GiB 512 True, level_new Size2MiB 512 True, level_new Size4KiB 512 True],
      DEFAULT_PHYSMAP_BASE = 0xffffffc000000000\<rparr>"

definition Riscv64Sv48 :: arch where
  "Riscv64Sv48 =
     \<lparr>LEVELS = [level_new Size512GiB 512 True, level_new Size1GiB 512 True,
                level_new Size2MiB 512 True, level_new Size4KiB 512 True],
      DEFAULT_PHYSMAP_BASE = 0xffffffc000000000\<rparr>"

definition Riscv64Sv57 :: arch where
  "Riscv64Sv57 =
     \<lparr>LEVELS = [level_new Size256TiB 512 True, level_new Size512GiB 512 True,
                level_new Size1GiB 512 True, level_new Size2MiB 512 True, level_new Size4KiB 512 True],
      DEFAULT_PHYSMAP_BASE = 0xffffffc000000000\<rparr>"

section \<open>Well-formed geometry\<close>

text \<open>The bytes one entry of a level spans, and the bytes a whole table spans.\<close>

definition lv_span :: "PageTableLevel \<Rightarrow> nat" where
  "lv_span lv = 2 ^ lv_index_shift lv"

definition wf_level :: "PageTableLevel \<Rightarrow> bool" where
  "wf_level lv \<longleftrightarrow>
     lv_entries lv = 2 ^ ilog2 (lv_entries lv) \<and> 0 < ilog2 (lv_entries lv) \<and>
     ilog2 (lv_entries lv) < 16 \<and> ilog2 (lv_entries lv) + lv_index_shift lv < 64"

fun wf_levels :: "PageTableLevel list \<Rightarrow> bool" where
  "wf_levels [] = True"
| "wf_levels [lv] = wf_level lv"
| "wf_levels (lv # lv' # lvs) \<longleftrightarrow>
     wf_level lv \<and> lv_span lv = lv_entries lv' * lv_span lv' \<and> wf_levels (lv' # lvs)"

definition wf_arch :: "arch \<Rightarrow> bool" where
  "wf_arch A \<longleftrightarrow>
     LEVELS A \<noteq> [] \<and> wf_levels (LEVELS A) \<and> length (LEVELS A) \<le> MAX_PAGE_TABLE_LEVELS \<and>
     (\<forall>lv \<in> set (LEVELS A). 8 * lv_entries lv \<le> lv_span (last (LEVELS A))) \<and>
     12 \<le> lv_index_shift (last (LEVELS A)) \<and> lv_index_shift (last (LEVELS A)) < 56"

lemma ilog2_pow2 [simp]: "ilog2 (2 ^ k) = k"
  by (induction k) (simp_all add: ilog2.simps)

declare ilog2.simps [simp del]

lemma ilog2_512 [simp]: "ilog2 512 = 9"
  using ilog2_pow2 [of 9] by simp

lemma wf_level_level_new_512 [simp]: "wf_level (level_new P 512 b)"
  using page_SHIFT_bounds [of P] by (simp add: wf_level_def level_new_def)

lemma wf_levels_wf_level: "wf_levels lvs \<Longrightarrow> lv \<in> set lvs \<Longrightarrow> wf_level lv"
  by (induction lvs rule: wf_levels.induct) auto

lemma wf_levels_tl: "wf_levels (lv # lvs) \<Longrightarrow> wf_levels lvs"
  by (cases lvs) auto

lemma wf_arch_Riscv64:
  "wf_arch Riscv64Sv39" "wf_arch Riscv64Sv48" "wf_arch Riscv64Sv57"
  by (simp_all add: wf_arch_def Riscv64Sv39_def Riscv64Sv48_def Riscv64Sv57_def
      MAX_PAGE_TABLE_LEVELS_def, simp_all add: level_new_def lv_span_def)

lemma level_page_size_nat [simp]: "wf_level lv \<Longrightarrow> unat (level_page_size lv) = lv_span lv"
  by (simp add: level_page_size_def push_bit_of_1 lv_span_def wf_level_def)

lemma level_page_size_pow2:
  "wf_level lv \<Longrightarrow> is_power_of_two (level_page_size lv)"
  by (simp add: level_page_size_def push_bit_of_1 wf_level_def is_power_of_two_pow2)

lemma lv_span_pos [simp]: "0 < lv_span lv"
  by (simp add: lv_span_def)

lemma lv_entries_pos [simp]: "wf_level lv \<Longrightarrow> 0 < lv_entries lv"
  by (metis wf_level_def zero_less_numeral zero_less_power)

lemma lv_table_span:
  assumes "wf_level lv"
  shows "lv_entries lv * lv_span lv = 2 ^ (ilog2 (lv_entries lv) + lv_index_shift lv)"
  using assms by (metis lv_span_def power_add wf_level_def)

text \<open>The index of an address in a table of a level.\<close>

definition lv_index :: "PageTableLevel \<Rightarrow> nat \<Rightarrow> nat" where
  "lv_index lv v = v div lv_span lv mod lv_entries lv"

lemma lv_index_less [simp]: "wf_level lv \<Longrightarrow> lv_index lv v < lv_entries lv"
  by (simp add: lv_index_def)

lemma pte_index_of_Some:
  assumes "wf_level lv"
  shows "pte_index_of lv a = Some (lv_index lv (unat a))"
proof -
  define k where "k = ilog2 (lv_entries lv)"
  have k: "lv_entries lv = 2 ^ k" "k < 16" "lv_index_shift lv < 64"
    using assms by (simp_all add: wf_level_def k_def)
  have k16: "(2::nat) ^ k < 2 ^ 16"
    using k(2) by (intro power_strict_increasing) simp_all
  have m: "usize_sub (2 ^ k) 1 = Some (2 ^ k - 1)"
    using k by (simp add: usize_sub_eq_Some unat_pow2_minus_1)
  have "unat (drop_bit (lv_index_shift lv) a AND (2 ^ k - 1)) = lv_index lv (unat a)"
    by (simp add: and_pow2_minus_1 unat_drop_bit_eq drop_bit_eq_div lv_index_def lv_span_def k
        unat_div_distrib)
  moreover have "lv_index lv (unat a) < lv_entries lv"
    using assms by simp
  ultimately show ?thesis
    using k16 k(1) by (simp add: pte_index_of_def m)
qed

lemma wf_levels_span_last:
  assumes "wf_levels lvs"
  shows "\<forall>lv \<in> set lvs. lv_span (last lvs) dvd lv_span lv"
  using assms
proof (induction lvs rule: wf_levels.induct)
  case (3 l l' ls)
  then have IH: "\<forall>lv \<in> set (l' # ls). lv_span (last (l' # ls)) dvd lv_span lv"
    by simp
  then have "lv_span (last (l' # ls)) dvd lv_span l'"
    by simp
  then have "lv_span (last (l' # ls)) dvd lv_span l"
    using 3(2) by simp
  then show ?case
    using IH by simp
qed auto

lemma wf_arch_levels:
  assumes "wf_arch A"
  shows "wf_levels (LEVELS A)" "LEVELS A \<noteq> []" "lv \<in> set (LEVELS A) \<Longrightarrow> wf_level lv"
  using assms wf_levels_wf_level by (auto simp: wf_arch_def)

lemma GRANULE_SIZE_nat: "wf_arch A \<Longrightarrow> unat (GRANULE_SIZE A) = lv_span (last (LEVELS A))"
  by (simp add: GRANULE_SIZE_def wf_arch_levels)

lemma VIRTUAL_ADDRESS_BITS_span:
  assumes "wf_arch A"
  shows "2 ^ VIRTUAL_ADDRESS_BITS A = lv_entries (hd (LEVELS A)) * lv_span (hd (LEVELS A))"
proof -
  have "hd (LEVELS A) = LEVELS A ! 0" "wf_level (hd (LEVELS A))"
    using assms by (auto simp: wf_arch_levels hd_conv_nth [symmetric])
  then show ?thesis
    by (simp add: VIRTUAL_ADDRESS_BITS_def Let_def lv_table_span)
qed

lemma VIRTUAL_ADDRESS_BITS_bounds:
  assumes "wf_arch A"
  shows "0 < VIRTUAL_ADDRESS_BITS A" "VIRTUAL_ADDRESS_BITS A < 64"
proof -
  have "LEVELS A ! 0 \<in> set (LEVELS A)"
    using wf_arch_levels(2) [OF assms] by simp
  then have "wf_level (LEVELS A ! 0)"
    using wf_arch_levels(3) [OF assms] by blast
  then show "0 < VIRTUAL_ADDRESS_BITS A" "VIRTUAL_ADDRESS_BITS A < 64"
    by (simp_all add: VIRTUAL_ADDRESS_BITS_def Let_def wf_level_def)
qed

text \<open>The address that a list of indices and a page offset describe.\<close>

fun va_compose :: "PageTableLevel list \<Rightarrow> nat list \<Rightarrow> nat \<Rightarrow> nat" where
  "va_compose (lv # lvs) (i # is) off = i * lv_span lv + va_compose lvs is off"
| "va_compose _ _ off = off"

lemma lv_index_mod: "v mod (lv_entries lv * lv_span lv) = lv_index lv v * lv_span lv + v mod lv_span lv"
  using mod_mult2_eq [of v "lv_span lv" "lv_entries lv"] by (simp add: lv_index_def mult.commute)

lemma va_compose_index:
  assumes "wf_levels lvs" "lvs \<noteq> []"
  shows "va_compose lvs (map (\<lambda>lv. lv_index lv v) lvs) (v mod lv_span (last lvs)) =
         v mod (lv_entries (hd lvs) * lv_span (hd lvs))"
  using assms
proof (induction lvs rule: wf_levels.induct)
  case (2 lv)
  then show ?case
    by (simp add: lv_index_mod)
next
  case (3 lv lv' lvs)
  then have "va_compose (lv' # lvs) (map (\<lambda>lv. lv_index lv v) (lv' # lvs)) (v mod lv_span (last (lv' # lvs)))
      = v mod lv_span lv"
    by simp
  then show ?case
    by (simp add: lv_index_mod)
qed simp

text \<open>The levels at which pages of a size are mapped.\<close>

definition is_leaf_level :: "PageSize \<Rightarrow> PageTableLevel \<Rightarrow> bool" where
  "is_leaf_level S lv \<longleftrightarrow> level_page_size lv = page_BYTES S \<and> lv_supports_leaf lv"

lemma leaf_depth_loop_correct:
  "case leaf_depth_loop lvs S n of
     Some d \<Rightarrow> n \<le> d \<and> d - n < length lvs \<and> is_leaf_level S (lvs ! (d - n)) \<and>
       (\<forall>i < d - n. \<not> is_leaf_level S (lvs ! i))
   | None \<Rightarrow> (\<forall>lv \<in> set lvs. \<not> is_leaf_level S lv)"
proof (induction lvs arbitrary: n)
  case (Cons lv lvs)
  show ?case
  proof (cases "is_leaf_level S lv")
    case False
    then have *: "leaf_depth_loop (lv # lvs) S n = leaf_depth_loop lvs S (Suc n)"
      by (auto simp: is_leaf_level_def)
    show ?thesis
    proof (cases "leaf_depth_loop lvs S (Suc n)")
      case (Some d)
      with Cons [of "Suc n"] have d: "Suc n \<le> d" "d - Suc n < length lvs"
        "is_leaf_level S (lvs ! (d - Suc n))" "\<forall>i < d - Suc n. \<not> is_leaf_level S (lvs ! i)"
        by simp_all
      then have "d - n = Suc (d - Suc n)" by linarith
      with d False show ?thesis
        unfolding * Some by (auto simp: less_Suc_eq_0_disj)
    qed (use Cons [of "Suc n"] False in \<open>auto simp: is_leaf_level_def\<close>)
  qed (simp add: is_leaf_level_def)
qed simp

lemma leaf_depth_loop_level: "level_page_size (level_new P n b) = page_BYTES P"
  by (simp add: level_page_size_def level_new_def page_BYTES_def)

lemma page_BYTES_inject [simp]: "page_BYTES P = page_BYTES Q \<longleftrightarrow> P = Q"
proof
  assume "page_BYTES P = page_BYTES Q"
  then have "(2::nat) ^ page_SHIFT P = 2 ^ page_SHIFT Q"
    by (metis unat_page_BYTES)
  then show "P = Q"
    by (cases P; cases Q; simp)
qed simp

lemma level_new_supports_leaf [simp]: "lv_supports_leaf (level_new P n b) = b"
  by (simp add: level_new_def)

lemmas leaf_depth_simps = leaf_depth_of_def leaf_depth_loop_level

section \<open>Properties\<close>

text \<open>
  C32. On a well-formed architecture every level yields an in-bounds index for every address
  (\<open>pte_index_of\<close> never panics), and the indices of the levels together with the offset in the
  granule describe the address exactly, up to the bits above \<open>VIRTUAL_ADDRESS_BITS\<close>. Hence two
  addresses with the same indices and offset agree on all translated bits.
\<close>

theorem pte_index_decomposition:
  assumes "wf_arch A"
  shows "\<exists>is. map (\<lambda>lv. pte_index_of lv a) (LEVELS A) = map Some is \<and>
           list_all2 (\<lambda>i lv. i < lv_entries lv) is (LEVELS A) \<and>
           va_compose (LEVELS A) is (unat a mod unat (GRANULE_SIZE A)) =
             unat a mod 2 ^ VIRTUAL_ADDRESS_BITS A"
proof (intro exI conjI)
  let ?is = "map (\<lambda>lv. lv_index lv (unat a)) (LEVELS A)"
  show "map (\<lambda>lv. pte_index_of lv a) (LEVELS A) = map Some ?is"
    using wf_arch_levels(3) [OF assms] by (simp add: pte_index_of_Some)
  show "list_all2 (\<lambda>i lv. i < lv_entries lv) ?is (LEVELS A)"
    using wf_arch_levels(3) [OF assms]
    by (auto simp: list_all2_conv_all_nth)
  show "va_compose (LEVELS A) ?is (unat a mod unat (GRANULE_SIZE A)) =
      unat a mod 2 ^ VIRTUAL_ADDRESS_BITS A"
    using va_compose_index [OF wf_arch_levels(1,2) [OF assms]] assms
    by (simp only: GRANULE_SIZE_nat VIRTUAL_ADDRESS_BITS_span)
qed

theorem pte_index_decomposition_witness:
  "wf_arch Riscv64Sv39 \<and>
   map (\<lambda>lv. pte_index_of lv 0x40201000) (LEVELS Riscv64Sv39) = [Some 1, Some 1, Some 1] \<and>
   va_compose (LEVELS Riscv64Sv39) [1, 1, 1] 0 = 0x40201000"
proof -
  have "map (\<lambda>lv. pte_index_of lv 0x40201000) (LEVELS Riscv64Sv39) = map Some [1, 1, 1]"
    by (simp add: Riscv64Sv39_def pte_index_of_Some, simp add: lv_index_def level_new_def lv_span_def)
  moreover obtain "is" where
    "map (\<lambda>lv. pte_index_of lv 0x40201000) (LEVELS Riscv64Sv39) = map Some is"
    "va_compose (LEVELS Riscv64Sv39) is (unat (0x40201000 :: usize) mod unat (GRANULE_SIZE Riscv64Sv39)) =
       unat (0x40201000 :: usize) mod 2 ^ VIRTUAL_ADDRESS_BITS Riscv64Sv39"
    using pte_index_decomposition [OF wf_arch_Riscv64(1), of "0x40201000"] by blast
  moreover from calculation have "is = [1, 1, 1]"
    by (metis inj_map_eq_map inj_Some)
  ultimately show ?thesis
    using wf_arch_Riscv64(1)
    by (simp add: Riscv64Sv39_def level_new_def lv_span_def)
qed

text \<open>
  C33. The paging modes are well formed with 39, 48 and 57 address bits, and \<open>leaf_depth_of\<close>
  returns the first leaf level of the requested size, or rejects a size no leaf level has: 2 MiB
  pages sit at depth 1, 2 and 3 under Sv39, Sv48 and Sv57.
\<close>

theorem leaf_depth_of_correct:
  "wf_arch Riscv64Sv39 \<and> wf_arch Riscv64Sv48 \<and> wf_arch Riscv64Sv57 \<and>
   map VIRTUAL_ADDRESS_BITS [Riscv64Sv39, Riscv64Sv48, Riscv64Sv57] = [39, 48, 57] \<and>
   map (leaf_depth_of Riscv64Sv39) [Size4KiB, Size2MiB, Size1GiB, Size512GiB, Size256TiB] =
     [Some 2, Some 1, Some 0, None, None] \<and>
   map (leaf_depth_of Riscv64Sv48) [Size4KiB, Size2MiB, Size1GiB, Size512GiB, Size256TiB] =
     [Some 3, Some 2, Some 1, Some 0, None] \<and>
   map (leaf_depth_of Riscv64Sv57) [Size4KiB, Size2MiB, Size1GiB, Size512GiB, Size256TiB] =
     [Some 4, Some 3, Some 2, Some 1, Some 0] \<and>
   (case leaf_depth_of A S of
      Some d \<Rightarrow> (\<exists>lv. level_at A d = Some lv \<and> is_leaf_level S lv) \<and>
        (\<forall>i < d. \<not> is_leaf_level S (LEVELS A ! i))
    | None \<Rightarrow> (\<forall>lv \<in> set (LEVELS A). \<not> is_leaf_level S lv))"
proof -
  have "map VIRTUAL_ADDRESS_BITS [Riscv64Sv39, Riscv64Sv48, Riscv64Sv57] = [39, 48, 57]"
    by (simp add: VIRTUAL_ADDRESS_BITS_def Riscv64Sv39_def Riscv64Sv48_def Riscv64Sv57_def
        level_new_def)
  moreover have "map (leaf_depth_of Riscv64Sv39) [Size4KiB, Size2MiB, Size1GiB, Size512GiB, Size256TiB] =
     [Some 2, Some 1, Some 0, None, None]"
    by (simp add: leaf_depth_simps Riscv64Sv39_def)
  moreover have "map (leaf_depth_of Riscv64Sv48) [Size4KiB, Size2MiB, Size1GiB, Size512GiB, Size256TiB] =
     [Some 3, Some 2, Some 1, Some 0, None]"
    by (simp add: leaf_depth_simps Riscv64Sv48_def)
  moreover have "map (leaf_depth_of Riscv64Sv57) [Size4KiB, Size2MiB, Size1GiB, Size512GiB, Size256TiB] =
     [Some 4, Some 3, Some 2, Some 1, Some 0]"
    by (simp add: leaf_depth_simps Riscv64Sv57_def)
  moreover have "case leaf_depth_of A S of
      Some d \<Rightarrow> (\<exists>lv. level_at A d = Some lv \<and> is_leaf_level S lv) \<and>
        (\<forall>i < d. \<not> is_leaf_level S (LEVELS A ! i))
    | None \<Rightarrow> (\<forall>lv \<in> set (LEVELS A). \<not> is_leaf_level S lv)"
    using leaf_depth_loop_correct [of "LEVELS A" S 0]
    by (simp add: leaf_depth_of_def level_at_def split: option.splits)
  ultimately show ?thesis
    using wf_arch_Riscv64 by blast
qed

theorem leaf_depth_of_correct_witness:
  "leaf_depth_of Riscv64Sv48 Size2MiB = Some 2 \<and>
   (\<exists>lv. level_at Riscv64Sv48 2 = Some lv \<and> is_leaf_level Size2MiB lv) \<and>
   \<not> is_leaf_level Size2MiB (LEVELS Riscv64Sv48 ! 1)"
proof -
  have "leaf_depth_of Riscv64Sv48 Size2MiB = Some 2"
    by (simp add: leaf_depth_simps Riscv64Sv48_def)
  then show ?thesis
    using leaf_depth_of_correct [of Riscv64Sv48 Size2MiB] by simp
qed

end
