(* ===== verification/Phys_Map.thy ===== *)
theory Phys_Map
  imports Memory_Attributes
begin

text \<open>
  \<^verbatim>\<open>lib/mem-core/src/physmap.rs\<close>: the window of virtual memory through which the kernel reaches
  physical memory. \<open>wf_physmap\<close> is the invariant the page-table code relies on: the window
  translates the physical range one to one, without wrapping, to word-aligned non-null addresses.
\<close>

record PhysMap =
  pm_translation_offset :: isize
  pm_range_phys :: addr_range
  pm_range_virt :: addr_range

text \<open>The loop over the regions, and both constructors.\<close>

fun physmap_hull :: "addr_range \<Rightarrow> addr_range list \<Rightarrow> addr_range" where
  "physmap_hull range_phys [] = range_phys"
| "physmap_hull range_phys (region # regions) =
     physmap_hull
       \<lparr>range_start = min (range_start range_phys) (range_start region),
        range_end = max (range_end range_phys) (range_end region)\<rparr> regions"

definition physmap_new :: "PageSize \<Rightarrow> vaddr \<Rightarrow> addr_range list \<Rightarrow> PhysMap option" where
  "physmap_new S physmap_base regions =
     do {
       let range_phys = physmap_hull (range_of addr_MAX addr_MIN) regions;
       debug_assert (\<not> range_is_empty range_phys);
       let translation_offset = physmap_base - range_start range_phys;
       let range_virt = range_of (addr_wrapping_offset (range_start range_phys) translation_offset)
                                 (addr_wrapping_offset (range_end range_phys) translation_offset);
       range_virt' \<leftarrow> range_align_out range_virt (page_BYTES S);
       Some \<lparr>pm_translation_offset = translation_offset, pm_range_phys = range_phys,
             pm_range_virt = range_virt'\<rparr>
     }"

definition physmap_new_identity :: "PageSize \<Rightarrow> addr_range list \<Rightarrow> PhysMap option" where
  "physmap_new_identity S regions =
     do {
       let range_phys = physmap_hull (range_of addr_MAX addr_MIN) regions;
       debug_assert (\<not> range_is_empty range_phys);
       let range_virt = range_of (range_start range_phys) (range_end range_phys);
       range_virt' \<leftarrow> range_align_out range_virt (page_BYTES S);
       Some \<lparr>pm_translation_offset = 0, pm_range_phys = range_phys, pm_range_virt = range_virt'\<rparr>
     }"

definition phys_to_virt_internal :: "PhysMap \<Rightarrow> paddr \<Rightarrow> vaddr" where
  "phys_to_virt_internal pm phys = addr_wrapping_offset phys (pm_translation_offset pm)"

definition phys_to_virt :: "PhysMap \<Rightarrow> paddr \<Rightarrow> vaddr option" where
  "phys_to_virt pm phys =
     do {
       debug_assert (range_contains (pm_range_phys pm) phys);
       let virt = phys_to_virt_internal pm phys;
       debug_assert (range_contains (pm_range_virt pm) virt);
       Some virt
     }"

definition phys_to_virt_range :: "PhysMap \<Rightarrow> addr_range \<Rightarrow> addr_range option" where
  "phys_to_virt_range pm phys =
     do {
       debug_assert (range_start phys \<ge> range_start (pm_range_phys pm) \<and>
                     range_end phys \<le> range_end (pm_range_phys pm));
       let virt = range_of (phys_to_virt_internal pm (range_start phys))
                           (phys_to_virt_internal pm (range_end phys));
       debug_assert (range_start virt \<ge> range_start (pm_range_virt pm) \<and>
                     range_end virt \<le> range_end (pm_range_virt pm));
       Some virt
     }"

section \<open>The hull of the regions\<close>

lemma physmap_hull_contains:
  assumes "reg \<in> set rs"
  shows "range_start (physmap_hull r rs) \<le> range_start reg" "range_end reg \<le> range_end (physmap_hull r rs)"
proof -
  have mono: "range_start (physmap_hull r rs) \<le> range_start r \<and> range_end r \<le> range_end (physmap_hull r rs)" for r rs
  proof (induction rs arbitrary: r)
    case (Cons a rs)
    show ?case
      using Cons [of "\<lparr>range_start = min (range_start r) (range_start a),
        range_end = max (range_end r) (range_end a)\<rparr>"] by simp
  qed simp
  show "range_start (physmap_hull r rs) \<le> range_start reg" "range_end reg \<le> range_end (physmap_hull r rs)"
    using assms
  proof (induction rs arbitrary: r)
    case (Cons a rs)
    { case 1
      then show ?case
        using Cons(1) mono [of "\<lparr>range_start = min (range_start r) (range_start a),
          range_end = max (range_end r) (range_end a)\<rparr>" rs] by auto
    next
      case 2
      then show ?case
        using Cons(2) mono [of "\<lparr>range_start = min (range_start r) (range_start a),
          range_end = max (range_end r) (range_end a)\<rparr>" rs] by auto
    }
  qed simp_all
qed

section \<open>Translation\<close>

definition pm_base :: "PhysMap \<Rightarrow> nat" where
  "pm_base pm = unat (range_start (pm_range_phys pm) + pm_translation_offset pm)"

text \<open>The window covers the image of the physical range, which does not wrap around.\<close>

definition pm_window :: "PhysMap \<Rightarrow> bool" where
  "pm_window pm \<longleftrightarrow>
     \<not> range_is_empty (pm_range_phys pm) \<and>
     unat (range_start (pm_range_virt pm)) \<le> pm_base pm \<and>
     pm_base pm + (unat (range_end (pm_range_phys pm)) - unat (range_start (pm_range_phys pm)))
       \<le> unat (range_end (pm_range_virt pm))"

definition wf_physmap :: "PhysMap \<Rightarrow> bool" where
  "wf_physmap pm \<longleftrightarrow> pm_window pm \<and> 8 dvd unat (pm_translation_offset pm) \<and> 0 < pm_base pm"

lemma pm_image:
  assumes "pm_window pm" "range_start (pm_range_phys pm) \<le> p" "p \<le> range_end (pm_range_phys pm)"
  shows "unat (p + pm_translation_offset pm) = pm_base pm + (unat p - unat (range_start (pm_range_phys pm)))"
proof -
  let ?s = "range_start (pm_range_phys pm)" and ?off = "pm_translation_offset pm"
  have "p + ?off = (?s + ?off) + (p - ?s)" by simp
  moreover have "unat (p - ?s) = unat p - unat ?s"
    using assms(2) by (simp add: unat_sub word_le_nat_alt)
  moreover have "unat p - unat ?s \<le> unat (range_end (pm_range_phys pm)) - unat ?s"
    using assms(3) by (simp add: word_le_nat_alt diff_le_mono)
  then have "unat (?s + ?off) + (unat p - unat ?s) < 2 ^ 64"
    using assms(1) usize_lt [of "range_end (pm_range_virt pm)"] by (simp add: pm_window_def pm_base_def)
  ultimately show ?thesis
    by (metis pm_base_def unat_add_usize)
qed

lemma pm_windowD:
  assumes "pm_window pm"
  shows "unat (range_start (pm_range_virt pm)) \<le> pm_base pm"
    "pm_base pm + (unat (range_end (pm_range_phys pm)) - unat (range_start (pm_range_phys pm)))
       \<le> unat (range_end (pm_range_virt pm))"
  using assms by (simp_all only: pm_window_def)

lemma phys_to_virt_window:
  assumes "pm_window pm"
  shows "phys_to_virt pm p =
     (if range_contains (pm_range_phys pm) p then Some (p + pm_translation_offset pm) else None)"
proof (cases "range_contains (pm_range_phys pm) p")
  case True
  then have *: "range_start (pm_range_phys pm) \<le> p" "p < range_end (pm_range_phys pm)"
    by (simp_all add: range_contains_def)
  then have "unat p - unat (range_start (pm_range_phys pm)) <
      unat (range_end (pm_range_phys pm)) - unat (range_start (pm_range_phys pm))"
    by (simp add: word_less_nat_alt word_le_nat_alt diff_less_mono)
  then have "range_contains (pm_range_virt pm) (p + pm_translation_offset pm)"
    using pm_image [OF assms *(1) less_imp_le [OF *(2)]] pm_windowD [OF assms]
    unfolding range_contains_nat range_nat_def by (simp only: atLeastLessThan_iff) linarith
  then show ?thesis
    using True by (simp add: phys_to_virt_def phys_to_virt_internal_def addr_wrapping_offset_eq)
qed (simp add: phys_to_virt_def)

lemma phys_to_virt_range_window:
  assumes "pm_window pm" "range_start (pm_range_phys pm) \<le> range_start r"
    "range_start r \<le> range_end r" "range_end r \<le> range_end (pm_range_phys pm)"
  shows "phys_to_virt_range pm r =
     Some (range_of (range_start r + pm_translation_offset pm) (range_end r + pm_translation_offset pm))"
    "unat (range_end r + pm_translation_offset pm) - unat (range_start r + pm_translation_offset pm) =
       unat (range_end r) - unat (range_start r)"
proof -
  have s: "unat (range_start r + pm_translation_offset pm) =
      pm_base pm + (unat (range_start r) - unat (range_start (pm_range_phys pm)))"
    using assms by (intro pm_image) auto
  have e: "unat (range_end r + pm_translation_offset pm) =
      pm_base pm + (unat (range_end r) - unat (range_start (pm_range_phys pm)))"
    using assms by (intro pm_image) auto
  show "unat (range_end r + pm_translation_offset pm) - unat (range_start r + pm_translation_offset pm) =
       unat (range_end r) - unat (range_start r)"
    using s e assms(2,3) by (simp add: word_le_nat_alt)
  have "unat (range_end r) - unat (range_start (pm_range_phys pm))
      \<le> unat (range_end (pm_range_phys pm)) - unat (range_start (pm_range_phys pm))"
    using assms(4) by (simp add: word_le_nat_alt diff_le_mono)
  then have "range_start (pm_range_virt pm) \<le> range_start r + pm_translation_offset pm"
    "range_end r + pm_translation_offset pm \<le> range_end (pm_range_virt pm)"
    unfolding word_le_nat_alt s e using pm_windowD [OF assms(1)] by linarith+
  then show "phys_to_virt_range pm r =
     Some (range_of (range_start r + pm_translation_offset pm) (range_end r + pm_translation_offset pm))"
    using assms
    by (simp add: phys_to_virt_range_def phys_to_virt_internal_def addr_wrapping_offset_eq range_of_def)
qed

lemma physmap_new_window:
  assumes "physmap_new S b regions = Some pm"
    "unat b + (unat (range_end (pm_range_phys pm)) - unat (range_start (pm_range_phys pm))) < 2 ^ 64"
  shows "pm_window pm" "pm_base pm = unat b"
    "pm_range_phys pm = physmap_hull (range_of addr_MAX addr_MIN) regions"
    "pm_translation_offset pm = b - range_start (pm_range_phys pm)"
proof -
  let ?r = "physmap_hull (range_of addr_MAX addr_MIN) regions"
  have r: "pm_range_phys pm = ?r" "\<not> range_is_empty ?r" "pm_translation_offset pm = b - range_start ?r"
    "range_align_out (range_of b (range_end ?r + (b - range_start ?r))) (page_BYTES S) =
       Some (pm_range_virt pm)"
    using assms(1) by (auto simp: physmap_new_def bind_eq_Some_conv addr_wrapping_offset_eq)
  show "pm_range_phys pm = ?r" "pm_translation_offset pm = b - range_start (pm_range_phys pm)"
    using r by simp_all
  show base: "pm_base pm = unat b" using r by (simp add: pm_base_def)
  have lt: "range_start ?r < range_end ?r" using r(2) by (simp add: range_is_empty_def not_le)
  have "range_end ?r + (b - range_start ?r) = b + (range_end ?r - range_start ?r)" by simp
  moreover have "unat (range_end ?r - range_start ?r) = unat (range_end ?r) - unat (range_start ?r)"
    using lt by (simp add: unat_sub)
  ultimately have e: "unat (range_end ?r + (b - range_start ?r)) =
      unat b + (unat (range_end ?r) - unat (range_start ?r))"
    using assms(2) r(1) by (metis unat_add_usize)
  show "pm_window pm"
    using r base e
    by (simp add: pm_window_def range_align_out_eq_Some range_of_def round_down_le round_up_ge)
qed

lemma physmap_identity_window:
  assumes "physmap_new_identity S regions = Some pm"
  shows "pm_window pm" "pm_translation_offset pm = 0"
    "pm_range_phys pm = physmap_hull (range_of addr_MAX addr_MIN) regions"
proof -
  let ?r = "physmap_hull (range_of addr_MAX addr_MIN) regions"
  have r: "pm_range_phys pm = ?r" "\<not> range_is_empty ?r" "pm_translation_offset pm = 0"
    "range_align_out (range_of (range_start ?r) (range_end ?r)) (page_BYTES S) = Some (pm_range_virt pm)"
    using assms by (auto simp: physmap_new_identity_def bind_eq_Some_conv)
  then show "pm_translation_offset pm = 0" "pm_range_phys pm = ?r" by simp_all
  have "range_start ?r < range_end ?r" using r(2) by (simp add: range_is_empty_def not_le)
  then show "pm_window pm"
    using r
    by (simp add: pm_window_def pm_base_def range_align_out_eq_Some range_of_def round_down_le
        round_up_ge word_less_nat_alt)
qed

section \<open>Properties\<close>



end
