(* ===== verification/Machine_Memory.thy ===== *)
theory Machine_Memory
  imports K23_Prelude
begin

text \<open>
  The memory accessors of the trait \<open>Arch\<close> (\<^verbatim>\<open>lib/mem-core/src/arch/mod.rs\<close>). Memory is a map from
  virtual addresses to bytes, and a page-table entry is read and written as eight little-endian
  bytes, as \<open>ptr::read\<close> and \<open>ptr::write\<close> of a \<open>usize\<close> do on the supported targets. An access
  through a null or misaligned pointer, or past the end of the address space, is \<^term>\<open>None\<close>.
\<close>

type_synonym mem = "usize \<Rightarrow> 8 word"

fun mem_bytes_word :: "mem \<Rightarrow> usize \<Rightarrow> nat \<Rightarrow> usize" where
  "mem_bytes_word mem a 0 = 0"
| "mem_bytes_word mem a (Suc n) = push_bit 8 (mem_bytes_word mem (a + 1) n) OR ucast (mem a)"

definition mem_word :: "mem \<Rightarrow> usize \<Rightarrow> usize" where
  "mem_word mem a = mem_bytes_word mem a 8"

definition arch_read :: "mem \<Rightarrow> usize \<Rightarrow> usize option" where
  "arch_read mem address =
     (if address = 0 \<or> unat address mod 8 \<noteq> 0 then None else Some (mem_word mem address))"

definition arch_write :: "mem \<Rightarrow> usize \<Rightarrow> usize \<Rightarrow> mem option" where
  "arch_write mem address v =
     (if address = 0 \<or> unat address mod 8 \<noteq> 0 then None
      else Some (\<lambda>x. if unat (x - address) < 8 then ucast (drop_bit (8 * unat (x - address)) v)
                      else mem x))"

definition arch_read_bytes :: "mem \<Rightarrow> usize \<Rightarrow> usize \<Rightarrow> 8 word list option" where
  "arch_read_bytes mem address count =
     (if address = 0 \<or> 2 ^ 64 < unat address + unat count then None
      else Some (map (\<lambda>i. mem (address + of_nat i)) [0 ..< unat count]))"

definition arch_write_bytes :: "mem \<Rightarrow> usize \<Rightarrow> 8 word \<Rightarrow> usize \<Rightarrow> mem option" where
  "arch_write_bytes mem address v count =
     (if address = 0 \<or> 2 ^ 64 < unat address + unat count then None
      else Some (\<lambda>x. if unat (x - address) < unat count then v else mem x))"

section \<open>The bits of a word in memory\<close>

lemma mem_bytes_word_bit:
  "bit (mem_bytes_word mem a n) k \<longleftrightarrow>
     k < 64 \<and> k < 8 * n \<and> bit (mem (a + of_nat (k div 8))) (k mod 8)"
proof (induction n arbitrary: a k)
  case (Suc n)
  show ?case
  proof (cases "k < 8")
    case True
    then show ?thesis by (simp add: bit_simps)
  next
    case False
    then have "k div 8 = Suc ((k - 8) div 8)" "(k - 8) mod 8 = k mod 8"
      by (simp_all add: div_if [of k] mod_if [of k])
    moreover have "\<not> bit (mem a) k"
      using False by (auto dest: bit_imp_le_length)
    ultimately show ?thesis
      using False by (auto simp: bit_simps Suc add.assoc)
  qed
qed simp

lemma mem_word_bit:
  "k < 64 \<Longrightarrow> bit (mem_word mem a) k \<longleftrightarrow> bit (mem (a + of_nat (k div 8))) (k mod 8)"
  by (simp add: mem_word_def mem_bytes_word_bit)

lemma mem_word_cong:
  assumes "\<And>i. i < 8 \<Longrightarrow> mem (a + of_nat i) = mem' (a + of_nat i)"
  shows "mem_word mem a = mem_word mem' a"
  by (rule bit_word_eqI) (use assms in \<open>simp add: mem_word_bit less_mult_imp_div_less\<close>)

text \<open>A word address: the addresses of its eight bytes do not wrap around.\<close>

abbreviation word_aligned :: "usize \<Rightarrow> bool" where
  "word_aligned a \<equiv> 8 dvd unat a"

lemma word_aligned_byte:
  assumes "word_aligned a" "i < 8"
  shows "unat (a + of_nat i) = unat a + i"
proof -
  have "unat a + 8 \<le> 2 ^ 64"
    using assms(1) usize_lt [of a] by (intro multiples_apart) simp_all
  moreover have "unat (of_nat i :: usize) = i"
    using assms(2) by (simp add: unat_of_nat)
  ultimately show ?thesis
    using assms(2) by (subst unat_add_usize) simp_all
qed

lemma word_aligned_apart:
  assumes "word_aligned a" "word_aligned b" "a \<noteq> b" "i < 8"
  shows "\<not> unat (b + of_nat i - a) < 8"
proof -
  have b: "unat (b + of_nat i) = unat b + i" using word_aligned_byte assms by blast
  have a8: "unat a + 8 \<le> 2 ^ 64"
    using assms(1) usize_lt [of a] by (intro multiples_apart) simp_all
  have "unat a \<noteq> unat b" using assms(3) usize_eqI by blast
  then consider "unat a + 8 \<le> unat b" | "unat b + 8 \<le> unat a"
    using multiples_apart [OF assms(1,2)] multiples_apart [OF assms(2,1)] by linarith
  then show ?thesis
  proof cases
    case 1
    then have "a \<le> b + of_nat i" using b by (simp add: word_le_nat_alt)
    then show ?thesis using 1 b by (simp add: unat_sub)
  next
    case 2
    then have "b + of_nat i < a" using b assms(4) by (simp add: word_less_nat_alt)
    then have "unat (b + of_nat i - a) = 2 ^ 64 + (unat b + i) - unat a"
      using b by (simp add: unat_sub_if' word_le_nat_alt word_less_nat_alt)
    then show ?thesis using a8 by simp
  qed
qed

section \<open>Reading after writing\<close>

lemma arch_read_Some: "word_aligned a \<Longrightarrow> a \<noteq> 0 \<Longrightarrow> arch_read mem a = Some (mem_word mem a)"
  by (simp add: arch_read_def)

lemma arch_write_Some:
  assumes "word_aligned a" "a \<noteq> 0"
  obtains mem' where "arch_write mem a v = Some mem'" "mem_word mem' a = v"
    "\<And>b. word_aligned b \<Longrightarrow> b \<noteq> a \<Longrightarrow> mem_word mem' b = mem_word mem b"
proof -
  let ?mem' = "\<lambda>x. if unat (x - a) < 8 then ucast (drop_bit (8 * unat (x - a)) v) else mem x"
  have "mem_word ?mem' a = v"
  proof (rule bit_word_eqI)
    fix n assume n: "n < LENGTH(64)"
    then have "n div 8 < 8" by (simp add: less_mult_imp_div_less)
    then have "unat (of_nat (n div 8) :: usize) = n div 8" by (simp add: unat_of_nat)
    then show "bit (mem_word ?mem' a) n = bit v n"
      using n \<open>n div 8 < 8\<close> by (simp add: mem_word_bit bit_simps)
  qed
  moreover have "mem_word ?mem' b = mem_word mem b" if "word_aligned b" "b \<noteq> a" for b
    using word_aligned_apart [OF assms(1) that(1)] that(2) by (intro mem_word_cong) auto
  moreover have "arch_write mem a v = Some ?mem'"
    using assms by (simp add: arch_write_def)
  ultimately show ?thesis using that by blast
qed

lemma arch_write_bytes_zero:
  assumes "a \<noteq> 0" "unat a + unat n \<le> 2 ^ 64" "word_aligned a" "8 dvd unat n"
  obtains mem' where "arch_write_bytes mem a 0 n = Some mem'"
    "\<And>b. word_aligned b \<Longrightarrow> unat a \<le> unat b \<Longrightarrow> unat b < unat a + unat n \<Longrightarrow> mem_word mem' b = 0"
    "\<And>b. word_aligned b \<Longrightarrow> \<not> (unat a \<le> unat b \<and> unat b < unat a + unat n) \<Longrightarrow>
       mem_word mem' b = mem_word mem b"
proof -
  let ?mem' = "\<lambda>x. if unat (x - a) < unat n then 0 else mem x"
  have in_iff: "unat (x - a) < unat n \<longleftrightarrow> unat a \<le> unat x \<and> unat x < unat a + unat n" for x
  proof (cases "a \<le> x")
    case True
    then show ?thesis by (auto simp: unat_sub word_le_nat_alt)
  next
    case False
    then have "unat (x - a) = 2 ^ 64 + unat x - unat a"
      by (simp add: unat_sub_if' word_le_nat_alt)
    then show ?thesis using False assms(2) by (simp add: word_le_nat_alt)
  qed
  have "mem_word ?mem' b = 0" if b: "word_aligned b" "unat a \<le> unat b" "unat b < unat a + unat n" for b
  proof -
    have "8 dvd unat a + unat n" using assms(3,4) by simp
    then have "unat b + 8 \<le> unat a + unat n"
      using b by (intro multiples_apart) simp_all
    then have "mem_word ?mem' b = mem_word (\<lambda>_. 0) b"
      using b by (intro mem_word_cong) (simp add: in_iff word_aligned_byte)
    also have "\<dots> = 0" by (rule bit_word_eqI) (simp add: mem_word_bit)
    finally show ?thesis .
  qed
  moreover have "mem_word ?mem' b = mem_word mem b"
    if b: "word_aligned b" "\<not> (unat a \<le> unat b \<and> unat b < unat a + unat n)" for b
  proof (rule mem_word_cong)
    fix i :: nat assume i: "i < 8"
    have "unat b + 8 \<le> unat a" if "unat b < unat a"
      using that b(1) assms(3) by (intro multiples_apart) simp_all
    then show "?mem' (b + of_nat i) = mem (b + of_nat i)"
      using b i by (auto simp: in_iff word_aligned_byte)
  qed
  ultimately show ?thesis
    using that [of ?mem'] assms(1,2) by (simp add: arch_write_bytes_def)
qed

end
