(* ===== verification/Frame_Allocator.thy ===== *)
theory Frame_Allocator
  imports Arch_Levels Phys_Map Machine_Memory
begin

text \<open>
  \<^verbatim>\<open>lib/mem-core/src/frame_allocator.rs\<close>: the trait \<open>FrameAllocator\<close> as a record of its required
  methods over an allocator state \<open>'a\<close> (the implementations use interior mutability, so the state is passed
  explicitly), and its provided methods as definitions over that record. The iterator of blocks
  that \<open>allocate\<close> returns is the list of the blocks still to come.

  The locale states what the page-table code relies on when it allocates tables: a frame of one
  granule that is not in use, aligned and reachable through the physical memory map.
\<close>

datatype AllocError = AllocError

record Layout =
  layout_size :: usize
  layout_align :: usize

text \<open>What \<open>Layout::from_size_align\<close> checks: a power-of-two alignment and a size that rounds up to at most \<open>isize::MAX\<close>.\<close>

definition wf_layout :: "Layout \<Rightarrow> bool" where
  "wf_layout l \<longleftrightarrow> is_power_of_two (layout_align l) \<and>
     unat (layout_size l) + (unat (layout_align l) - 1) < 2 ^ 63"

definition layout_from_size_align :: "usize \<Rightarrow> usize \<Rightarrow> Layout option" where
  "layout_from_size_align sz align =
     (let l = \<lparr>layout_size = sz, layout_align = align\<rparr> in if wf_layout l then Some l else None)"

definition GRANULE_LAYOUT :: "arch \<Rightarrow> Layout" where
  "GRANULE_LAYOUT A = \<lparr>layout_size = GRANULE_SIZE A, layout_align = GRANULE_SIZE A\<rparr>"

record 'a frame_allocator =
  fa_allocate :: "Layout \<Rightarrow> ('a, AllocError, addr_range list) act"
  fa_allocate_contiguous :: "Layout \<Rightarrow> ('a, AllocError, paddr) act"
  fa_deallocate :: "paddr \<Rightarrow> Layout \<Rightarrow> 'a \<Rightarrow> 'a option"

definition allocate_contiguous_zeroed ::
  "'a frame_allocator \<Rightarrow> PhysMap \<Rightarrow> Layout \<Rightarrow> (mem \<times> 'a, AllocError, paddr) act" where
  "allocate_contiguous_zeroed fa pm layout = (\<lambda>(mem, s).
     do {
       (r, s') \<leftarrow> fa_allocate_contiguous fa layout s;
       (case r of
          Inl e \<Rightarrow> Some (Inl e, (mem, s'))
        | Inr phys \<Rightarrow> do {
            virt \<leftarrow> phys_to_virt pm phys;
            mem' \<leftarrow> arch_write_bytes mem virt 0 (layout_size layout);
            Some (Inr phys, (mem', s'))
          })
     })"

text \<open>
  \<open>allocate_zeroed\<close> zeroes a block only when the returned iterator yields it (\<open>inspect\<close> is
  lazy): the call itself hands out the blocks, \<open>zeroed_next\<close> is one step of the iterator.
\<close>

definition allocate_zeroed :: "'a frame_allocator \<Rightarrow> Layout \<Rightarrow> ('a, AllocError, addr_range list) act" where
  "allocate_zeroed fa layout = fa_allocate fa layout"

definition zeroed_next ::
  "PhysMap \<Rightarrow> mem \<times> addr_range list \<Rightarrow> (addr_range option \<times> mem \<times> addr_range list) option" where
  "zeroed_next pm = (\<lambda>(mem, blocks).
     (case blocks of
        [] \<Rightarrow> Some (None, mem, [])
      | block_phys # rest \<Rightarrow> do {
          block_virt \<leftarrow> phys_to_virt_range pm block_phys;
          n \<leftarrow> range_len block_phys;
          n' \<leftarrow> range_len block_virt;
          debug_assert (n = n');
          mem' \<leftarrow> arch_write_bytes mem (range_start block_virt) 0 n;
          Some (Some block_phys, mem', rest)
        }))"

section \<open>Frames reachable through the physical memory map\<close>

text \<open>A granule-aligned frame of physical memory that the map covers and an entry can address.\<close>

definition frame_ok :: "arch \<Rightarrow> PhysMap \<Rightarrow> paddr \<Rightarrow> bool" where
  "frame_ok A pm b \<longleftrightarrow>
     unat (GRANULE_SIZE A) dvd unat b \<and> unat b < 2 ^ 56 \<and>
     unat (range_start (pm_range_phys pm)) \<le> unat b \<and>
     unat b + unat (GRANULE_SIZE A) \<le> unat (range_end (pm_range_phys pm))"

text \<open>The address of the word \<open>i\<close> of a frame, through the map.\<close>

definition frame_cell :: "PhysMap \<Rightarrow> paddr \<Rightarrow> nat \<Rightarrow> vaddr" where
  "frame_cell pm b i = b + of_nat (8 * i) + pm_translation_offset pm"

definition frame_words :: "arch \<Rightarrow> nat" where
  "frame_words A = unat (GRANULE_SIZE A) div 8"

lemma GRANULE_SIZE_pow2:
  assumes "wf_arch A"
  obtains k where "12 \<le> k" "k < 56" "unat (GRANULE_SIZE A) = 2 ^ k" "GRANULE_SIZE A = 2 ^ k"
proof -
  let ?k = "lv_index_shift (last (LEVELS A))"
  have k: "12 \<le> ?k" "?k < 56" using assms by (simp_all add: wf_arch_def)
  have "GRANULE_SIZE A = 2 ^ ?k"
    by (simp add: GRANULE_SIZE_def level_page_size_def push_bit_of_1)
  then show ?thesis
    using that [of ?k] k by simp
qed

lemma GRANULE_SIZE_words:
  assumes "wf_arch A"
  shows "8 * frame_words A = unat (GRANULE_SIZE A)" "4096 dvd unat (GRANULE_SIZE A)"
    "0 < unat (GRANULE_SIZE A)"
proof -
  obtain k where k: "12 \<le> k" "unat (GRANULE_SIZE A) = 2 ^ k"
    using GRANULE_SIZE_pow2 [OF assms] by metis
  have "(2::nat) ^ 12 dvd 2 ^ k" using k by (simp only: le_imp_power_dvd)
  then show d: "4096 dvd unat (GRANULE_SIZE A)" using k by simp
  have "(8::nat) dvd 4096" by simp
  then have "8 dvd unat (GRANULE_SIZE A)" using d dvd_trans by blast
  then show "8 * frame_words A = unat (GRANULE_SIZE A)" by (simp add: frame_words_def)
  show "0 < unat (GRANULE_SIZE A)" using k by simp
qed

lemma wf_layout_GRANULE: "wf_arch A \<Longrightarrow> wf_layout (GRANULE_LAYOUT A)"
proof -
  assume "wf_arch A"
  then obtain k where k: "k < 56" "GRANULE_SIZE A = 2 ^ k"
    using GRANULE_SIZE_pow2 by metis
  then have "(2::nat) ^ k \<le> 2 ^ 55" by (intro power_increasing) simp_all
  then show ?thesis
    using k by (simp add: wf_layout_def GRANULE_LAYOUT_def is_power_of_two_pow2)
qed

lemma lv_entries_words: "wf_arch A \<Longrightarrow> lv \<in> set (LEVELS A) \<Longrightarrow> lv_entries lv \<le> frame_words A"
  using GRANULE_SIZE_words(1) [of A] by (auto simp: wf_arch_def GRANULE_SIZE_nat)

lemma frame_cell_phys:
  assumes "wf_arch A" "frame_ok A pm b" "i < frame_words A"
  shows "unat (b + of_nat (8 * i)) = unat b + 8 * i" "range_contains (pm_range_phys pm) (b + of_nat (8 * i))"
proof -
  have i: "8 * i < unat (GRANULE_SIZE A)"
    using GRANULE_SIZE_words(1) [OF assms(1)] assms(3) by simp
  have b: "unat b + unat (GRANULE_SIZE A) \<le> unat (range_end (pm_range_phys pm))"
    using assms(2) by (simp add: frame_ok_def)
  then have "unat b + 8 * i < 2 ^ 64"
    using i usize_lt [of "range_end (pm_range_phys pm)"] by linarith
  moreover from this have "unat (of_nat (8 * i) :: usize) = 8 * i"
    by (intro unat_of_nat_usize) linarith
  ultimately show *: "unat (b + of_nat (8 * i)) = unat b + 8 * i"
    by (subst unat_add_usize) simp_all
  show "range_contains (pm_range_phys pm) (b + of_nat (8 * i))"
    unfolding range_contains_nat range_nat_def *
    using b i assms(2) by (simp add: frame_ok_def)
qed

lemma frame_cell_virt:
  assumes "wf_arch A" "wf_physmap pm" "frame_ok A pm b" "i < frame_words A"
  shows "phys_to_virt pm (b + of_nat (8 * i)) = Some (frame_cell pm b i)"
    "word_aligned (frame_cell pm b i)" "frame_cell pm b i \<noteq> 0"
    "unat (frame_cell pm b i) = unat (frame_cell pm b 0) + 8 * i"
proof -
  note c = frame_cell_phys [OF assms(1,3,4)]
  have "0 < frame_words A" using assms(4) by simp
  note c0 = frame_cell_phys [OF assms(1,3) this]
  have w: "pm_window pm" using assms(2) by (simp add: wf_physmap_def)
  show "phys_to_virt pm (b + of_nat (8 * i)) = Some (frame_cell pm b i)"
    using c by (simp add: phys_to_virt_window [OF w] frame_cell_def)
  have im: "unat (frame_cell pm b i) = pm_base pm + (unat b + 8 * i - unat (range_start (pm_range_phys pm)))"
    using pm_image [OF w, of "b + of_nat (8 * i)"] c
    unfolding frame_cell_def by (auto simp: range_contains_def)
  moreover have im0: "unat (frame_cell pm b 0) = pm_base pm + (unat b - unat (range_start (pm_range_phys pm)))"
    using pm_image [OF w, of "b + of_nat (8 * 0)"] c0
    unfolding frame_cell_def by (auto simp: range_contains_def)
  moreover have "unat (range_start (pm_range_phys pm)) \<le> unat b"
    using assms(3) by (simp add: frame_ok_def)
  ultimately show "unat (frame_cell pm b i) = unat (frame_cell pm b 0) + 8 * i" by simp
  have "0 < pm_base pm" using assms(2) by (simp add: wf_physmap_def)
  then show "frame_cell pm b i \<noteq> 0" using im by (auto dest: arg_cong [of _ _ unat])
  have "8 dvd unat (GRANULE_SIZE A)"
    by (rule dvdI [of _ _ "frame_words A"]) (simp add: GRANULE_SIZE_words(1) [OF assms(1)])
  then have "8 dvd unat b"
    using assms(3) dvd_trans unfolding frame_ok_def by blast
  then have "8 dvd unat (b + of_nat (8 * i))"
    unfolding c(1) by (intro dvd_add) simp_all
  moreover have "8 dvd unat (pm_translation_offset pm)" using assms(2) by (simp add: wf_physmap_def)
  ultimately have "8 dvd (unat (b + of_nat (8 * i)) + unat (pm_translation_offset pm)) mod 2 ^ LENGTH(64)"
    by (intro dvd_mod dvd_add) simp_all
  then show "word_aligned (frame_cell pm b i)"
    by (simp only: frame_cell_def unat_word_ariths)
qed

lemma frame_cell_inject:
  assumes "wf_arch A" "frame_ok A pm b" "i < frame_words A" "frame_ok A pm b'" "i' < frame_words A"
    "frame_cell pm b i = frame_cell pm b' i'"
  shows "b = b' \<and> i = i'"
proof -
  let ?g = "unat (GRANULE_SIZE A)"
  have "b + of_nat (8 * i) = b' + of_nat (8 * i')"
    using assms(6) by (simp add: frame_cell_def)
  then have eq: "unat b + 8 * i = unat b' + 8 * i'"
    using frame_cell_phys(1) [OF assms(1,2,3)] frame_cell_phys(1) [OF assms(1,4,5)] by metis
  have i: "8 * i < ?g" "8 * i' < ?g"
    using GRANULE_SIZE_words(1) [OF assms(1)] assms(3,5) by simp_all
  have d: "?g dvd unat b" "?g dvd unat b'" using assms(2,4) by (simp_all add: frame_ok_def)
  have "\<not> unat b < unat b'" using multiples_apart [OF d] eq i by linarith
  moreover have "\<not> unat b' < unat b" using multiples_apart [OF d(2,1)] eq i by linarith
  ultimately have "unat b = unat b'" by linarith
  then show ?thesis using eq usize_eqI by auto
qed

section \<open>The words of frames\<close>

definition frame_word :: "PhysMap \<Rightarrow> mem \<Rightarrow> paddr \<Rightarrow> nat \<Rightarrow> usize" where
  "frame_word pm mem b i = mem_word mem (frame_cell pm b i)"

lemma frame_read:
  assumes "wf_arch A" "wf_physmap pm" "frame_ok A pm b" "i < frame_words A"
  shows "arch_read mem (frame_cell pm b i) = Some (frame_word pm mem b i)"
  using frame_cell_virt(2,3) [OF assms] by (simp add: arch_read_Some frame_word_def)

lemma frame_write:
  assumes "wf_arch A" "wf_physmap pm" "frame_ok A pm b" "i < frame_words A"
  obtains mem' where "arch_write mem (frame_cell pm b i) v = Some mem'" "frame_word pm mem' b i = v"
    "\<And>b' i'. frame_ok A pm b' \<Longrightarrow> i' < frame_words A \<Longrightarrow> b' \<noteq> b \<or> i' \<noteq> i \<Longrightarrow>
       frame_word pm mem' b' i' = frame_word pm mem b' i'"
proof -
  obtain mem' where mem': "arch_write mem (frame_cell pm b i) v = Some mem'"
    "mem_word mem' (frame_cell pm b i) = v"
    "\<And>c. word_aligned c \<Longrightarrow> c \<noteq> frame_cell pm b i \<Longrightarrow> mem_word mem' c = mem_word mem c"
    using arch_write_Some [OF frame_cell_virt(2,3) [OF assms]] by metis
  show ?thesis
  proof (rule that)
    fix b' i' assume *: "frame_ok A pm b'" "i' < frame_words A" "b' \<noteq> b \<or> i' \<noteq> i"
    then have "frame_cell pm b' i' \<noteq> frame_cell pm b i"
      using frame_cell_inject [OF assms(1) *(1,2) assms(3,4)] by blast
    then show "frame_word pm mem' b' i' = frame_word pm mem b' i'"
      using mem'(3) frame_cell_virt(2) [OF assms(1,2) *(1,2)] by (simp add: frame_word_def)
  qed (use mem' in \<open>simp_all add: frame_word_def\<close>)
qed

lemma frame_zero:
  assumes "wf_arch A" "wf_physmap pm" "frame_ok A pm b"
  obtains mem' where "phys_to_virt pm b = Some (frame_cell pm b 0)"
    "arch_write_bytes mem (frame_cell pm b 0) 0 (GRANULE_SIZE A) = Some mem'"
    "\<And>i. i < frame_words A \<Longrightarrow> frame_word pm mem' b i = 0"
    "\<And>b' i'. frame_ok A pm b' \<Longrightarrow> i' < frame_words A \<Longrightarrow> b' \<noteq> b \<Longrightarrow>
       frame_word pm mem' b' i' = frame_word pm mem b' i'"
proof -
  let ?g = "unat (GRANULE_SIZE A)" and ?c = "frame_cell pm b 0"
  have w: "8 * frame_words A = ?g" "0 < ?g" using GRANULE_SIZE_words [OF assms(1)] by simp_all
  then have w0: "0 < frame_words A" by simp
  note c = frame_cell_virt [OF assms]
  have "unat (frame_cell pm b (frame_words A - 1)) = unat ?c + 8 * (frame_words A - 1)"
    by (rule c(4)) (use w0 in simp)
  moreover have "8 dvd unat (frame_cell pm b (frame_words A - 1))" using c(2) w0 by simp
  then have "unat (frame_cell pm b (frame_words A - 1)) + 8 \<le> 2 ^ 64"
    using usize_lt by (intro multiples_apart) simp_all
  ultimately have le: "unat ?c + ?g \<le> 2 ^ 64" using w w0 by simp
  have "8 dvd ?g" using w(1) by (metis dvd_triv_left)
  then obtain mem' where mem': "arch_write_bytes mem ?c 0 (GRANULE_SIZE A) = Some mem'"
    "\<And>d. word_aligned d \<Longrightarrow> unat ?c \<le> unat d \<Longrightarrow> unat d < unat ?c + ?g \<Longrightarrow> mem_word mem' d = 0"
    "\<And>d. word_aligned d \<Longrightarrow> \<not> (unat ?c \<le> unat d \<and> unat d < unat ?c + ?g) \<Longrightarrow>
       mem_word mem' d = mem_word mem d"
    using arch_write_bytes_zero [OF c(3) [OF w0] le c(2) [OF w0]] by metis
  show ?thesis
  proof (rule that)
    show "phys_to_virt pm b = Some ?c" using c(1) [OF w0] by simp
    show "arch_write_bytes mem ?c 0 (GRANULE_SIZE A) = Some mem'" by (rule mem'(1))
    show "frame_word pm mem' b i = 0" if "i < frame_words A" for i
      unfolding frame_word_def using c(2,4) [OF that] that w by (intro mem'(2)) linarith+
    fix b' i' assume *: "frame_ok A pm b'" "i' < frame_words A" "b' \<noteq> b"
    have "\<not> (unat ?c \<le> unat (frame_cell pm b' i') \<and> unat (frame_cell pm b' i') < unat ?c + ?g)"
    proof
      assume in_frame: "unat ?c \<le> unat (frame_cell pm b' i') \<and> unat (frame_cell pm b' i') < unat ?c + ?g"
      define j where "j = (unat (frame_cell pm b' i') - unat ?c) div 8"
      have "8 dvd unat (frame_cell pm b' i') - unat ?c"
        using frame_cell_virt(2) [OF assms(1,2) *(1,2)] c(2) [OF w0] by (rule dvd_diff_nat)
      then have j: "unat (frame_cell pm b' i') = unat ?c + 8 * j"
        using in_frame by (simp add: j_def)
      then have "j < frame_words A" using in_frame w by linarith
      then have "frame_cell pm b' i' = frame_cell pm b j"
        using c(4) [OF \<open>j < frame_words A\<close>] j by (intro usize_eqI) (simp only:)
      then show False
        using frame_cell_inject [OF assms(1) *(1,2) assms(3) \<open>j < frame_words A\<close>] *(3) by simp
    qed
    then show "frame_word pm mem' b' i' = frame_word pm mem b' i'"
      using mem'(3) frame_cell_virt(2) [OF assms(1,2) *(1,2)] by (simp add: frame_word_def)
  qed
qed

section \<open>The contract of table allocation\<close>

text \<open>
  \<open>fa_owned\<close> is the set of granule-sized frames the allocator has handed out. Allocating a granule
  returns, with an error that leaves the set alone or with a fresh, usable frame.
\<close>

locale granule_allocator =
  fixes A :: arch and pm :: PhysMap
    and fa :: "'a frame_allocator"
    and fa_inv :: "'a \<Rightarrow> bool"
    and fa_owned :: "'a \<Rightarrow> paddr set"
  assumes alloc_granule: "fa_inv s \<Longrightarrow>
    \<exists>r s'. fa_allocate_contiguous fa (GRANULE_LAYOUT A) s = Some (r, s') \<and> fa_inv s' \<and>
      (case r of
         Inl e \<Rightarrow> fa_owned s' = fa_owned s
       | Inr p \<Rightarrow> frame_ok A pm p \<and> p \<notin> fa_owned s \<and> fa_owned s' = insert p (fa_owned s))"
    and owned_frame_ok: "fa_inv s \<Longrightarrow> f \<in> fa_owned s \<Longrightarrow> frame_ok A pm f"
begin

lemma alloc_zeroed_granule:
  assumes "wf_arch A" "wf_physmap pm" "fa_inv s"
  obtains (Err) e s' where "allocate_contiguous_zeroed fa pm (GRANULE_LAYOUT A) (mem, s) = Some (Inl e, (mem, s'))"
      "fa_inv s'" "fa_owned s' = fa_owned s"
  | (Ok) p mem' s' where "allocate_contiguous_zeroed fa pm (GRANULE_LAYOUT A) (mem, s) = Some (Inr p, (mem', s'))"
      "fa_inv s'" "frame_ok A pm p" "p \<notin> fa_owned s" "fa_owned s' = insert p (fa_owned s)"
      "\<And>i. i < frame_words A \<Longrightarrow> frame_word pm mem' p i = 0"
      "\<And>b i. frame_ok A pm b \<Longrightarrow> i < frame_words A \<Longrightarrow> b \<noteq> p \<Longrightarrow>
         frame_word pm mem' b i = frame_word pm mem b i"
proof -
  obtain r s' where r: "fa_allocate_contiguous fa (GRANULE_LAYOUT A) s = Some (r, s')" "fa_inv s'"
    "case r of Inl e \<Rightarrow> fa_owned s' = fa_owned s
     | Inr p \<Rightarrow> frame_ok A pm p \<and> p \<notin> fa_owned s \<and> fa_owned s' = insert p (fa_owned s)"
    using alloc_granule [OF assms(3)] by blast
  show ?thesis
  proof (cases r)
    case (Inl e)
    then show ?thesis
      using r by (intro Err [of e s']) (simp_all add: allocate_contiguous_zeroed_def)
  next
    case (Inr p)
    then have p: "frame_ok A pm p" "p \<notin> fa_owned s" "fa_owned s' = insert p (fa_owned s)"
      using r(3) by simp_all
    obtain mem' where mem': "phys_to_virt pm p = Some (frame_cell pm p 0)"
      "arch_write_bytes mem (frame_cell pm p 0) 0 (GRANULE_SIZE A) = Some mem'"
      "\<And>i. i < frame_words A \<Longrightarrow> frame_word pm mem' p i = 0"
      "\<And>b' i'. frame_ok A pm b' \<Longrightarrow> i' < frame_words A \<Longrightarrow> b' \<noteq> p \<Longrightarrow>
         frame_word pm mem' b' i' = frame_word pm mem b' i'"
      using frame_zero [OF assms(1,2) p(1)] by metis
    show ?thesis
      by (rule Ok [of p mem' s'])
        (use Inr r p mem' in \<open>simp_all add: allocate_contiguous_zeroed_def GRANULE_LAYOUT_def\<close>)
  qed
qed

end

text \<open>An allocator that also takes frames back.\<close>

locale granule_deallocator = granule_allocator A pm fa fa_inv fa_owned
  for A :: arch and pm :: PhysMap and fa :: "'a frame_allocator" and fa_inv :: "'a \<Rightarrow> bool" and fa_owned :: "'a \<Rightarrow> paddr set" +
  assumes dealloc_granule: "fa_inv s \<Longrightarrow> c \<in> fa_owned s \<Longrightarrow>
    \<exists>s'. fa_deallocate fa c (GRANULE_LAYOUT A) s = Some s' \<and> fa_inv s' \<and> fa_owned s' = fa_owned s - {c}"

end
