(* ===== verification/Page_Table.thy ===== *)
theory Page_Table
  imports Frame_Allocator Array_Vec
begin

text \<open>
  \<^verbatim>\<open>lib/mem-mmu/src/table.rs\<close> and \<^verbatim>\<open>lib/mem-mmu/src/utils.rs\<close>: page tables in memory, the iterator
  over the entries a range covers, and the walk that calls a \<open>Visitor\<close>. A table is its base
  address and depth; its entries live in memory and are reached through the physical memory map.
  A visitor is a record of its three methods over a state that contains the memory.
\<close>

section \<open>Tables\<close>

record Table =
  tb_base :: paddr
  tb_depth :: nat

definition table_from_raw_parts :: "paddr \<Rightarrow> nat \<Rightarrow> Table" where
  "table_from_raw_parts base depth = \<lparr>tb_base = base, tb_depth = depth\<rparr>"

definition table_entry_address :: "Table \<Rightarrow> nat \<Rightarrow> PhysMap \<Rightarrow> vaddr option" where
  "table_entry_address t index pm =
     do {
       off \<leftarrow> usize_mul (of_nat index) 8;
       entry_phys \<leftarrow> addr_add (tb_base t) off;
       phys_to_virt pm entry_phys
     }"

definition table_get :: "Table \<Rightarrow> nat \<Rightarrow> PhysMap \<Rightarrow> mem \<Rightarrow> pte option" where
  "table_get t index pm mem =
     do {
       entry_virt \<leftarrow> table_entry_address t index pm;
       arch_read mem entry_virt
     }"

definition table_set :: "arch \<Rightarrow> Table \<Rightarrow> nat \<Rightarrow> pte \<Rightarrow> PhysMap \<Rightarrow> mem \<Rightarrow> mem option" where
  "table_set A t index entry pm mem =
     do {
       lv \<leftarrow> level_at A (tb_depth t);
       debug_assert (index < lv_entries lv);
       entry_virt \<leftarrow> table_entry_address t index pm;
       arch_write mem entry_virt entry
     }"

text \<open>The search \<open>(0..entries).all(..)\<close> stops at the first entry that is not vacant.\<close>

fun table_all_vacant :: "Table \<Rightarrow> nat list \<Rightarrow> PhysMap \<Rightarrow> mem \<Rightarrow> bool option" where
  "table_all_vacant t [] pm mem = Some True"
| "table_all_vacant t (i # is) pm mem =
     do {
       e \<leftarrow> table_get t i pm mem;
       if pte_is_vacant e then table_all_vacant t is pm mem else Some False
     }"

definition table_is_empty :: "arch \<Rightarrow> Table \<Rightarrow> PhysMap \<Rightarrow> mem \<Rightarrow> bool option" where
  "table_is_empty A t pm mem =
     do {
       lv \<leftarrow> level_at A (tb_depth t);
       table_all_vacant t [0 ..< lv_entries lv] pm mem
     }"

definition table_allocate :: "'a frame_allocator \<Rightarrow> arch \<Rightarrow> PhysMap \<Rightarrow> (mem \<times> 'a, AllocError, Table) act" where
  "table_allocate fa A pm =
     act_bind (allocate_contiguous_zeroed fa pm (GRANULE_LAYOUT A))
       (\<lambda>base. act_ok \<lparr>tb_base = base, tb_depth = 0\<rparr>)"

definition table_deallocate :: "'a frame_allocator \<Rightarrow> arch \<Rightarrow> Table \<Rightarrow> 'a \<Rightarrow> 'a option" where
  "table_deallocate fa A t s = fa_deallocate fa (tb_base t) (GRANULE_LAYOUT A) s"

section \<open>The entries a range covers\<close>

text \<open>\<open>pe_iter\<close> holds the indices that the inclusive range iterator has left.\<close>

record PageTableEntries =
  pe_iter :: "nat list"
  pe_page_start :: vaddr
  pe_max :: vaddr
  pe_page_size :: usize

definition page_table_entries_for :: "arch \<Rightarrow> addr_range \<Rightarrow> PageTableLevel \<Rightarrow> PageTableEntries option" where
  "page_table_entries_for A r lv =
     do {
       debug_assert (addr_is_canonical (VIRTUAL_ADDRESS_BITS A) (range_start r) \<and>
                     addr_is_canonical (VIRTUAL_ADDRESS_BITS A) (range_end r));
       let va_mask = push_bit (VIRTUAL_ADDRESS_BITS A) 1 - 1;
       table_span \<leftarrow> usize_mul (of_nat (lv_entries lv)) (level_page_size lv);
       end1 \<leftarrow> addr_sub (range_end r) 1;
       debug_assert ((range_start r XOR end1) AND va_mask < table_span);
       first \<leftarrow> pte_index_of lv (range_start r);
       last \<leftarrow> pte_index_of lv end1;
       Some \<lparr>pe_iter = [first ..< Suc last], pe_page_start = range_start r, pe_max = range_end r,
             pe_page_size = level_page_size lv\<rparr>
     }"

definition entries_next ::
  "arch \<Rightarrow> PageTableEntries \<Rightarrow> ((nat \<times> addr_range) option \<times> PageTableEntries) option" where
  "entries_next A it =
     (case pe_iter it of
        [] \<Rightarrow> Some (None, it)
      | entry_index # rest \<Rightarrow> do {
          slot_start \<leftarrow> addr_align_down (pe_page_start it) (pe_page_size it);
          let slot_end = addr_saturating_add slot_start (pe_page_size it);
          let page_range = range_of (pe_page_start it) (min slot_end (pe_max it));
          if range_is_empty page_range then Some (None, it\<lparr>pe_iter := rest\<rparr>)
          else Some (Some (entry_index, page_range),
                     it\<lparr>pe_iter := rest,
                        pe_page_start := addr_canonicalize (VIRTUAL_ADDRESS_BITS A) (range_end page_range)\<rparr>)
        })"

text \<open>The \<open>for\<close> loop over the iterator, with a body that may return early with an error.\<close>

function for_entries ::
  "arch \<Rightarrow> PageTableEntries \<Rightarrow> (nat \<times> addr_range \<Rightarrow> ('s, 'e, unit) act) \<Rightarrow> ('s, 'e, unit) act" where
  "for_entries A it body =
     (case entries_next A it of
        None \<Rightarrow> (\<lambda>s. None)
      | Some (None, it') \<Rightarrow> act_ok ()
      | Some (Some x, it') \<Rightarrow> act_bind (body x) (\<lambda>_. for_entries A it' body))"
  by pat_completeness auto
termination
  by (relation "measure (\<lambda>(A, it, body). length (pe_iter it))")
    (auto simp: entries_next_def bind_eq_Some_conv split: list.splits if_splits)

declare for_entries.simps [simp del]

section \<open>Visitors and walks\<close>

record ('s, 'e) visitor =
  v_descend :: "Table \<Rightarrow> nat \<Rightarrow> ('s, 'e, paddr option) act"
  v_ascend :: "Table \<Rightarrow> nat \<Rightarrow> paddr \<Rightarrow> nat \<Rightarrow> ('s, 'e, unit) act"
  v_fill :: "Table \<Rightarrow> nat \<Rightarrow> nat \<Rightarrow> vaddr \<Rightarrow> ('s, 'e, unit) act"

definition default_descend :: "PhysMap \<Rightarrow> Table \<Rightarrow> nat \<Rightarrow> (mem \<times> 'v, 'e, paddr option) act" where
  "default_descend pm t index = (\<lambda>(mem, vs).
     do {
       entry \<leftarrow> table_get t index pm mem;
       debug_assert (\<not> pte_is_vacant entry);
       if pte_is_table entry then Some (Inr (Some (pte_address entry)), (mem, vs))
       else Some (Inr None, (mem, vs))
     })"

definition default_ascend :: "Table \<Rightarrow> nat \<Rightarrow> paddr \<Rightarrow> nat \<Rightarrow> ('s, 'e, unit) act" where
  "default_ascend t index child_base child_depth = act_ok ()"

text \<open>
  The two walks; \<open>D\<close> is \<open><A as MapsAt<S>>::DEPTH\<close>. The recursion stops at the leaf depth, or with the
  panic of \<open>A::LEVELS[depth]\<close> out of bounds.
\<close>

function visit_leaf :: "arch \<Rightarrow> nat \<Rightarrow> ('s, 'e) visitor \<Rightarrow> Table \<Rightarrow> vaddr \<Rightarrow> ('s, 'e, unit) act" where
  "visit_leaf A D v t va =
     (case level_at A (tb_depth t) of
        None \<Rightarrow> (\<lambda>s. None)
      | Some lv \<Rightarrow>
         (case pte_index_of lv va of
            None \<Rightarrow> (\<lambda>s. None)
          | Some index \<Rightarrow>
              if tb_depth t = D then v_fill v t index 1 va
              else act_bind (v_descend v t index) (\<lambda>child.
                case child of
                  None \<Rightarrow> act_ok ()
                | Some child_base \<Rightarrow>
                    act_bind (visit_leaf A D v (table_from_raw_parts child_base (tb_depth t + 1)) va)
                      (\<lambda>_. v_ascend v t index child_base (tb_depth t + 1)))))"
  by pat_completeness auto
termination
  by (relation "measure (\<lambda>(A, D, v, t, va). length (LEVELS A) - tb_depth t)")
    (auto simp: level_at_def table_from_raw_parts_def split: if_splits)

function visit_range :: "arch \<Rightarrow> nat \<Rightarrow> ('s, 'e) visitor \<Rightarrow> Table \<Rightarrow> addr_range \<Rightarrow> ('s, 'e, unit) act" where
  "visit_range A D v t r =
     (case level_at A (tb_depth t) of
        None \<Rightarrow> (\<lambda>s. None)
      | Some lv \<Rightarrow>
          if tb_depth t = D then
            (case (do {
                     first \<leftarrow> pte_index_of lv (range_start r);
                     end1 \<leftarrow> addr_sub (range_end r) 1;
                     last \<leftarrow> pte_index_of lv end1;
                     n \<leftarrow> nat_sub last first;
                     Some (first, n + 1)
                   }) of
               None \<Rightarrow> (\<lambda>s. None)
             | Some (first, count) \<Rightarrow> v_fill v t first count (range_start r))
          else
            (case page_table_entries_for A r lv of
               None \<Rightarrow> (\<lambda>s. None)
             | Some entries \<Rightarrow> for_entries A entries (\<lambda>(index, sub_range).
                 act_bind (v_descend v t index) (\<lambda>child.
                   case child of
                     None \<Rightarrow> act_ok ()
                   | Some child_base \<Rightarrow>
                       act_bind (visit_range A D v (table_from_raw_parts child_base (tb_depth t + 1)) sub_range)
                         (\<lambda>_. v_ascend v t index child_base (tb_depth t + 1))))))"
  by pat_completeness auto
termination
  by (relation "measure (\<lambda>(A, D, v, t, r). length (LEVELS A) - tb_depth t)")
    (auto simp: level_at_def table_from_raw_parts_def split: if_splits)

declare visit_leaf.simps [simp del] visit_range.simps [simp del]

definition table_visit ::
  "arch \<Rightarrow> PageSize \<Rightarrow> nat \<Rightarrow> ('s, 'e) visitor \<Rightarrow> Table \<Rightarrow> addr_range \<Rightarrow> ('s, 'e, unit) act" where
  "table_visit A S D v t r =
     (case range_len r of
        None \<Rightarrow> (\<lambda>s. None)
      | Some n \<Rightarrow> if n = page_BYTES S then visit_leaf A D v t (range_start r)
                 else visit_range A D v t r)"

end
