(* ===== verification/Flush.thy ===== *)
theory Flush
  imports Array_Vec Address_Range
begin

text \<open>
  \<^verbatim>\<open>lib/mem-mmu/src/flush.rs\<close>: the record of address ranges whose translations changed. The fences
  that \<open>flush\<close> issues are collected as a list of events.
\<close>

datatype Flush = Flush_Ranges "addr_range ArrayVec" | Flush_All

datatype fence_event = Fence addr_range | FenceAll

abbreviation (input) Flush_CAP :: nat where "Flush_CAP \<equiv> 16"

definition flush_new :: Flush where
  "flush_new = Flush_Ranges (av_new Flush_CAP)"

definition flush_invalidate :: "addr_range \<Rightarrow> Flush \<Rightarrow> Flush option" where
  "flush_invalidate rng f =
     (case f of
        Flush_Ranges ranges \<Rightarrow> do {
          (r, ranges') \<leftarrow> av_try_push rng ranges;
          Some (case r of Inl _ \<Rightarrow> Flush_All | Inr _ \<Rightarrow> Flush_Ranges ranges')
        }
      | Flush_All \<Rightarrow> Some Flush_All)"

definition flush_invalidate_all :: "Flush \<Rightarrow> Flush" where
  "flush_invalidate_all f = Flush_All"

text \<open>The loop \<open>for range in ranges\<close> over the owning iterator.\<close>

function flush_ranges :: "addr_range IntoIter \<Rightarrow> fence_event list option" where
  "flush_ranges it =
     (case iter_next it of
        None \<Rightarrow> None
      | Some (None, it') \<Rightarrow> Some []
      | Some (Some rng, it') \<Rightarrow> map_option ((#) (Fence rng)) (flush_ranges it'))"
  by pat_completeness auto
termination
  by (relation "measure (\<lambda>it. av_len (it_vec it) - it_index it)")
    (auto simp: iter_next_def bind_eq_Some_conv split: if_splits)

definition flush_flush :: "Flush \<Rightarrow> fence_event list option" where
  "flush_flush f =
     (case f of
        Flush_Ranges ranges \<Rightarrow> flush_ranges (av_into_iter ranges)
      | Flush_All \<Rightarrow> Some [FenceAll])"

definition flush_ignore :: "Flush \<Rightarrow> fence_event list" where
  "flush_ignore f = []"

section \<open>What a flush covers\<close>

declare flush_ranges.simps [simp del]

text \<open>A flush in a sound state covers an address when a fence of its will cover it.\<close>

definition wf_flush :: "Flush \<Rightarrow> bool" where
  "wf_flush f = (case f of Flush_Ranges rs \<Rightarrow> av_as_slice rs \<noteq> None | Flush_All \<Rightarrow> True)"

definition flush_covers :: "Flush \<Rightarrow> nat set \<Rightarrow> bool" where
  "flush_covers f ns =
     (case f of
        Flush_Ranges rs \<Rightarrow> ns \<subseteq> (\<Union>r \<in> set (the (av_as_slice rs)). range_nat r)
      | Flush_All \<Rightarrow> True)"

lemma flush_covers_all [simp]: "flush_covers Flush_All ns" "wf_flush Flush_All"
  by (simp_all add: flush_covers_def wf_flush_def)

lemma flush_covers_empty [simp]: "flush_covers f {}"
  by (simp add: flush_covers_def split: Flush.splits)

lemma wf_flush_new [simp]: "wf_flush flush_new"
  by (simp add: wf_flush_def flush_new_def)

lemma flush_invalidate_covers:
  assumes "wf_flush f"
  obtains f' where "flush_invalidate r f = Some f'" "wf_flush f'"
    "\<And>ns. flush_covers f ns \<Longrightarrow> flush_covers f' (ns \<union> range_nat r)"
proof (cases f)
  case (Flush_Ranges rs)
  then obtain xs where xs: "av_as_slice rs = Some xs"
    using assms by (auto simp: wf_flush_def)
  show ?thesis
  proof (cases "length xs < av_capacity rs")
    case True
    then obtain rs' where rs': "av_try_push r rs = Some (Inr (), rs')" "av_as_slice rs' = Some (xs @ [r])"
      using av_try_push_room [OF xs] by blast
    show ?thesis
      by (rule that [of "Flush_Ranges rs'"]) (use Flush_Ranges xs rs' in \<open>auto simp: flush_invalidate_def wf_flush_def flush_covers_def\<close>)
  next
    case False
    show ?thesis
      by (rule that [of Flush_All]) (use Flush_Ranges av_try_push_full [OF xs False] in \<open>simp_all add: flush_invalidate_def\<close>)
  qed
next
  case Flush_All
  then show ?thesis
    by (intro that [of Flush_All]) (simp_all add: flush_invalidate_def)
qed

lemma flush_ranges_events:
  assumes "iter_rest it = Some xs"
  shows "flush_ranges it = Some (map Fence xs)"
  using assms
proof (induction xs arbitrary: it)
  case Nil
  then show ?case by (subst flush_ranges.simps) (simp add: it.next_Nil)
next
  case (Cons x xs)
  obtain it' where "iter_next it = Some (Some x, it')" "iter_rest it' = Some xs"
    using it.next_Cons [OF Cons(2)] by blast
  then show ?case
    using Cons(1) [of it'] by (subst flush_ranges.simps) simp
qed

lemma flush_flush_Ranges:
  assumes "av_as_slice rs = Some xs"
  shows "flush_flush (Flush_Ranges rs) = Some (map Fence xs)"
proof -
  have "iter_rest (av_into_iter rs) = Some xs"
    using assms by (simp add: iter_rest_def av_into_iter_def slots_slice_plus av_as_slice_iff)
  then show ?thesis
    by (simp add: flush_flush_def flush_ranges_events)
qed

lemma flush_flush_All: "flush_flush Flush_All = Some [FenceAll]"
  by (simp add: flush_flush_def)

text \<open>A client's sequence of calls.\<close>

datatype flush_op = Invalidate addr_range | InvalidateAll

fun flush_run :: "flush_op list \<Rightarrow> Flush \<Rightarrow> Flush option" where
  "flush_run [] f = Some f"
| "flush_run (Invalidate r # ops) f = do { f' \<leftarrow> flush_invalidate r f; flush_run ops f' }"
| "flush_run (InvalidateAll # ops) f = flush_run ops (flush_invalidate_all f)"

fun op_ranges :: "flush_op list \<Rightarrow> addr_range list" where
  "op_ranges [] = []"
| "op_ranges (Invalidate r # ops) = r # op_ranges ops"
| "op_ranges (InvalidateAll # ops) = op_ranges ops"

lemma av_capacity_new: "av_capacity (av_new n) = n"
  by (simp add: av_new_def)

lemma flush_run_All: "flush_run ops Flush_All = Some Flush_All"
  by (induction ops rule: op_ranges.induct) (simp_all add: flush_invalidate_def flush_invalidate_all_def)

lemma flush_run_Ranges:
  assumes "av_as_slice rs = Some xs" "av_capacity rs = Flush_CAP"
  shows "\<exists>f. flush_run ops (Flush_Ranges rs) = Some f \<and>
           (if InvalidateAll \<in> set ops \<or> Flush_CAP < length xs + length (op_ranges ops) then f = Flush_All
            else \<exists>rs'. f = Flush_Ranges rs' \<and> av_as_slice rs' = Some (xs @ op_ranges ops))"
  using assms
proof (induction ops arbitrary: rs xs rule: op_ranges.induct)
  case 1
  then show ?case using av_as_slice_length [of rs xs] by simp
next
  case (2 r ops)
  show ?case
  proof (cases "length xs < av_capacity rs")
    case True
    then obtain rs' where rs': "av_try_push r rs = Some (Inr (), rs')" "av_as_slice rs' = Some (xs @ [r])"
      "av_capacity rs' = Flush_CAP"
      using av_try_push_room [OF 2(2)] 2(3) by metis
    then show ?thesis
      using 2(1) [OF rs'(2,3)] by (auto simp: flush_invalidate_def split: if_splits)
  next
    case False
    then show ?thesis
      using av_try_push_full [OF 2(2) False] 2(3) by (simp add: flush_invalidate_def flush_run_All)
  qed
next
  case (3 ops)
  then show ?case by (simp add: flush_invalidate_all_def flush_run_All)
qed

section \<open>Properties\<close>

text \<open>
  C12. However a fresh flush is used, no call panics, and flushing it fences exactly the
  invalidated ranges, in order, or the whole address space: the latter as soon as \<open>invalidate_all\<close> was called once or
  more than 16 ranges were recorded, whatever is invalidated afterwards. So no
  recorded range is ever lost.
\<close>

theorem flush_fences_everything:
  "\<exists>f. flush_run ops flush_new = Some f \<and>
     flush_flush f = Some (if InvalidateAll \<in> set ops \<or> 16 < length (op_ranges ops)
                           then [FenceAll] else map Fence (op_ranges ops))"
proof -
  obtain f where f: "flush_run ops flush_new = Some f"
    "if InvalidateAll \<in> set ops \<or> 16 < length (op_ranges ops) then f = Flush_All
     else \<exists>rs'. f = Flush_Ranges rs' \<and> av_as_slice rs' = Some (op_ranges ops)"
    using flush_run_Ranges [OF av_new_slice av_capacity_new, of ops, unfolded append_Nil list.size add_0]
    unfolding flush_new_def by blast
  then show ?thesis
    by (auto simp: flush_flush_Ranges flush_flush_All split: if_splits)
qed

end
