(* ===== verification/Address_Space.thy ===== *)
theory Address_Space
  imports Page_Table Flush
begin

text \<open>
  \<^verbatim>\<open>lib/mem-mmu/src/address_space.rs\<close>: lookup, the four visitors and the operations that map, remap,
  protect and unmap ranges of a hardware address space. The state of an operation is the
  memory, the allocator and the flush; the address space itself is its architecture and root table.
\<close>

section \<open>Lookup\<close>

record HardwareAddressSpace =
  as_arch :: arch
  as_root_page_table :: Table

definition address_space_new ::
  "'a frame_allocator \<Rightarrow> arch \<Rightarrow> PhysMap \<Rightarrow> (mem \<times> 'a, AllocError, HardwareAddressSpace) act" where
  "address_space_new fa A pm =
     act_bind (table_allocate fa A pm) (\<lambda>t. act_ok \<lparr>as_arch = A, as_root_page_table = t\<rparr>)"

definition address_space_into_raw_parts :: "HardwareAddressSpace \<Rightarrow> (arch \<times> paddr) option" where
  "address_space_into_raw_parts sp =
     do {
       debug_assert (tb_depth (as_root_page_table sp) = 0);
       Some (as_arch sp, tb_base (as_root_page_table sp))
     }"

text \<open>The loop over \<open>A::LEVELS\<close>; the last argument is the levels still to come.\<close>

fun lookup_levels ::
  "arch \<Rightarrow> PhysMap \<Rightarrow> mem \<Rightarrow> vaddr \<Rightarrow> Table \<Rightarrow> PageTableLevel list \<Rightarrow>
     (paddr \<times> MemoryAttributes \<times> PageTableLevel) option option" where
  "lookup_levels A pm mem virt t [] = None"
| "lookup_levels A pm mem virt t (lv # lvs) =
     do {
       entry_index \<leftarrow> pte_index_of lv virt;
       entry \<leftarrow> table_get t entry_index pm mem;
       if pte_is_table entry then do {
         debug_assert (tb_depth t + 1 < length (LEVELS A));
         lookup_levels A pm mem virt (table_from_raw_parts (pte_address entry) (tb_depth t + 1)) lvs
       } else if pte_is_leaf entry then do {
         m \<leftarrow> usize_sub (level_page_size lv) 1;
         let lower_bits = virt AND m;
         attributes \<leftarrow> pte_attributes entry;
         Some (Some (pte_address entry OR lower_bits, attributes, lv))
       } else do {
         debug_assert (pte_is_vacant entry);
         Some None
       }
     }"

definition lookup ::
  "HardwareAddressSpace \<Rightarrow> PhysMap \<Rightarrow> mem \<Rightarrow> vaddr \<Rightarrow>
     (paddr \<times> MemoryAttributes \<times> PageTableLevel) option option" where
  "lookup sp pm mem virt =
     lookup_levels (as_arch sp) pm mem virt (as_root_page_table sp) (LEVELS (as_arch sp))"

section \<open>Filling a run of leaf entries\<close>

text \<open>
  The loop \<open>for _ in 0..count\<close> that all four \<open>fill\<close> methods have: read the entry, compute its
  replacement, write it, move to the next entry. \<open>step\<close> is what differs between them, with the
  part of the visitor it updates as \<open>'x\<close>.
\<close>

fun fill_loop :: "('x \<Rightarrow> pte \<Rightarrow> (pte \<times> 'x) option) \<Rightarrow> nat \<Rightarrow> vaddr \<Rightarrow> 'x \<Rightarrow> mem \<Rightarrow> ('x \<times> mem) option" where
  "fill_loop step 0 entry_virt x mem = Some (x, mem)"
| "fill_loop step (Suc n) entry_virt x mem =
     do {
       old \<leftarrow> arch_read mem entry_virt;
       (new, x') \<leftarrow> step x old;
       mem' \<leftarrow> arch_write mem entry_virt new;
       entry_virt' \<leftarrow> addr_add entry_virt 8;
       fill_loop step n entry_virt' x' mem'
     }"

definition map_step :: "PageSize \<Rightarrow> MemoryAttributes \<Rightarrow> paddr \<Rightarrow> pte \<Rightarrow> (pte \<times> paddr) option" where
  "map_step S attributes phys old =
     do {
       debug_assert (pte_is_vacant old);
       leaf \<leftarrow> pte_new_leaf phys attributes;
       phys' \<leftarrow> addr_add phys (page_BYTES S);
       Some (leaf, phys')
     }"

definition remap_step :: "PageSize \<Rightarrow> paddr \<Rightarrow> pte \<Rightarrow> (pte \<times> paddr) option" where
  "remap_step S phys old =
     do {
       debug_assert (pte_is_leaf old);
       attributes \<leftarrow> pte_attributes old;
       new \<leftarrow> pte_new_leaf phys attributes;
       phys' \<leftarrow> addr_add phys (page_BYTES S);
       Some (new, phys')
     }"

definition set_attributes_step :: "MemoryAttributes \<Rightarrow> unit \<Rightarrow> pte \<Rightarrow> (pte \<times> unit) option" where
  "set_attributes_step attributes u old =
     do {
       debug_assert (pte_is_leaf old);
       new \<leftarrow> pte_new_leaf (pte_address old) attributes;
       Some (new, ())
     }"

definition unmap_step :: "unit \<Rightarrow> pte \<Rightarrow> (pte \<times> unit) option" where
  "unmap_step u old =
     do {
       debug_assert (pte_is_leaf old);
       Some (pte_VACANT, ())
     }"

text \<open>The invalidation that ends every \<open>fill\<close>: \<open>count\<close> pages from \<open>va\<close>.\<close>

definition fill_invalidate :: "PageSize \<Rightarrow> vaddr \<Rightarrow> nat \<Rightarrow> Flush \<Rightarrow> Flush option" where
  "fill_invalidate S va count flush =
     do {
       n \<leftarrow> usize_mul (of_nat count) (page_BYTES S);
       r \<leftarrow> range_from_start_len va n;
       flush_invalidate r flush
     }"

section \<open>The visitors\<close>

record 'a MapVisitor =
  mv_phys :: paddr
  mv_attributes :: MemoryAttributes
  mv_frame_allocator :: 'a
  mv_flush :: Flush

definition map_descend ::
  "'a frame_allocator \<Rightarrow> arch \<Rightarrow> PhysMap \<Rightarrow> Table \<Rightarrow> nat \<Rightarrow> (mem \<times> 'a MapVisitor, AllocError, paddr option) act" where
  "map_descend fa A pm t index = (\<lambda>(mem, v).
     do {
       entry \<leftarrow> table_get t index pm mem;
       if pte_is_table entry then Some (Inr (Some (pte_address entry)), (mem, v))
       else do {
         debug_assert (pte_is_vacant entry);
         (r, (mem1, al)) \<leftarrow> allocate_contiguous_zeroed fa pm (GRANULE_LAYOUT A) (mem, mv_frame_allocator v);
         (case r of
            Inl e \<Rightarrow> Some (Inl e, (mem1, v\<lparr>mv_frame_allocator := al\<rparr>))
          | Inr frame \<Rightarrow> do {
              entry' \<leftarrow> pte_new_table frame;
              mem2 \<leftarrow> table_set A t index entry' pm mem1;
              Some (Inr (Some frame),
                (mem2, v\<lparr>mv_frame_allocator := al, mv_flush := flush_invalidate_all (mv_flush v)\<rparr>))
            })
       }
     })"

definition map_fill ::
  "arch \<Rightarrow> PhysMap \<Rightarrow> PageSize \<Rightarrow> Table \<Rightarrow> nat \<Rightarrow> nat \<Rightarrow> vaddr \<Rightarrow> (mem \<times> 'a MapVisitor, AllocError, unit) act" where
  "map_fill A pm S t first count va = (\<lambda>(mem, v).
     do {
       lv \<leftarrow> level_at A (tb_depth t);
       debug_assert (first + count \<le> lv_entries lv);
       entry_virt \<leftarrow> table_entry_address t first pm;
       (phys, mem') \<leftarrow> fill_loop (map_step S (mv_attributes v)) count entry_virt (mv_phys v) mem;
       flush \<leftarrow> fill_invalidate S va count (mv_flush v);
       Some (Inr (), (mem', v\<lparr>mv_phys := phys, mv_flush := flush\<rparr>))
     })"

definition map_visitor ::
  "'a frame_allocator \<Rightarrow> arch \<Rightarrow> PhysMap \<Rightarrow> PageSize \<Rightarrow> (mem \<times> 'a MapVisitor, AllocError) visitor" where
  "map_visitor fa A pm S =
     \<lparr>v_descend = map_descend fa A pm, v_ascend = default_ascend, v_fill = map_fill A pm S\<rparr>"

record RemapVisitor =
  rv_phys :: paddr
  rv_flush :: Flush

definition remap_fill ::
  "PhysMap \<Rightarrow> PageSize \<Rightarrow> Table \<Rightarrow> nat \<Rightarrow> nat \<Rightarrow> vaddr \<Rightarrow> (mem \<times> RemapVisitor, 'e, unit) act" where
  "remap_fill pm S t first count va = (\<lambda>(mem, v).
     do {
       entry_virt \<leftarrow> table_entry_address t first pm;
       (phys, mem') \<leftarrow> fill_loop (remap_step S) count entry_virt (rv_phys v) mem;
       flush \<leftarrow> fill_invalidate S va count (rv_flush v);
       Some (Inr (), (mem', v\<lparr>rv_phys := phys, rv_flush := flush\<rparr>))
     })"

definition remap_visitor :: "PhysMap \<Rightarrow> PageSize \<Rightarrow> (mem \<times> RemapVisitor, 'e) visitor" where
  "remap_visitor pm S =
     \<lparr>v_descend = default_descend pm, v_ascend = default_ascend, v_fill = remap_fill pm S\<rparr>"

record SetAttributesVisitor =
  sv_attributes :: MemoryAttributes
  sv_flush :: Flush

definition set_attributes_fill ::
  "PhysMap \<Rightarrow> PageSize \<Rightarrow> Table \<Rightarrow> nat \<Rightarrow> nat \<Rightarrow> vaddr \<Rightarrow> (mem \<times> SetAttributesVisitor, 'e, unit) act" where
  "set_attributes_fill pm S t first count va = (\<lambda>(mem, v).
     do {
       entry_virt \<leftarrow> table_entry_address t first pm;
       (_, mem') \<leftarrow> fill_loop (set_attributes_step (sv_attributes v)) count entry_virt () mem;
       flush \<leftarrow> fill_invalidate S va count (sv_flush v);
       Some (Inr (), (mem', v\<lparr>sv_flush := flush\<rparr>))
     })"

definition set_attributes_visitor :: "PhysMap \<Rightarrow> PageSize \<Rightarrow> (mem \<times> SetAttributesVisitor, 'e) visitor" where
  "set_attributes_visitor pm S =
     \<lparr>v_descend = default_descend pm, v_ascend = default_ascend, v_fill = set_attributes_fill pm S\<rparr>"

record 'a UnmapVisitor =
  uv_frame_allocator :: 'a
  uv_flush :: Flush

definition unmap_ascend ::
  "'a frame_allocator \<Rightarrow> arch \<Rightarrow> PhysMap \<Rightarrow> Table \<Rightarrow> nat \<Rightarrow> paddr \<Rightarrow> nat \<Rightarrow> (mem \<times> 'a UnmapVisitor, 'e, unit) act" where
  "unmap_ascend fa A pm t index child_base child_depth = (\<lambda>(mem, v).
     do {
       let child = table_from_raw_parts child_base child_depth;
       empty \<leftarrow> table_is_empty A child pm mem;
       if empty then do {
         mem' \<leftarrow> table_set A t index pte_VACANT pm mem;
         al \<leftarrow> fa_deallocate fa child_base (GRANULE_LAYOUT A) (uv_frame_allocator v);
         Some (Inr (), (mem', v\<lparr>uv_frame_allocator := al, uv_flush := flush_invalidate_all (uv_flush v)\<rparr>))
       } else Some (Inr (), (mem, v))
     })"

definition unmap_fill ::
  "PhysMap \<Rightarrow> PageSize \<Rightarrow> Table \<Rightarrow> nat \<Rightarrow> nat \<Rightarrow> vaddr \<Rightarrow> (mem \<times> 'a UnmapVisitor, 'e, unit) act" where
  "unmap_fill pm S t first count va = (\<lambda>(mem, v).
     do {
       entry_virt \<leftarrow> table_entry_address t first pm;
       (_, mem') \<leftarrow> fill_loop unmap_step count entry_virt () mem;
       flush \<leftarrow> fill_invalidate S va count (uv_flush v);
       Some (Inr (), (mem', v\<lparr>uv_flush := flush\<rparr>))
     })"

definition unmap_visitor ::
  "'a frame_allocator \<Rightarrow> arch \<Rightarrow> PhysMap \<Rightarrow> PageSize \<Rightarrow> (mem \<times> 'a UnmapVisitor, 'e) visitor" where
  "unmap_visitor fa A pm S =
     \<lparr>v_descend = default_descend pm, v_ascend = unmap_ascend fa A pm, v_fill = unmap_fill pm S\<rparr>"

section \<open>The operations\<close>

text \<open>The assertion that a range spans at least a page and starts at a page boundary.\<close>

definition assert_pages :: "PageSize \<Rightarrow> addr_range \<Rightarrow> unit option" where
  "assert_pages S virt =
     do {
       n \<leftarrow> range_len virt;
       debug_assert (n \<ge> page_BYTES S);
       ok \<leftarrow> addr_is_aligned_to (range_start virt) (page_BYTES S);
       debug_assert ok
     }"

definition assert_aligned :: "PageSize \<Rightarrow> usize \<Rightarrow> unit option" where
  "assert_aligned S a =
     do {
       ok \<leftarrow> addr_is_aligned_to a (page_BYTES S);
       debug_assert ok
     }"

definition map_contiguous ::
  "'a frame_allocator \<Rightarrow> PhysMap \<Rightarrow> PageSize \<Rightarrow> HardwareAddressSpace \<Rightarrow> addr_range \<Rightarrow> paddr \<Rightarrow>
     MemoryAttributes \<Rightarrow> (mem \<times> 'a \<times> Flush, AllocError, unit) act" where
  "map_contiguous fa pm S sp virt phys attributes = (\<lambda>(mem, al, flush).
     do {
       D \<leftarrow> leaf_depth_of (as_arch sp) S;
       assert_pages S virt;
       assert_aligned S (range_end virt);
       assert_aligned S phys;
       (r, (mem', v)) \<leftarrow> table_visit (as_arch sp) S D (map_visitor fa (as_arch sp) pm S)
         (as_root_page_table sp) virt
         (mem, \<lparr>mv_phys = phys, mv_attributes = attributes, mv_frame_allocator = al, mv_flush = flush\<rparr>);
       Some (r, (mem', mv_frame_allocator v, mv_flush v))
     })"

fun map_blocks ::
  "'a frame_allocator \<Rightarrow> PhysMap \<Rightarrow> PageSize \<Rightarrow> HardwareAddressSpace \<Rightarrow> addr_range \<Rightarrow> addr_range list \<Rightarrow>
     MemoryAttributes \<Rightarrow> (mem \<times> 'a \<times> Flush, AllocError, unit) act" where
  "map_blocks fa pm S sp virt [] attributes = act_ok ()"
| "map_blocks fa pm S sp virt (block_phys # phys) attributes =
     (case (do {
              debug_assert (\<not> range_is_empty virt);
              n \<leftarrow> range_len block_phys;
              r \<leftarrow> range_from_start_len (range_start virt) n;
              start' \<leftarrow> addr_add (range_start virt) n;
              Some (r, start')
            }) of
        None \<Rightarrow> (\<lambda>s. None)
      | Some (r, start') \<Rightarrow>
          act_bind (map_contiguous fa pm S sp r (range_start block_phys) attributes)
            (\<lambda>_. map_blocks fa pm S sp (virt\<lparr>range_start := start'\<rparr>) phys attributes))"

definition remap_contiguous ::
  "PhysMap \<Rightarrow> PageSize \<Rightarrow> HardwareAddressSpace \<Rightarrow> addr_range \<Rightarrow> paddr \<Rightarrow> (mem \<times> Flush, AllocError, unit) act" where
  "remap_contiguous pm S sp virt phys = (\<lambda>(mem, flush).
     do {
       D \<leftarrow> leaf_depth_of (as_arch sp) S;
       assert_pages S virt;
       assert_aligned S phys;
       (r, (mem', v)) \<leftarrow> table_visit (as_arch sp) S D (remap_visitor pm S)
         (as_root_page_table sp) virt (mem, \<lparr>rv_phys = phys, rv_flush = flush\<rparr>);
       Some (r, (mem', rv_flush v))
     })"

fun remap_blocks ::
  "PhysMap \<Rightarrow> PageSize \<Rightarrow> HardwareAddressSpace \<Rightarrow> addr_range \<Rightarrow> addr_range list \<Rightarrow>
     (mem \<times> Flush, AllocError, unit) act" where
  "remap_blocks pm S sp virt [] = act_ok ()"
| "remap_blocks pm S sp virt (block_phys # phys) =
     (case (do {
              debug_assert (\<not> range_is_empty virt);
              n \<leftarrow> range_len block_phys;
              r \<leftarrow> range_from_start_len (range_start virt) n;
              start' \<leftarrow> addr_add (range_start virt) n;
              Some (r, start')
            }) of
        None \<Rightarrow> (\<lambda>s. None)
      | Some (r, start') \<Rightarrow>
          act_bind (remap_contiguous pm S sp r (range_start block_phys))
            (\<lambda>_. remap_blocks pm S sp (virt\<lparr>range_start := start'\<rparr>) phys))"

definition set_attributes ::
  "PhysMap \<Rightarrow> PageSize \<Rightarrow> HardwareAddressSpace \<Rightarrow> addr_range \<Rightarrow> MemoryAttributes \<Rightarrow>
     (mem \<times> Flush, AllocError, unit) act" where
  "set_attributes pm S sp virt attributes = (\<lambda>(mem, flush).
     do {
       D \<leftarrow> leaf_depth_of (as_arch sp) S;
       assert_pages S virt;
       (r, (mem', v)) \<leftarrow> table_visit (as_arch sp) S D (set_attributes_visitor pm S)
         (as_root_page_table sp) virt (mem, \<lparr>sv_attributes = attributes, sv_flush = flush\<rparr>);
       Some (r, (mem', sv_flush v))
     })"

definition unmap ::
  "'a frame_allocator \<Rightarrow> PhysMap \<Rightarrow> PageSize \<Rightarrow> HardwareAddressSpace \<Rightarrow> addr_range \<Rightarrow>
     (mem \<times> 'a \<times> Flush, AllocError, unit) act" where
  "unmap fa pm S sp virt = (\<lambda>(mem, al, flush).
     do {
       D \<leftarrow> leaf_depth_of (as_arch sp) S;
       assert_pages S virt;
       (r, (mem', v)) \<leftarrow> table_visit (as_arch sp) S D (unmap_visitor fa (as_arch sp) pm S)
         (as_root_page_table sp) virt (mem, \<lparr>uv_frame_allocator = al, uv_flush = flush\<rparr>);
       Some (r, (mem', uv_frame_allocator v, uv_flush v))
     })"

definition map_identity ::
  "'a frame_allocator \<Rightarrow> PhysMap \<Rightarrow> PageSize \<Rightarrow> HardwareAddressSpace \<Rightarrow> addr_range \<Rightarrow>
     MemoryAttributes \<Rightarrow> (mem \<times> 'a \<times> Flush, AllocError, unit) act" where
  "map_identity fa pm S sp phys attributes =
     (let virt = range_of (range_start phys) (range_end phys)
      in map_contiguous fa pm S sp virt (range_start phys) attributes)"

end
