(* ===== verification/Page_Walk.thy ===== *)
theory Page_Walk
  imports Page_Table
begin

text \<open>
  The arithmetic of the walk of \<^verbatim>\<open>lib/mem-mmu/src/table.rs\<close>: how the entry iterator of
  \<^verbatim>\<open>lib/mem-mmu/src/utils.rs\<close> cuts a range into the slots of a table, and why the fast path for a single
  page does what the general walk does. Ranges are intervals of natural numbers here.
\<close>

section \<open>Cutting a range at the slots of a level\<close>

function slot_ranges :: "PageTableLevel \<Rightarrow> nat \<Rightarrow> nat \<Rightarrow> (nat \<times> nat \<times> nat) list" where
  "slot_ranges lv s e =
     (if s < e
      then let e' = min e (round_down s (lv_span lv) + lv_span lv)
           in (lv_index lv s, s, e') # slot_ranges lv e' e
      else [])"
  by pat_completeness auto
termination
  by (relation "measure (\<lambda>(lv, s, e). e - s)") (auto simp: min_def round_down_gt intro!: diff_less_mono2)

declare slot_ranges.simps [simp del]

abbreviation range_nn :: "nat \<Rightarrow> nat \<Rightarrow> addr_range" where
  "range_nn s e \<equiv> range_of (of_nat s) (of_nat e)"

fun for_list :: "('x \<Rightarrow> ('s, 'e, unit) act) \<Rightarrow> 'x list \<Rightarrow> ('s, 'e, unit) act" where
  "for_list body [] = act_ok ()"
| "for_list body (x # xs) = act_bind (body x) (\<lambda>_. for_list body xs)"

text \<open>A non-empty range inside one canonical half of the address space.\<close>

definition in_half :: "arch \<Rightarrow> nat \<Rightarrow> nat \<Rightarrow> bool" where
  "in_half A s e \<longleftrightarrow>
     s < e \<and> e < 2 ^ 64 \<and>
     (e \<le> 2 ^ (VIRTUAL_ADDRESS_BITS A - 1) \<or> 2 ^ 64 - 2 ^ (VIRTUAL_ADDRESS_BITS A - 1) \<le> s)"

text \<open>A range that one table of the level spans.\<close>

definition in_table :: "PageTableLevel \<Rightarrow> nat \<Rightarrow> nat \<Rightarrow> bool" where
  "in_table lv s e \<longleftrightarrow>
     s < e \<and> (e - 1) div (lv_entries lv * lv_span lv) = s div (lv_entries lv * lv_span lv)"

lemma in_half_sub: "in_half A s e \<Longrightarrow> s \<le> s' \<Longrightarrow> s' < e' \<Longrightarrow> e' \<le> e \<Longrightarrow> in_half A s' e'"
  by (auto simp: in_half_def)

lemma in_table_sub:
  assumes "in_table lv s e" "s \<le> s'" "s' < e'" "e' \<le> e"
  shows "in_table lv s' e'"
proof -
  let ?T = "lv_entries lv * lv_span lv"
  have "s div ?T \<le> s' div ?T" "s' div ?T \<le> (e' - 1) div ?T" "(e' - 1) div ?T \<le> (e - 1) div ?T"
    using assms(2-4) by (auto intro!: div_le_mono)
  then show ?thesis using assms by (simp add: in_table_def)
qed

lemma in_half_canonical:
  assumes "wf_arch A" "in_half A s e" "s \<le> a" "a < e"
  shows "addr_canonicalize (VIRTUAL_ADDRESS_BITS A) (of_nat a) = of_nat a"
proof -
  have "unat (of_nat a :: usize) = a"
    using assms(2,4) by (intro unat_of_nat_usize) (simp add: in_half_def)
  then show ?thesis
    using canonicalize_fixed_iff [OF VIRTUAL_ADDRESS_BITS_bounds [OF assms(1)], of "of_nat a"] assms(2-4)
    by (auto simp: in_half_def)
qed

lemma in_half_is_canonical:
  assumes "wf_arch A" "in_half A s e"
  shows "addr_is_canonical (VIRTUAL_ADDRESS_BITS A) (of_nat s)"
    "addr_is_canonical (VIRTUAL_ADDRESS_BITS A) (of_nat e)"
proof -
  let ?v = "VIRTUAL_ADDRESS_BITS A"
  have u: "unat (of_nat s :: usize) = s" "unat (of_nat e :: usize) = e"
    using assms(2) by (auto intro!: unat_of_nat_usize simp: in_half_def)
  have v: "(2::nat) ^ ?v = 2 * 2 ^ (?v - 1)"
    using VIRTUAL_ADDRESS_BITS_bounds(1) [OF assms(1)] by (cases ?v) simp_all
  show "addr_is_canonical ?v (of_nat s)" "addr_is_canonical ?v (of_nat e)"
    using assms(2) VIRTUAL_ADDRESS_BITS_bounds(2) [OF assms(1)]
    unfolding is_canonical_iff [OF VIRTUAL_ADDRESS_BITS_bounds(2) [OF assms(1)]] u v in_half_def
    by linarith+
qed

lemma xor_same_block:
  assumes "unat a div 2 ^ k = unat b div 2 ^ k"
  shows "unat ((a XOR b) AND m :: usize) < 2 ^ k"
  unfolding unat_less_pow2_iff
proof (intro allI impI)
  fix n assume n: "k \<le> n \<and> n < 64"
  have "bit (unat a) n = bit (unat a div 2 ^ k) (n - k)" for a :: usize
    using n by (simp add: bit_iff_odd div_mult2_eq [symmetric] power_add [symmetric])
  then have "bit (unat a) n = bit (unat b) n"
    using assms by simp
  then have "bit a n = bit b n"
    using n by (simp add: bit_unsigned_iff)
  then show "\<not> bit ((a XOR b) AND m) n" by (simp add: bit_simps)
qed

lemma addr_sub_1:
  assumes "0 < n" "n < 2 ^ 64"
  obtains e1 where "addr_sub (of_nat n) 1 = Some e1" "unat e1 = n - 1"
proof -
  have n: "unat (of_nat n :: usize) = n"
    using assms(2) by (rule unat_of_nat_usize)
  have n1: "unat (of_nat (n - 1) :: usize) = n - 1"
    by (rule unat_of_nat_usize) (use assms(2) in linarith)
  have "addr_sub (of_nat n) 1 = Some (of_nat (n - 1))"
    unfolding addr_sub_eq_Some n n1 using assms(1) by simp
  then show ?thesis
    using that n1 by blast
qed

section \<open>The iterator is the cut\<close>

lemma lv_index_next_slot:
  assumes "wf_level lv" "in_table lv s e" "round_down s (lv_span lv) + lv_span lv < e"
  shows "lv_index lv (round_down s (lv_span lv) + lv_span lv) = Suc (lv_index lv s)"
proof -
  let ?sp = "lv_span lv" and ?n = "lv_entries lv"
  let ?s' = "round_down s ?sp + ?sp"
  have sp: "0 < ?sp" by simp
  have q: "?s' div ?sp = Suc (s div ?sp)" by (simp add: round_down_def)
  have "s < ?s'" by (rule round_down_gt) simp
  then have "in_table lv ?s' e" using in_table_sub [OF assms(2), of ?s' e] assms(3) by simp
  moreover have "(e - 1) div (?n * ?sp) = s div (?n * ?sp)"
    using assms(2) by (simp add: in_table_def)
  ultimately have "?s' div (?n * ?sp) = s div (?n * ?sp)"
    by (simp add: in_table_def)
  then have "Suc (s div ?sp) div ?n = s div ?sp div ?n"
    by (metis q div_mult2_eq mult.commute)
  then have "Suc (s div ?sp) mod ?n = Suc (s div ?sp mod ?n)"
    by (auto simp: div_Suc mod_Suc split: if_splits)
  then show ?thesis
    by (simp only: lv_index_def q)
qed

lemma lv_index_last_slot:
  assumes "e \<le> round_down s (lv_span lv) + lv_span lv" "s < e"
  shows "lv_index lv (e - 1) = lv_index lv s"
proof -
  have "s div lv_span lv \<le> (e - 1) div lv_span lv" using assms(2) by (intro div_le_mono) simp
  moreover have "(e - 1) div lv_span lv < Suc (s div lv_span lv)"
    using assms by (intro less_mult_imp_div_less) (simp add: round_down_def mult.commute)
  ultimately have "(e - 1) div lv_span lv = s div lv_span lv" by linarith
  then show ?thesis by (simp only: lv_index_def)
qed

lemma entries_next_slot:
  assumes A: "wf_arch A" and lv: "wf_level lv" and h: "in_half A s e"
    and it: "pe_iter it = i # rest" "pe_page_start it = of_nat s" "pe_max it = of_nat e"
      "pe_page_size it = level_page_size lv"
  defines "e' \<equiv> min e (round_down s (lv_span lv) + lv_span lv)"
  shows "entries_next A it =
     Some (Some (i, range_nn s e'),
           it\<lparr>pe_iter := rest, pe_page_start := addr_canonicalize (VIRTUAL_ADDRESS_BITS A) (of_nat e')\<rparr>)"
proof -
  have u: "unat (of_nat s :: usize) = s" "unat (of_nat e :: usize) = e"
    using h by (auto intro!: unat_of_nat_usize simp: in_half_def)
  define d :: usize where "d = of_nat (round_down s (lv_span lv))"
  have "round_down s (lv_span lv) < 2 ^ 64"
    using h round_down_le [of s "lv_span lv"] unfolding in_half_def by linarith
  then have d2: "unat d = round_down s (lv_span lv)"
    unfolding d_def by (rule unat_of_nat_usize)
  then have d: "addr_align_down (of_nat s) (level_page_size lv) = Some d"
    using lv by (simp only: addr_align_down_eq_Some level_page_size_pow2 u level_page_size_nat)
  let ?m = "min (addr_saturating_add d (level_page_size lv)) (of_nat e)"
  have m: "unat ?m = e'"
  proof -
    have sa: "unat (addr_saturating_add d (level_page_size lv)) =
        min (round_down s (lv_span lv) + lv_span lv) (2 ^ 64 - 1)"
      using lv by (simp only: addr_saturating_add_nat d2 level_page_size_nat)
    have e64: "e \<le> 2 ^ 64 - 1" using h by (simp add: in_half_def)
    have "unat ?m = min (unat (addr_saturating_add d (level_page_size lv))) e"
      unfolding min_def word_le_nat_alt u by (simp add: u)
    also have "\<dots> = e'" unfolding sa e'_def using e64 by linarith
    finally show ?thesis .
  qed
  have "s < e'" using h round_down_gt [of "lv_span lv" s] by (simp add: e'_def in_half_def)
  moreover have "?m = of_nat e'"
    unfolding m [symmetric] by simp
  ultimately show ?thesis
    using it d m u(1)
    by (simp add: entries_next_def range_is_empty_def range_of_def word_le_nat_alt)
qed

lemma lv_index_mono:
  assumes "u \<le> v" "u div (lv_entries lv * lv_span lv) = v div (lv_entries lv * lv_span lv)"
  shows "lv_index lv u \<le> lv_index lv v"
proof -
  let ?q = "\<lambda>v. v div lv_span lv"
  have "?q u div lv_entries lv = ?q v div lv_entries lv"
    using assms(2) by (simp add: div_mult2_eq [symmetric] mult.commute)
  moreover have "?q u \<le> ?q v" using assms(1) by (rule div_le_mono)
  ultimately show ?thesis
    unfolding lv_index_def
    by (metis add_le_cancel_left div_mult_mod_eq)
qed

lemma for_entries_slots:
  assumes "wf_arch A" "wf_level lv" "in_half A s e" "in_table lv s e"
    "pe_iter it = [lv_index lv s ..< Suc (lv_index lv (e - 1))]" "pe_page_start it = of_nat s"
    "pe_max it = of_nat e" "pe_page_size it = level_page_size lv"
  shows "for_entries A it body = for_list (\<lambda>(i, s', e'). body (i, range_nn s' e')) (slot_ranges lv s e)"
  using assms
proof (induction lv s e arbitrary: it rule: slot_ranges.induct)
  case (1 lv s e)
  let ?b = "round_down s (lv_span lv) + lv_span lv" and ?i = "lv_index lv s"
  let ?e' = "min e ?b"
  have se: "s < e" using 1(4) by (simp add: in_half_def)
  have le: "?i \<le> lv_index lv (e - 1)"
    using 1(5) by (intro lv_index_mono) (auto simp: in_table_def)
  then have iter: "pe_iter it = ?i # [Suc ?i ..< Suc (lv_index lv (e - 1))]"
    using 1(6) by (simp add: upt_conv_Cons del: upt_Suc)
  let ?it' = "it\<lparr>pe_iter := [Suc ?i ..< Suc (lv_index lv (e - 1))],
    pe_page_start := addr_canonicalize (VIRTUAL_ADDRESS_BITS A) (of_nat ?e')\<rparr>"
  have nx: "entries_next A it = Some (Some (?i, range_nn s ?e'), ?it')"
    using 1(2-4,7-9) iter by (intro entries_next_slot) auto
  have rec: "for_entries A ?it' body =
      for_list (\<lambda>(i, s', e'). body (i, range_nn s' e')) (slot_ranges lv ?e' e)"
  proof (cases "e \<le> ?b")
    case True
    then have "lv_index lv (e - 1) = ?i" using se by (rule lv_index_last_slot)
    then have "for_entries A ?it' body = act_ok ()"
      by (subst for_entries.simps) (simp add: entries_next_def)
    then show ?thesis
      using True by (simp add: min_absorb1 slot_ranges.simps [of lv e])
  next
    case False
    then have e': "?e' = ?b" "?b < e" by simp_all
    have sb: "s < ?b" by (rule round_down_gt) simp
    show ?thesis
    proof (rule 1(1) [OF se refl 1(2,3)])
      show "in_half A ?e' e" "in_table lv ?e' e"
        using e' sb 1(4,5) by (auto intro: in_half_sub in_table_sub)
      show "pe_iter ?it' = [lv_index lv ?e' ..< Suc (lv_index lv (e - 1))]"
        using lv_index_next_slot [OF 1(3,5) e'(2)] e'(1) by (simp del: upt_Suc)
      show "pe_page_start ?it' = of_nat ?e'"
        using in_half_canonical [OF 1(2,4), of ?b] e' sb by simp
    qed (use 1(8,9) in simp_all)
  qed
  show ?case
    by (subst for_entries.simps, subst slot_ranges.simps) (simp add: nx rec se del: upt_Suc One_nat_def)
qed

lemma page_table_entries_for_slots:
  assumes "wf_arch A" "lv \<in> set (LEVELS A)" "in_half A s e" "in_table lv s e"
  obtains it where "page_table_entries_for A (range_nn s e) lv = Some it"
    "\<And>body :: nat \<times> addr_range \<Rightarrow> ('s, 'e, unit) act. for_entries A it body =
       for_list (\<lambda>(i, s', e'). body (i, range_nn s' e')) (slot_ranges lv s e)"
proof -
  have lv: "wf_level lv" using assms(1,2) wf_arch_levels(3) by blast
  have se: "s < e" "e < 2 ^ 64" using assms(3) by (simp_all add: in_half_def)
  have u: "unat (of_nat s :: usize) = s" "unat (of_nat e :: usize) = e"
    using se by (auto intro!: unat_of_nat_usize)
  let ?k = "ilog2 (lv_entries lv) + lv_index_shift lv"
  have k: "?k < 64" "lv_entries lv * lv_span lv = 2 ^ ?k"
    using lv lv_table_span [OF lv] by (simp_all add: wf_level_def)
  then have "lv_entries lv * lv_span lv < 2 ^ 64"
    by (simp only: power_strict_increasing_iff)
  moreover have "lv_entries lv < 2 ^ 64"
  proof -
    have "(2::nat) ^ ilog2 (lv_entries lv) < 2 ^ 64"
      using k(1) by (intro power_strict_increasing) simp_all
    then show ?thesis using lv by (metis wf_level_def)
  qed
  ultimately obtain sp where sp: "usize_mul (of_nat (lv_entries lv)) (level_page_size lv) = Some sp"
    "unat sp = 2 ^ ?k"
    using lv k(2) by (auto simp: usize_mul_def unat_of_nat_usize unat_mul_usize)
  obtain e1 where e1: "addr_sub (of_nat e) 1 = Some e1" "unat e1 = e - 1"
    using addr_sub_1 [of e] se by auto
  have "(of_nat s XOR e1) AND (push_bit (VIRTUAL_ADDRESS_BITS A) 1 - 1) < sp"
    unfolding word_less_nat_alt sp(2)
    using assms(4) k(2) by (intro xor_same_block) (simp add: in_table_def u e1(2))
  then have it: "page_table_entries_for A (range_nn s e) lv =
      Some \<lparr>pe_iter = [lv_index lv s ..< Suc (lv_index lv (e - 1))], pe_page_start = of_nat s,
        pe_max = of_nat e, pe_page_size = level_page_size lv\<rparr>"
    using in_half_is_canonical [OF assms(1,3)] e1 sp(1) u
    by (simp add: page_table_entries_for_def range_of_def pte_index_of_Some [OF lv] del: upt_Suc)
  show ?thesis
    by (rule that [OF it]) (simp add: for_entries_slots [OF assms(1) lv assms(3,4)] del: upt_Suc)
qed

section \<open>The sub-ranges of the cut\<close>

lemma slot_ranges_Cons:
  assumes "s < e"
  shows "slot_ranges lv s e =
     (lv_index lv s, s, min e (round_down s (lv_span lv) + lv_span lv)) #
     slot_ranges lv (min e (round_down s (lv_span lv) + lv_span lv)) e"
  using assms by (subst slot_ranges.simps) simp

lemma slot_ranges_Nil [simp]: "\<not> s < e \<Longrightarrow> slot_ranges lv s e = []"
  by (subst slot_ranges.simps) simp

lemma slot_end_bounds:
  assumes "s < e"
  shows "s < min e (round_down s (lv_span lv) + lv_span lv)"
    "min e (round_down s (lv_span lv) + lv_span lv) \<le> e"
    "(min e (round_down s (lv_span lv) + lv_span lv) - 1) div lv_span lv = s div lv_span lv"
proof -
  let ?b = "round_down s (lv_span lv) + lv_span lv"
  have sb: "s < ?b" by (rule round_down_gt) simp
  then show "s < min e ?b" "min e ?b \<le> e" using assms by simp_all
  have "(min e ?b - 1) div lv_span lv < Suc (s div lv_span lv)"
    using sb by (intro less_mult_imp_div_less) (auto simp: round_down_def mult.commute)
  moreover have "s div lv_span lv \<le> (min e ?b - 1) div lv_span lv"
    using sb assms by (intro div_le_mono) simp
  ultimately show "(min e ?b - 1) div lv_span lv = s div lv_span lv" by linarith
qed

lemma slot_ranges_single:
  assumes "s < e" "e \<le> round_down s (lv_span lv) + lv_span lv"
  shows "slot_ranges lv s e = [(lv_index lv s, s, e)]"
  using assms by (simp add: slot_ranges_Cons min_absorb1)

section \<open>The levels below a level\<close>

lemma wf_levels_nth:
  assumes "wf_levels lvs" "Suc i < length lvs"
  shows "lv_span (lvs ! i) = lv_entries (lvs ! Suc i) * lv_span (lvs ! Suc i)"
  using assms
proof (induction lvs arbitrary: i rule: wf_levels.induct)
  case (3 lv lv' lvs)
  then show ?case by (cases i) auto
qed auto

lemma lv_span_dvd:
  assumes "wf_levels lvs" "j < length lvs" "i \<le> j"
  shows "lv_span (lvs ! j) dvd lv_span (lvs ! i)"
  using assms(3,2)
proof (induction j rule: dec_induct)
  case (step n)
  then have "lv_span (lvs ! Suc n) dvd lv_span (lvs ! n)"
    using wf_levels_nth [OF assms(1), of n] by simp
  then show ?case using step by (auto intro: dvd_trans)
qed simp

lemma page_in_block:
  assumes "d dvd T" "d dvd s" "0 < (d::nat)"
  shows "(s + d - 1) div T = s div T"
proof -
  obtain q m where qm: "s = d * q" "T = d * m" using assms(1,2) by (auto elim!: dvdE)
  have "(s + d - 1) div d = q"
    using assms(3) qm(1) by (intro div_nat_eqI) simp_all
  then show ?thesis
    using assms(3) qm by (simp add: div_mult2_eq)
qed

text \<open>A page of the leaf level lies in one slot of every level above.\<close>

lemma page_in_table:
  assumes "wf_arch A" "D < length (LEVELS A)" "d \<le> D" "lv_span (LEVELS A ! D) dvd s"
  shows "in_table (LEVELS A ! d) s (s + lv_span (LEVELS A ! D))"
    "d < D \<Longrightarrow> slot_ranges (LEVELS A ! d) s (s + lv_span (LEVELS A ! D)) =
       [(lv_index (LEVELS A ! d) s, s, s + lv_span (LEVELS A ! D))]"
proof -
  let ?d = "lv_span (LEVELS A ! D)" and ?lv = "LEVELS A ! d"
  have dvd: "?d dvd lv_span ?lv"
    using lv_span_dvd wf_arch_levels(1) assms(1-3) by blast
  then show "in_table ?lv s (s + ?d)"
    using page_in_block [of ?d "lv_entries ?lv * lv_span ?lv" s] assms(4) by (simp add: in_table_def)
  have "?d dvd round_down s (lv_span ?lv) + lv_span ?lv"
    using dvd dvd_round(1) by (meson dvd_add dvd_trans)
  then have "s + ?d \<le> round_down s (lv_span ?lv) + lv_span ?lv"
    using assms(4) round_down_gt [of "lv_span ?lv" s] by (intro multiples_apart) simp_all
  then show "slot_ranges ?lv s (s + ?d) = [(lv_index ?lv s, s, s + ?d)]"
    by (intro slot_ranges_single) simp_all
qed

lemma act_bind_ok [simp]: "act_bind m act_ok = m"
  by (auto simp: act_bind_def act_ok_def fun_eq_iff split: option.splits sum.splits)

lemma level_at_Some: "d < length (LEVELS A) \<Longrightarrow> level_at A d = Some (LEVELS A ! d)"
  by (simp add: level_at_def)

lemma visit_leaf_is_visit_range:
  assumes "wf_arch A" "D < length (LEVELS A)" "tb_depth t \<le> D"
    "lv_span (LEVELS A ! D) dvd s" "in_half A s (s + lv_span (LEVELS A ! D))"
  shows "visit_leaf A D v t (of_nat s) = visit_range A D v t (range_nn s (s + lv_span (LEVELS A ! D)))"
  using assms(3)
proof (induction "D - tb_depth t" arbitrary: t)
  case 0
  let ?lv = "LEVELS A ! D" and ?d = "lv_span (LEVELS A ! D)"
  have D: "tb_depth t = D" using 0 by simp
  have lv: "wf_level ?lv" using wf_arch_levels(3) assms(1,2) by simp
  have u: "unat (of_nat s :: usize) = s" "unat (of_nat (s + ?d) :: usize) = s + ?d"
    using assms(5) by (auto intro!: unat_of_nat_usize simp only: in_half_def)
  obtain e1 where e1: "addr_sub (of_nat (s + ?d)) 1 = Some e1" "unat e1 = s + ?d - 1"
  proof (rule addr_sub_1)
    show "0 < s + ?d" by simp
    show "s + ?d < 2 ^ 64" using assms(5) by (simp only: in_half_def)
  qed
  have "lv_index ?lv (s + ?d - 1) = lv_index ?lv s"
    using assms(4) by (intro lv_index_last_slot) simp_all
  then show ?case
    using e1 u D assms(2)
    by (simp add: visit_leaf.simps visit_range.simps level_at_Some pte_index_of_Some [OF lv]
        range_of_def nat_sub_def)
next
  case (Suc n)
  let ?lv = "LEVELS A ! tb_depth t" and ?d = "lv_span (LEVELS A ! D)"
  have d: "tb_depth t < D" using Suc(2) by simp
  have lv: "wf_level ?lv" using wf_arch_levels(3) assms(1,2) d by simp
  have u: "unat (of_nat s :: usize) = s"
    using assms(5) by (auto intro!: unat_of_nat_usize simp: in_half_def)
  have mem: "?lv \<in> set (LEVELS A)" using d assms(2) by simp
  note pt = page_in_table [OF assms(1,2) less_imp_le [OF d] assms(4)]
  have IH: "visit_leaf A D v (table_from_raw_parts c (Suc (tb_depth t))) (of_nat s) =
      visit_range A D v (table_from_raw_parts c (Suc (tb_depth t))) (range_nn s (s + ?d))" for c
    using Suc(1) [of "table_from_raw_parts c (Suc (tb_depth t))"] Suc(2) d
    by (simp add: table_from_raw_parts_def)
  obtain it where it: "page_table_entries_for A (range_nn s (s + ?d)) ?lv = Some it"
    "\<And>body :: nat \<times> addr_range \<Rightarrow> ('a, 'b, unit) act. for_entries A it body =
       for_list (\<lambda>(i, s', e'). body (i, range_nn s' e')) (slot_ranges ?lv s (s + ?d))"
    using page_table_entries_for_slots [OF assms(1) mem assms(5) pt(1)] by blast
  show ?case
    using d assms(2) u pt(2) [OF d]
    by (simp add: visit_leaf.simps [of A D v t] visit_range.simps [of A D v t] level_at_Some
        pte_index_of_Some [OF lv] it IH del: of_nat_add)
qed

section \<open>The entries of a range\<close>

lemma lv_index_same_slot:
  assumes "s \<le> v" "v < round_down s (lv_span lv) + lv_span lv"
  shows "lv_index lv v = lv_index lv s"
  using lv_index_last_slot [of "Suc v" s lv] assms by simp

lemma slot_ranges_index:
  assumes "wf_level lv" "in_table lv s e"
  shows "map fst (slot_ranges lv s e) = [lv_index lv s ..< Suc (lv_index lv (e - 1))] \<and>
         (\<forall>(i, s', e') \<in> set (slot_ranges lv s e).
            s' < e' \<and> e' \<le> e \<and> {s' ..< e'} = {v \<in> {s ..< e}. lv_index lv v = i})"
  using assms
proof (induction lv s e rule: slot_ranges.induct)
  case (1 lv s e)
  let ?b = "round_down s (lv_span lv) + lv_span lv" and ?i = "lv_index lv s"
  have se: "s < e" using 1(3) by (simp add: in_table_def)
  have sb: "s < ?b" by (rule round_down_gt) simp
  have same: "lv_index lv v = ?i" if "v \<in> {s ..< min e ?b}" for v
    using that by (intro lv_index_same_slot) auto
  show ?case
  proof (cases "e \<le> ?b")
    case True
    then have "lv_index lv v = ?i" if "v \<in> {s ..< e}" for v
      using same [of v] that by simp
    then have "{s ..< e} = {v \<in> {s ..< e}. lv_index lv v = ?i}"
      by blast
    then show ?thesis
      unfolding slot_ranges_single [OF se True] lv_index_last_slot [OF True se] using se by simp
  next
    case False
    then have e': "min e ?b = ?b" "?b < e" by simp_all
    have tab: "in_table lv ?b e" using in_table_sub [OF 1(3), of ?b e] sb e' by simp
    note IH = 1(1) [OF se refl 1(2), unfolded e', OF tab, unfolded lv_index_next_slot [OF 1(2,3) e'(2)]]
    have "Suc ?i \<le> lv_index lv (e - 1)"
      using lv_index_mono [of ?b "e - 1" lv] tab lv_index_next_slot [OF 1(2,3) e'(2)]
      by (auto simp: in_table_def)
    then have fsts: "map fst (slot_ranges lv s e) = [?i ..< Suc (lv_index lv (e - 1))]"
      using IH by (simp add: slot_ranges_Cons [OF se] e' upt_conv_Cons del: upt_Suc)
    have later: "lv_index lv v \<noteq> ?i" if "v \<in> {?b ..< e}" for v
    proof -
      have "in_table lv ?b (Suc v)" using in_table_sub [OF tab, of ?b "Suc v"] that by simp
      then have "lv_index lv ?b \<le> lv_index lv v"
        using that by (intro lv_index_mono) (auto simp: in_table_def)
      then show ?thesis using lv_index_next_slot [OF 1(2,3) e'(2)] by simp
    qed
    note same' = same [unfolded e'(1)]
    have lt: "v < ?b" if "v \<in> {s ..< e}" "lv_index lv v = ?i" for v
      by (rule ccontr) (use later [of v] that in simp)
    have first: "{s ..< ?b} = {v \<in> {s ..< e}. lv_index lv v = ?i}"
    proof (rule set_eqI)
      fix v show "v \<in> {s ..< ?b} \<longleftrightarrow> v \<in> {v \<in> {s ..< e}. lv_index lv v = ?i}"
        using same' [of v] lt [of v] e'(2) by auto
    qed
    have rest: "{v \<in> {?b ..< e}. lv_index lv v = i} = {v \<in> {s ..< e}. lv_index lv v = i}"
      if "(i, x) \<in> set (slot_ranges lv ?b e)" for i x
    proof -
      have "i \<in> set (map fst (slot_ranges lv ?b e))" using that by force
      then have "i \<noteq> ?i" using IH by (auto simp del: upt_Suc)
      then have ge: "?b \<le> v" if "v \<in> {s ..< e}" "lv_index lv v = i" for v
        by (intro leI notI) (use same' [of v] that in simp)
      show ?thesis
      proof (rule set_eqI)
        fix v show "v \<in> {v \<in> {?b ..< e}. lv_index lv v = i} \<longleftrightarrow> v \<in> {v \<in> {s ..< e}. lv_index lv v = i}"
          using ge [of v] sb by auto
      qed
    qed
    show ?thesis
      using fsts IH first rest sb e' by (auto simp: slot_ranges_Cons [OF se] simp del: upt_Suc)
  qed
qed

lemma for_list_collect:
  "for_list (\<lambda>x acc. Some (Inr (), acc @ [f x])) xs acc = Some (Inr (), acc @ map f xs)"
  by (induction xs arbitrary: acc) (simp_all add: act_ok_def)

lemma leaf_depth_of_span:
  assumes "wf_arch A" "leaf_depth_of A S = Some D"
  shows "D < length (LEVELS A)" "lv_span (LEVELS A ! D) = unat (page_BYTES S)"
proof -
  have "\<exists>lv. level_at A D = Some lv \<and> is_leaf_level S lv"
    using leaf_depth_loop_correct [of "LEVELS A" S 0] assms(2) by (auto simp: leaf_depth_of_def level_at_def)
  then have D: "D < length (LEVELS A)" "level_page_size (LEVELS A ! D) = page_BYTES S"
    by (auto simp: level_at_def is_leaf_level_def split: if_splits)
  show "D < length (LEVELS A)" by (rule D(1))
  have "wf_level (LEVELS A ! D)" using wf_arch_levels(3) [OF assms(1)] D(1) by simp
  then show "lv_span (LEVELS A ! D) = unat (page_BYTES S)"
    using D(2) level_page_size_nat by metis
qed

lemma in_half_unat:
  assumes "in_half A s e"
  shows "unat (of_nat s :: usize) = s" "unat (of_nat e :: usize) = e" "unat (of_nat (e - s) :: usize) = e - s"
  using assms by (auto intro!: unat_of_nat_usize simp: in_half_def simp del: of_nat_diff)

lemma range_len_nn: "in_half A s e \<Longrightarrow> range_len (range_nn s e) = Some (of_nat (e - s))"
  using in_half_unat [of A s e] by (simp add: range_len_nat range_of_def del: of_nat_diff)

text \<open>A range in one canonical half lies in the root table.\<close>

lemma in_half_in_table:
  assumes "wf_arch A" "in_half A s e"
  shows "in_table (LEVELS A ! 0) s e"
proof -
  let ?v = "VIRTUAL_ADDRESS_BITS A"
  have T: "lv_entries (LEVELS A ! 0) * lv_span (LEVELS A ! 0) = 2 ^ ?v"
    using VIRTUAL_ADDRESS_BITS_span [OF assms(1)] wf_arch_levels(2) [OF assms(1)] by (simp add: hd_conv_nth)
  have v: "0 < ?v" "?v < 64" using VIRTUAL_ADDRESS_BITS_bounds [OF assms(1)] by simp_all
  have h: "(2::nat) ^ ?v = 2 * 2 ^ (?v - 1)" using v(1) by (cases ?v) simp_all
  have p: "(2::nat) ^ 64 = 2 ^ (64 - ?v) * 2 ^ ?v" using v(2) by (simp flip: power_add)
  consider "e \<le> 2 ^ (?v - 1)" | "2 ^ 64 - 2 ^ (?v - 1) \<le> s" using assms(2) by (auto simp: in_half_def)
  then show ?thesis
  proof cases
    case 1
    then have "e - 1 < 2 ^ ?v" "s < 2 ^ ?v" using assms(2) h by (auto simp: in_half_def)
    then show ?thesis using assms(2) by (simp add: in_table_def T in_half_def)
  next
    case 2
    define k :: nat where "k = 2 ^ (64 - ?v) - 1"
    have "Suc k = 2 ^ (64 - ?v)" by (simp add: k_def)
    then have k: "(2::nat) ^ 64 = k * 2 ^ ?v + 2 ^ ?v" by (metis p mult_Suc add.commute)
    have *: "x div 2 ^ ?v = k" if "s \<le> x" "x < 2 ^ 64" for x
      by (rule div_nat_eqI) (use that 2 k h in \<open>simp_all add: mult.commute\<close>)
    have "s < e" "e < 2 ^ 64" using assms(2) by (simp_all add: in_half_def)
    then have "s div 2 ^ ?v = k" "(e - 1) div 2 ^ ?v = k" by (intro *; linarith)+
    then show ?thesis using \<open>s < e\<close> by (simp add: in_table_def T)
  qed
qed

text \<open>The fast path does what the general walk does.\<close>

lemma table_visit_is_visit_range:
  assumes "wf_arch A" "leaf_depth_of A S = Some D" "tb_depth t \<le> D"
    "unat (page_BYTES S) dvd s" "in_half A s e"
  shows "table_visit A S D v t (range_nn s e) = visit_range A D v t (range_nn s e)"
proof (cases "e = s + unat (page_BYTES S)")
  case True
  note D = leaf_depth_of_span [OF assms(1,2)]
  show ?thesis
    using visit_leaf_is_visit_range [OF assms(1) D(1) assms(3), of s v] assms(4,5) range_len_nn [OF assms(5)]
    unfolding D(2) True by (simp add: table_visit_def range_of_def)
next
  case False
  have "of_nat (e - s) \<noteq> page_BYTES S"
  proof
    assume "of_nat (e - s) = page_BYTES S"
    then have "e - s = unat (page_BYTES S)" using in_half_unat(3) [OF assms(5)] by metis
    moreover have "s < e" using assms(5) by (simp add: in_half_def)
    ultimately show False using False by linarith
  qed
  then show ?thesis using range_len_nn [OF assms(5)] by (simp add: table_visit_def del: of_nat_diff)
qed

section \<open>Properties\<close>

text \<open>
  C29. For a range in one canonical half that one table of a level spans, the entry iterator
  is built without a panic and yields each entry index from that of the first address to that of the
  last one once and in order, each with exactly the addresses of the range that belong to that
  entry: the sub-ranges partition the range.
\<close>

theorem page_table_entries_partition:
  assumes "wf_arch A" "lv \<in> set (LEVELS A)" "in_half A s e" "in_table lv s e"
  shows "\<exists>it xs. page_table_entries_for A (range_nn s e) lv = Some it \<and>
           for_entries A it (\<lambda>x acc. Some (Inr (), acc @ [x])) [] = Some (Inr () :: unit + unit, xs) \<and>
           map fst xs = [lv_index lv s ..< Suc (lv_index lv (e - 1))] \<and>
           (\<forall>(i, r) \<in> set xs. range_nat r = {v \<in> {s ..< e}. lv_index lv v = i})"
proof -
  let ?xs = "map (\<lambda>(i, s', e'). (i, range_nn s' e')) (slot_ranges lv s e)"
  have lv: "wf_level lv" using assms(1,2) wf_arch_levels(3) by blast
  obtain it where it: "page_table_entries_for A (range_nn s e) lv = Some it"
    "\<And>body :: nat \<times> addr_range \<Rightarrow> ((nat \<times> addr_range) list, unit, unit) act. for_entries A it body =
       for_list (\<lambda>(i, s', e'). body (i, range_nn s' e')) (slot_ranges lv s e)"
    using page_table_entries_for_slots [OF assms] by blast
  have "for_entries A it (\<lambda>x acc. Some (Inr (), acc @ [x])) [] = Some (Inr () :: unit + unit, ?xs)"
  proof -
    have "(\<lambda>(i :: nat, s', e') acc. Some (Inr () :: unit + unit, acc @ [(i, range_nn s' e')])) =
        (\<lambda>x acc. Some (Inr (), acc @ [case x of (i, s', e') \<Rightarrow> (i, range_nn s' e')]))"
      by (auto simp: fun_eq_iff)
    moreover have "for_list (\<lambda>x acc. Some (Inr () :: unit + unit, acc @ [case x of (i, s', e') \<Rightarrow> (i, range_nn s' e')]))
        (slot_ranges lv s e) [] = Some (Inr (), [] @ ?xs)"
      by (rule for_list_collect)
    ultimately show ?thesis
      by (simp only: it(2) append_Nil)
  qed
  moreover have "map fst ?xs = [lv_index lv s ..< Suc (lv_index lv (e - 1))]"
    using slot_ranges_index [OF lv assms(4)] by (simp add: comp_def split_beta)
  moreover have "range_nat r = {v \<in> {s ..< e}. lv_index lv v = i}" if "(i, r) \<in> set ?xs" for i r
  proof -
    obtain s' e' where *: "(i, s', e') \<in> set (slot_ranges lv s e)" "r = range_nn s' e'"
      using \<open>(i, r) \<in> set ?xs\<close> by auto
    then have **: "s' < e'" "e' \<le> e" "{s' ..< e'} = {v \<in> {s ..< e}. lv_index lv v = i}"
      using slot_ranges_index [OF lv assms(4)] by auto
    have "e < 2 ^ 64" using assms(3) by (simp only: in_half_def)
    then have "unat (of_nat s' :: usize) = s'" "unat (of_nat e' :: usize) = e'"
      using **(1,2) by (intro unat_of_nat_usize; linarith)+
    then show ?thesis unfolding *(2) **(3) [symmetric] by (simp add: range_nat_def range_of_def)
  qed
  ultimately show ?thesis using it(1) by blast
qed

theorem page_table_entries_partition_witness:
  "wf_arch Riscv64Sv39 \<and> level_new Size1GiB 512 True \<in> set (LEVELS Riscv64Sv39) \<and>
   in_half Riscv64Sv39 0x3ffff000 0x40002000 \<and> in_table (level_new Size1GiB 512 True) 0x3ffff000 0x40002000 \<and>
   (\<exists>it. page_table_entries_for Riscv64Sv39 (range_nn 0x3ffff000 0x40002000) (level_new Size1GiB 512 True) = Some it)"
proof -
  have a: "wf_arch Riscv64Sv39" by (rule wf_arch_Riscv64(1))
  have b: "level_new Size1GiB 512 True \<in> set (LEVELS Riscv64Sv39)"
    by (simp add: Riscv64Sv39_def)
  have c: "in_half Riscv64Sv39 0x3ffff000 0x40002000"
    by (simp add: in_half_def VIRTUAL_ADDRESS_BITS_def Riscv64Sv39_def level_new_def)
  have d: "in_table (level_new Size1GiB 512 True) 0x3ffff000 0x40002000"
    by (simp add: in_table_def level_new_def lv_span_def)
  show ?thesis
    using a b c d page_table_entries_partition [OF a b c d] by blast
qed

text \<open>
  C10. The fast path for a single page is the general walk: for an aligned page of a supported
  size in a canonical half, \<open>visit\<close> runs \<open>visit_leaf\<close>, and does exactly what \<open>visit_range\<close> would do,
  for every visitor and every state, panics and errors included.
\<close>

theorem visit_fast_path:
  assumes "wf_arch A" "leaf_depth_of A S = Some D" "tb_depth t \<le> D"
    "unat (page_BYTES S) dvd s" "in_half A s (s + unat (page_BYTES S))"
  shows "table_visit A S D v t (range_nn s (s + unat (page_BYTES S))) =
           visit_leaf A D v t (of_nat s) \<and>
         table_visit A S D v t (range_nn s (s + unat (page_BYTES S))) =
           visit_range A D v t (range_nn s (s + unat (page_BYTES S)))"
proof -
  let ?d = "unat (page_BYTES S)"
  have "range_len (range_nn s (s + ?d)) = Some (page_BYTES S)"
    using range_len_nn [OF assms(5)] by (simp only: add_diff_cancel_left' of_nat_unat ucast_id)
  then show ?thesis
    using table_visit_is_visit_range [OF assms(1-4,5), of v] by (simp add: table_visit_def range_of_def)
qed

theorem visit_fast_path_witness:
  "wf_arch Riscv64Sv39 \<and> leaf_depth_of Riscv64Sv39 Size2MiB = Some 1 \<and>
   in_half Riscv64Sv39 0x200000 (0x200000 + unat (page_BYTES Size2MiB)) \<and>
   (\<forall>v :: (unit, unit) visitor. table_visit Riscv64Sv39 Size2MiB 1 v \<lparr>tb_base = 0, tb_depth = 0\<rparr>
        (range_nn 0x200000 (0x200000 + unat (page_BYTES Size2MiB))) =
      visit_leaf Riscv64Sv39 1 v \<lparr>tb_base = 0, tb_depth = 0\<rparr> (of_nat 0x200000))"
proof -
  have a: "wf_arch Riscv64Sv39" by (rule wf_arch_Riscv64(1))
  have b: "leaf_depth_of Riscv64Sv39 Size2MiB = Some 1"
    by (simp add: leaf_depth_simps Riscv64Sv39_def)
  have c: "unat (page_BYTES Size2MiB) dvd 0x200000"
    by simp
  have d: "in_half Riscv64Sv39 0x200000 (0x200000 + unat (page_BYTES Size2MiB))"
    by (simp add: in_half_def VIRTUAL_ADDRESS_BITS_def Riscv64Sv39_def level_new_def)
  show ?thesis
    using a b d visit_fast_path [OF a b _ c d, of "\<lparr>tb_base = 0, tb_depth = 0\<rparr>"] by auto
qed

end
