(* ===== verification/Page_Tree.thy ===== *)
theory Page_Tree
  imports Page_Walk
begin

text \<open>
  The page table as a tree in memory: the entry a walk for an address ends at, the frames the
  tree occupies, and the invariant that makes it a tree. The invariant is what the safety
  comments of \<^verbatim>\<open>lib/mem-mmu/src/table.rs\<close> assume: every table entry points to a table one level
  down, in a frame of its own that is reachable through the physical memory map.

  All three are computed from memory by recursion over the levels below a table, so a write
  outside the frames of a tree leaves them alone (\<open>pt_frame_rule\<close>) and a write to one entry
  changes one branch (\<open>pt_update_entry\<close>).
\<close>

section \<open>Walks, frames and the invariant\<close>

text \<open>The entry a walk ends at, and how many levels below the table it is.\<close>

fun pt_walk :: "PhysMap \<Rightarrow> mem \<Rightarrow> PageTableLevel list \<Rightarrow> paddr \<Rightarrow> nat \<Rightarrow> pte \<times> nat" where
  "pt_walk pm mem [] b v = (0, 0)"
| "pt_walk pm mem (lv # lvs) b v =
     (let e = frame_word pm mem b (lv_index lv v)
      in if pte_is_table e then (let (e', n) = pt_walk pm mem lvs (pte_address e) v in (e', Suc n))
         else (e, 0))"

fun pt_frames :: "PhysMap \<Rightarrow> mem \<Rightarrow> PageTableLevel list \<Rightarrow> paddr \<Rightarrow> paddr set" where
  "pt_frames pm mem [] b = {}"
| "pt_frames pm mem (lv # lvs) b =
     insert b (\<Union>i \<in> {i. i < lv_entries lv \<and> pte_is_table (frame_word pm mem b i)}.
       pt_frames pm mem lvs (pte_address (frame_word pm mem b i)))"

text \<open>A leaf maps an aligned block with attributes that can be read back.\<close>

definition leaf_ok :: "PageTableLevel \<Rightarrow> pte \<Rightarrow> bool" where
  "leaf_ok lv e \<longleftrightarrow>
     (pte_is_leaf e \<longrightarrow> lv_span lv dvd unat (pte_address e) \<and> pte_attributes e \<noteq> None)"

fun pt_wf :: "arch \<Rightarrow> PhysMap \<Rightarrow> mem \<Rightarrow> PageTableLevel list \<Rightarrow> paddr \<Rightarrow> bool" where
  "pt_wf A pm mem [] b = False"
| "pt_wf A pm mem (lv # lvs) b \<longleftrightarrow>
     frame_ok A pm b \<and>
     (\<forall>i < lv_entries lv. let e = frame_word pm mem b i in
        if pte_is_table e
        then pt_wf A pm mem lvs (pte_address e) \<and> b \<notin> pt_frames pm mem lvs (pte_address e)
        else leaf_ok lv e) \<and>
     (\<forall>i < lv_entries lv. \<forall>j < lv_entries lv.
        i \<noteq> j \<and> pte_is_table (frame_word pm mem b i) \<and> pte_is_table (frame_word pm mem b j) \<longrightarrow>
        pt_frames pm mem lvs (pte_address (frame_word pm mem b i)) \<inter>
        pt_frames pm mem lvs (pte_address (frame_word pm mem b j)) = {})"

text \<open>Two memories that agree on all words of a set of frames.\<close>

definition frames_agree :: "arch \<Rightarrow> PhysMap \<Rightarrow> mem \<Rightarrow> mem \<Rightarrow> paddr set \<Rightarrow> bool" where
  "frames_agree A pm mem mem' F \<longleftrightarrow>
     (\<forall>b \<in> F. \<forall>i < frame_words A. frame_word pm mem' b i = frame_word pm mem b i)"

text \<open>The levels of a subtree of a well-formed architecture.\<close>

definition sub_levels :: "arch \<Rightarrow> PageTableLevel list \<Rightarrow> bool" where
  "sub_levels A lvs \<longleftrightarrow> (\<forall>lv \<in> set lvs. wf_level lv \<and> lv_entries lv \<le> frame_words A)"

lemma sub_levels_Cons [simp]:
  "sub_levels A (lv # lvs) \<longleftrightarrow> wf_level lv \<and> lv_entries lv \<le> frame_words A \<and> sub_levels A lvs"
  by (auto simp: sub_levels_def)

lemma sub_levels_drop: "wf_arch A \<Longrightarrow> sub_levels A (drop d (LEVELS A))"
  by (auto simp: sub_levels_def wf_arch_levels(3) lv_entries_words dest: in_set_dropD)

lemma frames_agree_mono: "frames_agree A pm mem mem' F \<Longrightarrow> G \<subseteq> F \<Longrightarrow> frames_agree A pm mem mem' G"
  by (auto simp: frames_agree_def)

lemma frames_agree_refl [simp]: "frames_agree A pm mem mem F"
  by (simp add: frames_agree_def)

lemma frames_agree_trans:
  "frames_agree A pm m1 m2 F \<Longrightarrow> frames_agree A pm m2 m3 F \<Longrightarrow> frames_agree A pm m1 m3 F"
  by (simp add: frames_agree_def)

declare pt_frames.simps(2) [simp del] pt_wf.simps(2) [simp del] pt_walk.simps(2) [simp del]

lemma pt_frames_iff:
  "c \<in> pt_frames pm mem (lv # lvs) b \<longleftrightarrow>
     c = b \<or> (\<exists>i < lv_entries lv. pte_is_table (frame_word pm mem b i) \<and>
       c \<in> pt_frames pm mem lvs (pte_address (frame_word pm mem b i)))"
  by (auto simp: pt_frames.simps)

lemma pt_frames_root: "lvs \<noteq> [] \<Longrightarrow> b \<in> pt_frames pm mem lvs b"
  by (cases lvs) (auto simp: pt_frames_iff)

lemma pt_frames_child:
  "i < lv_entries lv \<Longrightarrow> pte_is_table (frame_word pm mem b i) \<Longrightarrow>
     pt_frames pm mem lvs (pte_address (frame_word pm mem b i)) \<subseteq> pt_frames pm mem (lv # lvs) b"
  by (auto simp: pt_frames_iff)

lemma pt_wf_nonempty: "pt_wf A pm mem lvs b \<Longrightarrow> lvs \<noteq> []"
  by auto

lemma pt_wfD:
  assumes "pt_wf A pm mem (lv # lvs) b"
  shows "frame_ok A pm b"
    "\<And>i. i < lv_entries lv \<Longrightarrow> pte_is_table (frame_word pm mem b i) \<Longrightarrow>
       pt_wf A pm mem lvs (pte_address (frame_word pm mem b i))"
    "\<And>i. i < lv_entries lv \<Longrightarrow> pte_is_table (frame_word pm mem b i) \<Longrightarrow>
       b \<notin> pt_frames pm mem lvs (pte_address (frame_word pm mem b i))"
    "\<And>i. i < lv_entries lv \<Longrightarrow> \<not> pte_is_table (frame_word pm mem b i) \<Longrightarrow>
       leaf_ok lv (frame_word pm mem b i)"
    "\<And>i j. i < lv_entries lv \<Longrightarrow> j < lv_entries lv \<Longrightarrow> i \<noteq> j \<Longrightarrow>
       pte_is_table (frame_word pm mem b i) \<Longrightarrow> pte_is_table (frame_word pm mem b j) \<Longrightarrow>
       pt_frames pm mem lvs (pte_address (frame_word pm mem b i)) \<inter>
       pt_frames pm mem lvs (pte_address (frame_word pm mem b j)) = {}"
proof -
  note wf = assms [unfolded pt_wf.simps(2) Let_def]
  note entry = wf [THEN conjunct2, THEN conjunct1, rule_format]
  show "frame_ok A pm b" by (rule wf [THEN conjunct1])
  show "pt_wf A pm mem lvs (pte_address (frame_word pm mem b i))"
    "b \<notin> pt_frames pm mem lvs (pte_address (frame_word pm mem b i))"
    if "i < lv_entries lv" "pte_is_table (frame_word pm mem b i)" for i
    using entry [OF that(1)] that(2) by simp_all
  show "leaf_ok lv (frame_word pm mem b i)"
    if "i < lv_entries lv" "\<not> pte_is_table (frame_word pm mem b i)" for i
    using entry [OF that(1)] that(2) by simp
  show "pt_frames pm mem lvs (pte_address (frame_word pm mem b i)) \<inter>
       pt_frames pm mem lvs (pte_address (frame_word pm mem b j)) = {}"
    if "i < lv_entries lv" "j < lv_entries lv" "i \<noteq> j"
      "pte_is_table (frame_word pm mem b i)" "pte_is_table (frame_word pm mem b j)" for i j
    using wf [THEN conjunct2, THEN conjunct2, rule_format, OF that(1,2)] that(3-5) by simp
qed

lemma pt_wfI:
  assumes "frame_ok A pm b"
    "\<And>i. i < lv_entries lv \<Longrightarrow> pte_is_table (frame_word pm mem b i) \<Longrightarrow>
       pt_wf A pm mem lvs (pte_address (frame_word pm mem b i)) \<and>
       b \<notin> pt_frames pm mem lvs (pte_address (frame_word pm mem b i))"
    "\<And>i. i < lv_entries lv \<Longrightarrow> \<not> pte_is_table (frame_word pm mem b i) \<Longrightarrow>
       leaf_ok lv (frame_word pm mem b i)"
    "\<And>i j. i < j \<Longrightarrow> j < lv_entries lv \<Longrightarrow>
       pte_is_table (frame_word pm mem b i) \<Longrightarrow> pte_is_table (frame_word pm mem b j) \<Longrightarrow>
       pt_frames pm mem lvs (pte_address (frame_word pm mem b i)) \<inter>
       pt_frames pm mem lvs (pte_address (frame_word pm mem b j)) = {}"
  shows "pt_wf A pm mem (lv # lvs) b"
proof -
  have "pt_frames pm mem lvs (pte_address (frame_word pm mem b i)) \<inter>
       pt_frames pm mem lvs (pte_address (frame_word pm mem b j)) = {}"
    if "i < lv_entries lv" "j < lv_entries lv" "i \<noteq> j"
      "pte_is_table (frame_word pm mem b i)" "pte_is_table (frame_word pm mem b j)" for i j
    using assms(4) [of i j] assms(4) [of j i] that by (cases "i < j") (simp_all add: Int_commute)
  then show ?thesis
    using assms(1-3) unfolding pt_wf.simps Let_def by simp
qed

lemma pt_walk_Cons:
  "\<not> pte_is_table (frame_word pm mem b (lv_index lv v)) \<Longrightarrow>
     pt_walk pm mem (lv # lvs) b v = (frame_word pm mem b (lv_index lv v), 0)"
  "pte_is_table (frame_word pm mem b (lv_index lv v)) \<Longrightarrow>
     pt_walk pm mem (lv # lvs) b v =
       (fst (pt_walk pm mem lvs (pte_address (frame_word pm mem b (lv_index lv v))) v),
        Suc (snd (pt_walk pm mem lvs (pte_address (frame_word pm mem b (lv_index lv v))) v)))"
  by (simp_all add: pt_walk.simps split_beta)

lemma pt_wf_frame_ok: "pt_wf A pm mem lvs b \<Longrightarrow> c \<in> pt_frames pm mem lvs b \<Longrightarrow> frame_ok A pm c"
proof (induction lvs arbitrary: b)
  case (Cons lv lvs)
  note wf = pt_wfD [OF Cons(2)]
  show ?case
  proof (cases "c = b")
    case False
    then obtain i where "i < lv_entries lv" "pte_is_table (frame_word pm mem b i)"
      "c \<in> pt_frames pm mem lvs (pte_address (frame_word pm mem b i))"
      using Cons(3) pt_frames_iff by blast
    then show ?thesis using Cons(1) wf(2) by blast
  qed (use wf(1) in simp)
qed simp

text \<open>What the tree depends on: the words of its own frames.\<close>

lemma pt_frame_rule:
  assumes "sub_levels A lvs" "frames_agree A pm mem mem' (pt_frames pm mem lvs b)"
  shows "pt_frames pm mem' lvs b = pt_frames pm mem lvs b \<and>
         (pt_wf A pm mem lvs b \<longrightarrow> pt_wf A pm mem' lvs b) \<and>
         pt_walk pm mem' lvs b v = pt_walk pm mem lvs b v"
  using assms
proof (induction lvs arbitrary: b)
  case (Cons lv lvs)
  have lv: "wf_level lv" "lv_entries lv \<le> frame_words A" "sub_levels A lvs"
    using Cons(2) by simp_all
  have b: "b \<in> pt_frames pm mem (lv # lvs) b" by (simp add: pt_frames_iff)
  have w: "frame_word pm mem' b i = frame_word pm mem b i" if "i < lv_entries lv" for i
    using Cons(3) b lv(2) that unfolding frames_agree_def by (meson less_le_trans)
  have sub: "pt_frames pm mem' lvs (pte_address (frame_word pm mem b i)) =
        pt_frames pm mem lvs (pte_address (frame_word pm mem b i)) \<and>
      (pt_wf A pm mem lvs (pte_address (frame_word pm mem b i)) \<longrightarrow>
         pt_wf A pm mem' lvs (pte_address (frame_word pm mem b i))) \<and>
      pt_walk pm mem' lvs (pte_address (frame_word pm mem b i)) v =
        pt_walk pm mem lvs (pte_address (frame_word pm mem b i)) v"
    if "i < lv_entries lv" "pte_is_table (frame_word pm mem b i)" for i
    using Cons(1) [OF lv(3) frames_agree_mono [OF Cons(3) pt_frames_child [OF that]]] .
  have "pt_frames pm mem' (lv # lvs) b = pt_frames pm mem (lv # lvs) b"
    by (rule set_eqI) (use w sub in \<open>simp add: pt_frames_iff cong: conj_cong\<close>)
  moreover have "pt_wf A pm mem' (lv # lvs) b" if "pt_wf A pm mem (lv # lvs) b"
  proof (rule pt_wfI)
    note wf = pt_wfD [OF that]
    show "frame_ok A pm b" by (rule wf(1))
  qed (use pt_wfD [OF that] w sub in simp_all)
  moreover have "pt_walk pm mem' (lv # lvs) b v = pt_walk pm mem (lv # lvs) b v"
    using w [of "lv_index lv v"] sub [of "lv_index lv v"] lv(1) by (simp add: pt_walk.simps)
  ultimately show ?case by blast
qed simp

section \<open>Changing the entries of a table\<close>

text \<open>The frames below one entry.\<close>

definition entry_frames :: "PhysMap \<Rightarrow> mem \<Rightarrow> PageTableLevel list \<Rightarrow> pte \<Rightarrow> paddr set" where
  "entry_frames pm mem lvs e = (if pte_is_table e then pt_frames pm mem lvs (pte_address e) else {})"

lemma pt_frames_entries:
  "pt_frames pm mem (lv # lvs) b =
     insert b (\<Union>i \<in> {..< lv_entries lv}. entry_frames pm mem lvs (frame_word pm mem b i))"
  by (auto simp: pt_frames_iff entry_frames_def split: if_splits)

lemma pt_wf_entries_disjoint:
  assumes "pt_wf A pm mem (lv # lvs) b" "i < lv_entries lv"
  shows "b \<notin> entry_frames pm mem lvs (frame_word pm mem b i)"
    "\<And>j. j < lv_entries lv \<Longrightarrow> j \<noteq> i \<Longrightarrow>
       entry_frames pm mem lvs (frame_word pm mem b i) \<inter> entry_frames pm mem lvs (frame_word pm mem b j) = {}"
  using pt_wfD(3) [OF assms] pt_wfD(5) [OF assms(1,2)] by (auto simp: entry_frames_def)

lemma entry_frames_rule:
  assumes "sub_levels A lvs" "frames_agree A pm mem mem' (entry_frames pm mem lvs e)"
  shows "entry_frames pm mem' lvs e = entry_frames pm mem lvs e"
  using pt_frame_rule [of A lvs pm mem mem' "pte_address e"] assms
  by (simp add: entry_frames_def split: if_splits)

lemma pt_update_entry:
  assumes L: "sub_levels A (lv # lvs)" and wf: "pt_wf A pm mem (lv # lvs) b" and i: "i < lv_entries lv"
    and same: "\<And>j. j < lv_entries lv \<Longrightarrow> j \<noteq> i \<Longrightarrow> frame_word pm mem' b j = frame_word pm mem b j"
    and agree: "frames_agree A pm mem mem'
      (pt_frames pm mem (lv # lvs) b - {b} - entry_frames pm mem lvs (frame_word pm mem b i))"
    and table: "pte_is_table (frame_word pm mem' b i) \<Longrightarrow>
      pt_wf A pm mem' lvs (pte_address (frame_word pm mem' b i))"
    and fresh: "entry_frames pm mem' lvs (frame_word pm mem' b i) \<inter>
      (pt_frames pm mem (lv # lvs) b - entry_frames pm mem lvs (frame_word pm mem b i)) = {}"
    and leaf: "\<not> pte_is_table (frame_word pm mem' b i) \<Longrightarrow> leaf_ok lv (frame_word pm mem' b i)"
  shows "pt_wf A pm mem' (lv # lvs) b"
    "pt_frames pm mem' (lv # lvs) b =
       (pt_frames pm mem (lv # lvs) b - entry_frames pm mem lvs (frame_word pm mem b i)) \<union>
       entry_frames pm mem' lvs (frame_word pm mem' b i)"
    "\<And>v. lv_index lv v \<noteq> i \<Longrightarrow> pt_walk pm mem' (lv # lvs) b v = pt_walk pm mem (lv # lvs) b v"
proof -
  have lv: "wf_level lv" "sub_levels A lvs" using L by simp_all
  let ?E = "\<lambda>j. entry_frames pm mem lvs (frame_word pm mem b j)"
  let ?E' = "\<lambda>j. entry_frames pm mem' lvs (frame_word pm mem' b j)"
  have old: "?E j \<subseteq> pt_frames pm mem (lv # lvs) b - {b} - ?E i" if "j < lv_entries lv" "j \<noteq> i" for j
    using pt_wf_entries_disjoint [OF wf that(1)] pt_wf_entries_disjoint(2) [OF wf i that] that(1)
    by (auto simp: pt_frames_entries)
  have E: "?E' j = ?E j" if "j < lv_entries lv" "j \<noteq> i" for j
    using entry_frames_rule [OF lv(2) frames_agree_mono [OF agree old [OF that]]] same [OF that] by simp
  have rule: "(pt_wf A pm mem lvs c \<longrightarrow> pt_wf A pm mem' lvs c) \<and> pt_walk pm mem' lvs c v = pt_walk pm mem lvs c v"
    if "j < lv_entries lv" "j \<noteq> i" "pte_is_table (frame_word pm mem b j)" "c = pte_address (frame_word pm mem b j)" for j c v
  proof -
    have "frames_agree A pm mem mem' (pt_frames pm mem lvs c)"
      using frames_agree_mono [OF agree old [OF that(1,2)]] that(3,4) by (simp add: entry_frames_def)
    then show ?thesis using pt_frame_rule [OF lv(2)] by blast
  qed
  have rest: "pt_frames pm mem (lv # lvs) b - ?E i = insert b (\<Union>j \<in> {..< lv_entries lv} - {i}. ?E j)"
    using old i pt_wf_entries_disjoint(1) [OF wf i] unfolding pt_frames_entries by blast
  show "pt_frames pm mem' (lv # lvs) b = (pt_frames pm mem (lv # lvs) b - ?E i) \<union> ?E' i"
    unfolding rest unfolding pt_frames_entries using E i by (auto intro: UN_I)
  have b: "b \<notin> ?E' j" if "j < lv_entries lv" for j
    using E [of j] that pt_wf_entries_disjoint(1) [OF wf that] fresh rest by (cases "j = i") auto
  have dis: "?E' j \<inter> ?E' k = {}" if jk: "j < k" "k < lv_entries lv" for j k
  proof -
    have iE: "?E' i \<inter> ?E' l = {}" if "l < lv_entries lv" "l \<noteq> i" for l
    proof -
      have "?E l \<subseteq> pt_frames pm mem (lv # lvs) b - ?E i" using old [OF that] by blast
      then have "?E' i \<inter> ?E l \<subseteq> {}" using fresh by blast
      then show ?thesis unfolding E [OF that] by blast
    qed
    have jl: "j < lv_entries lv" using jk by linarith
    consider "j = i" "k \<noteq> i" | "k = i" "j \<noteq> i" | "j \<noteq> i" "k \<noteq> i" using jk(1) by blast
    then show ?thesis
    proof cases
      case 1
      then show ?thesis using iE [OF jk(2)] by blast
    next
      case 2
      then show ?thesis using iE [OF jl] by blast
    next
      case 3
      then show ?thesis
        using pt_wf_entries_disjoint(2) [OF wf jl jk(2)] jk(1) E [OF jl] E [OF jk(2)] by simp
    qed
  qed
  show "pt_wf A pm mem' (lv # lvs) b"
  proof (rule pt_wfI)
    show "frame_ok A pm b" by (rule pt_wfD(1) [OF wf])
    show "pt_wf A pm mem' lvs (pte_address (frame_word pm mem' b j)) \<and>
        b \<notin> pt_frames pm mem' lvs (pte_address (frame_word pm mem' b j))"
      if j: "j < lv_entries lv" "pte_is_table (frame_word pm mem' b j)" for j
    proof
      show "pt_wf A pm mem' lvs (pte_address (frame_word pm mem' b j))"
        using table rule [of j] same [of j] pt_wfD(2) [OF wf j(1)] j by (cases "j = i") auto
      show "b \<notin> pt_frames pm mem' lvs (pte_address (frame_word pm mem' b j))"
        using b [OF j(1)] j(2) by (simp add: entry_frames_def)
    qed
    show "leaf_ok lv (frame_word pm mem' b j)"
      if "j < lv_entries lv" "\<not> pte_is_table (frame_word pm mem' b j)" for j
      using leaf same [of j] pt_wfD(4) [OF wf that(1)] that by (cases "j = i") auto
    show "pt_frames pm mem' lvs (pte_address (frame_word pm mem' b j)) \<inter>
        pt_frames pm mem' lvs (pte_address (frame_word pm mem' b k)) = {}"
      if "j < k" "k < lv_entries lv" "pte_is_table (frame_word pm mem' b j)"
        "pte_is_table (frame_word pm mem' b k)" for j k
      using dis [OF that(1,2)] that(3,4) by (simp add: entry_frames_def)
  qed
  show "pt_walk pm mem' (lv # lvs) b v = pt_walk pm mem (lv # lvs) b v" if "lv_index lv v \<noteq> i" for v
    using same [of "lv_index lv v"] rule [of "lv_index lv v"] that lv(1) by (simp add: pt_walk.simps)
qed

lemma pt_update_leaves:
  assumes L: "sub_levels A (lv # lvs)" and wf: "pt_wf A pm mem (lv # lvs) b"
    and same: "\<And>j. j < lv_entries lv \<Longrightarrow> j \<notin> I \<Longrightarrow> frame_word pm mem' b j = frame_word pm mem b j"
    and agree: "frames_agree A pm mem mem' (pt_frames pm mem (lv # lvs) b - {b})"
    and new: "\<And>j. j < lv_entries lv \<Longrightarrow> j \<in> I \<Longrightarrow> \<not> pte_is_table (frame_word pm mem b j) \<and>
      \<not> pte_is_table (frame_word pm mem' b j) \<and> leaf_ok lv (frame_word pm mem' b j)"
  shows "pt_wf A pm mem' (lv # lvs) b"
    "pt_frames pm mem' (lv # lvs) b = pt_frames pm mem (lv # lvs) b"
    "\<And>v. pt_walk pm mem' (lv # lvs) b v =
       (if lv_index lv v \<in> I then (frame_word pm mem' b (lv_index lv v), 0)
        else pt_walk pm mem (lv # lvs) b v)"
proof -
  have lv: "wf_level lv" "sub_levels A lvs" using L by simp_all
  have tab: "pte_is_table (frame_word pm mem' b j) = pte_is_table (frame_word pm mem b j)"
    "pte_is_table (frame_word pm mem b j) \<Longrightarrow> frame_word pm mem' b j = frame_word pm mem b j"
    if "j < lv_entries lv" for j
    using same [OF that] new [OF that] by (cases "j \<in> I"; simp)+
  have rule: "pt_frames pm mem' lvs c = pt_frames pm mem lvs c \<and>
      (pt_wf A pm mem lvs c \<longrightarrow> pt_wf A pm mem' lvs c) \<and> pt_walk pm mem' lvs c v = pt_walk pm mem lvs c v"
    if "j < lv_entries lv" "pte_is_table (frame_word pm mem b j)" "c = pte_address (frame_word pm mem b j)" for j c v
  proof -
    have "pt_frames pm mem lvs c \<subseteq> pt_frames pm mem (lv # lvs) b - {b}"
      using pt_frames_child [OF that(1,2)] pt_wfD(3) [OF wf that(1,2)] that(3) by blast
    then show ?thesis using pt_frame_rule [OF lv(2) frames_agree_mono [OF agree]] by blast
  qed
  show "pt_frames pm mem' (lv # lvs) b = pt_frames pm mem (lv # lvs) b"
    by (rule set_eqI) (use tab rule in \<open>simp add: pt_frames_iff cong: conj_cong\<close>)
  show "pt_wf A pm mem' (lv # lvs) b"
  proof (rule pt_wfI)
    show "frame_ok A pm b" by (rule pt_wfD(1) [OF wf])
    show "leaf_ok lv (frame_word pm mem' b j)"
      if "j < lv_entries lv" "\<not> pte_is_table (frame_word pm mem' b j)" for j
      using new [of j] same [of j] pt_wfD(4) [OF wf that(1)] that by (cases "j \<in> I") auto
  qed (use tab rule pt_wfD(2,3,5) [OF wf] in simp_all)
  show "pt_walk pm mem' (lv # lvs) b v =
       (if lv_index lv v \<in> I then (frame_word pm mem' b (lv_index lv v), 0)
        else pt_walk pm mem (lv # lvs) b v)" for v
    using new [of "lv_index lv v"] same [of "lv_index lv v"] rule [of "lv_index lv v"] lv(1)
    by (simp add: pt_walk.simps)
qed

end
