(* ===== verification/Visitor_Contract.thy ===== *)
theory Visitor_Contract
  imports Page_Tree
begin

text \<open>
  The contract between the walk of \<^verbatim>\<open>lib/mem-mmu/src/table.rs\<close> and its visitors: what \<open>descend\<close>,
  \<open>fill\<close> and \<open>ascend\<close> promise about the tree, and what the walk then does to a whole range. The
  locale is interpreted for the visitors of \<^verbatim>\<open>lib/mem-mmu/src/address_space.rs\<close>.
\<close>

section \<open>The effect of a step on the tree\<close>

text \<open>
  A step changes at most the frames of the tree at \<open>b\<close> and frames outside \<open>fs\<close>, the set of frames
  in use; the tree stays a tree, and keeps away from the other frames in use.
\<close>

definition tree_step ::
  "arch \<Rightarrow> PhysMap \<Rightarrow> PageTableLevel list \<Rightarrow> paddr \<Rightarrow> mem \<Rightarrow> paddr set \<Rightarrow> mem \<Rightarrow> paddr set \<Rightarrow> bool" where
  "tree_step A pm lvs b mem fs mem' fs' \<longleftrightarrow>
     pt_wf A pm mem' lvs b \<and> pt_frames pm mem' lvs b \<subseteq> fs' \<and>
     frames_agree A pm mem mem' (fs - pt_frames pm mem lvs b) \<and>
     pt_frames pm mem' lvs b \<inter> fs \<subseteq> pt_frames pm mem lvs b \<and>
     fs - pt_frames pm mem lvs b \<subseteq> fs'"

lemma tree_step_refl: "pt_wf A pm mem lvs b \<Longrightarrow> pt_frames pm mem lvs b \<subseteq> fs \<Longrightarrow> tree_step A pm lvs b mem fs mem fs"
  by (simp add: tree_step_def)

lemma tree_step_trans:
  assumes "tree_step A pm lvs b m0 f0 m1 f1" "tree_step A pm lvs b m1 f1 m2 f2"
  shows "tree_step A pm lvs b m0 f0 m2 f2"
proof -
  have sub: "f0 - pt_frames pm m0 lvs b \<subseteq> f1 - pt_frames pm m1 lvs b"
    using assms(1) by (auto simp: tree_step_def)
  have "frames_agree A pm m0 m2 (f0 - pt_frames pm m0 lvs b)"
    using assms frames_agree_mono [OF _ sub] frames_agree_trans unfolding tree_step_def by meson
  moreover have "pt_frames pm m2 lvs b \<inter> f0 \<subseteq> pt_frames pm m0 lvs b"
    using assms unfolding tree_step_def by blast
  moreover have "f0 - pt_frames pm m0 lvs b \<subseteq> f2"
    using assms unfolding tree_step_def by blast
  ultimately show ?thesis using assms(2) by (simp add: tree_step_def)
qed

text \<open>A step of a child table is a step of its parent, and changes the walks through that entry only.\<close>

lemma tree_step_parent:
  assumes L: "sub_levels A (lv # lvs)" and wf: "pt_wf A pm mem (lv # lvs) b" and i: "i < lv_entries lv"
    and c: "pte_is_table (frame_word pm mem b i)" "c = pte_address (frame_word pm mem b i)"
    and fs: "pt_frames pm mem (lv # lvs) b \<subseteq> fs"
    and step: "tree_step A pm lvs c mem fs mem' fs'"
  shows "tree_step A pm (lv # lvs) b mem fs mem' fs'"
    "frame_word pm mem' b i = frame_word pm mem b i"
    "\<And>v. lv_index lv v \<noteq> i \<Longrightarrow> pt_walk pm mem' (lv # lvs) b v = pt_walk pm mem (lv # lvs) b v"
    "\<And>v. lv_index lv v = i \<Longrightarrow> pt_walk pm mem' (lv # lvs) b v =
       (fst (pt_walk pm mem' lvs c v), Suc (snd (pt_walk pm mem' lvs c v)))"
proof -
  have lv: "lv_entries lv \<le> frame_words A" using L by simp
  let ?F = "pt_frames pm mem (lv # lvs) b" and ?C = "pt_frames pm mem lvs c"
  have bF: "b \<in> ?F" by (rule pt_frames_root) simp
  have bC: "b \<notin> ?C" using pt_wfD(3) [OF wf i c(1)] c(2) by simp
  have CF: "?C \<subseteq> ?F" using pt_frames_child [OF i c(1)] c(2) by simp
  have agree: "frames_agree A pm mem mem' (fs - ?C)" and wf': "pt_wf A pm mem' lvs c"
    and new: "pt_frames pm mem' lvs c \<inter> fs \<subseteq> ?C" "pt_frames pm mem' lvs c \<subseteq> fs'" "fs - ?C \<subseteq> fs'"
    using step by (simp_all add: tree_step_def)
  have w: "frame_word pm mem' b j = frame_word pm mem b j" if "j < lv_entries lv" for j
    using agree bF bC fs lv that unfolding frames_agree_def
    by (meson DiffI less_le_trans subsetD)
  show wi: "frame_word pm mem' b i = frame_word pm mem b i" by (rule w [OF i])
  have E: "entry_frames pm mem lvs (frame_word pm mem b i) = ?C"
    "entry_frames pm mem' lvs (frame_word pm mem' b i) = pt_frames pm mem' lvs c"
    using c wi by (simp_all add: entry_frames_def)
  note up = pt_update_entry [OF L wf i, of mem', unfolded E]
  have a1: "frames_agree A pm mem mem' (?F - {b} - ?C)"
    by (rule frames_agree_mono [OF agree]) (use fs in blast)
  have a2: "pt_frames pm mem' lvs c \<inter> (?F - ?C) = {}" using new(1) fs by blast
  have up1: "pt_wf A pm mem' (lv # lvs) b"
    by (rule up(1)) (use w wi c wf' a1 a2 in simp_all)
  have up2: "pt_frames pm mem' (lv # lvs) b = (?F - ?C) \<union> pt_frames pm mem' lvs c"
    by (rule up(2)) (use w wi c wf' a1 a2 in simp_all)
  show "pt_walk pm mem' (lv # lvs) b v = pt_walk pm mem (lv # lvs) b v" if "lv_index lv v \<noteq> i" for v
    by (rule up(3)) (use w wi c wf' a1 a2 that in simp_all)
  show "pt_walk pm mem' (lv # lvs) b v =
       (fst (pt_walk pm mem' lvs c v), Suc (snd (pt_walk pm mem' lvs c v)))" if "lv_index lv v = i" for v
    using pt_walk_Cons(2) [of pm mem' b lv v lvs] that wi c by simp
  have "frames_agree A pm mem mem' (fs - ?F)"
    by (rule frames_agree_mono [OF agree]) (use CF in blast)
  then show "tree_step A pm (lv # lvs) b mem fs mem' fs'"
    using up1 up2 new CF fs unfolding tree_step_def by blast
qed

text \<open>A frame of zeroes is an empty table.\<close>

lemma pt_zero_table:
  assumes "lvs \<noteq> []" "sub_levels A lvs" "frame_ok A pm c" "\<And>i. i < frame_words A \<Longrightarrow> frame_word pm mem c i = 0"
  shows "pt_wf A pm mem lvs c" "pt_frames pm mem lvs c = {c}" "pt_walk pm mem lvs c v = (0, 0)"
proof -
  obtain lv lvs' where lvs: "lvs = lv # lvs'" using assms(1) by (cases lvs) auto
  have w: "frame_word pm mem c i = 0" if "i < lv_entries lv" for i
    using assms(2,4) that lvs by simp
  show "pt_wf A pm mem lvs c"
    unfolding lvs by (rule pt_wfI) (use assms(3) w in \<open>simp_all add: leaf_ok_def\<close>)
  show "pt_frames pm mem lvs c = {c}"
    unfolding lvs by (rule set_eqI) (use w in \<open>auto simp: pt_frames_iff\<close>)
  have "lv_index lv v < lv_entries lv" using assms(2) lvs by simp
  then show "pt_walk pm mem lvs c v = (0, 0)"
    unfolding lvs using w by (subst pt_walk_Cons(1)) simp_all
qed

text \<open>Installing a fresh, empty table in a vacant entry.\<close>

lemma tree_step_install:
  assumes L: "sub_levels A (lv # lvs)" "lvs \<noteq> []" and wf: "pt_wf A pm mem (lv # lvs) b" and i: "i < lv_entries lv"
    and fs: "pt_frames pm mem (lv # lvs) b \<subseteq> fs" and old: "pte_is_vacant (frame_word pm mem b i)"
    and c: "frame_ok A pm c" "c \<notin> fs"
    and new: "pte_is_table (frame_word pm mem' b i)" "pte_address (frame_word pm mem' b i) = c"
      "\<And>j. j < frame_words A \<Longrightarrow> frame_word pm mem' c j = 0"
    and fs_ok: "\<And>f. f \<in> fs \<Longrightarrow> frame_ok A pm f"
    and same: "\<And>b' j. frame_ok A pm b' \<Longrightarrow> j < frame_words A \<Longrightarrow> b' \<noteq> c \<Longrightarrow> b' \<noteq> b \<or> j \<noteq> i \<Longrightarrow>
      frame_word pm mem' b' j = frame_word pm mem b' j"
  shows "tree_step A pm (lv # lvs) b mem fs mem' (insert c fs)"
    "pt_frames pm mem' (lv # lvs) b = insert c (pt_frames pm mem (lv # lvs) b)"
    "\<And>v. lv_index lv v \<noteq> i \<Longrightarrow> pt_walk pm mem' (lv # lvs) b v = pt_walk pm mem (lv # lvs) b v"
    "\<And>v. lv_index lv v = i \<Longrightarrow> pt_walk pm mem (lv # lvs) b v = (frame_word pm mem b i, 0) \<and>
       pt_walk pm mem' (lv # lvs) b v = (0, 1)"
proof -
  have lv: "lv_entries lv \<le> frame_words A" "sub_levels A lvs" using L by simp_all
  let ?F = "pt_frames pm mem (lv # lvs) b"
  have bF: "b \<in> ?F" by (rule pt_frames_root) simp
  have cF: "c \<notin> ?F" "c \<noteq> b" using c(2) fs bF by auto
  have nt: "\<not> pte_is_table (frame_word pm mem b i)" using old pte_not_vacant_cases by blast
  note z = pt_zero_table [OF L(2) lv(2) c(1) new(3)]
  have E: "entry_frames pm mem lvs (frame_word pm mem b i) = {}"
    "entry_frames pm mem' lvs (frame_word pm mem' b i) = {c}"
    using nt new z by (simp_all add: entry_frames_def)
  have w: "frame_word pm mem' b j = frame_word pm mem b j" if "j < lv_entries lv" "j \<noteq> i" for j
    using same [of b j] pt_wfD(1) [OF wf] that lv(1) cF(2) by simp
  have ag: "frames_agree A pm mem mem' (fs - {b})"
    unfolding frames_agree_def using same fs_ok c(2) by blast
  note up = pt_update_entry [OF L(1) wf i, of mem', unfolded E]
  have a1: "frames_agree A pm mem mem' (?F - {b} - {})"
    by (rule frames_agree_mono [OF ag]) (use fs in blast)
  have up1: "pt_wf A pm mem' (lv # lvs) b"
    by (rule up(1)) (use w a1 z(1) new cF in simp_all)
  show up2: "pt_frames pm mem' (lv # lvs) b = insert c ?F"
  proof -
    have "pt_frames pm mem' (lv # lvs) b = (?F - {}) \<union> {c}"
      by (rule up(2)) (use w a1 z(1) new cF in simp_all)
    then show ?thesis by simp
  qed
  show "pt_walk pm mem' (lv # lvs) b v = pt_walk pm mem (lv # lvs) b v" if "lv_index lv v \<noteq> i" for v
    by (rule up(3)) (use w a1 z(1) new cF that in simp_all)
  show "pt_walk pm mem (lv # lvs) b v = (frame_word pm mem b i, 0) \<and>
       pt_walk pm mem' (lv # lvs) b v = (0, 1)" if "lv_index lv v = i" for v
    using pt_walk_Cons(1) [of pm mem b lv v lvs] pt_walk_Cons(2) [of pm mem' b lv v lvs] that nt new z(3)
    by simp
  have "frames_agree A pm mem mem' (fs - ?F)"
    by (rule frames_agree_mono [OF ag]) (use bF in blast)
  then show "tree_step A pm (lv # lvs) b mem fs mem' (insert c fs)"
    using up1 c(2) fs unfolding tree_step_def up2 by blast
qed

text \<open>Removing an empty table from its entry.\<close>

lemma tree_step_prune:
  assumes L: "sub_levels A (lv # lv' # lvs)" and wf: "pt_wf A pm mem (lv # lv' # lvs) b" and i: "i < lv_entries lv"
    and fs: "pt_frames pm mem (lv # lv' # lvs) b \<subseteq> fs"
    and c: "pte_is_table (frame_word pm mem b i)" "pte_address (frame_word pm mem b i) = c"
    and empty: "\<And>j. j < lv_entries lv' \<Longrightarrow> pte_is_vacant (frame_word pm mem c j)"
    and new: "frame_word pm mem' b i = 0"
    and fs_ok: "\<And>f. f \<in> fs \<Longrightarrow> frame_ok A pm f"
    and same: "\<And>b' j. frame_ok A pm b' \<Longrightarrow> j < frame_words A \<Longrightarrow> b' \<noteq> b \<or> j \<noteq> i \<Longrightarrow>
      frame_word pm mem' b' j = frame_word pm mem b' j"
  shows "tree_step A pm (lv # lv' # lvs) b mem fs mem' (fs - {c})"
    "\<And>v. lv_index lv v \<noteq> i \<Longrightarrow> pt_walk pm mem' (lv # lv' # lvs) b v = pt_walk pm mem (lv # lv' # lvs) b v"
    "\<And>v. lv_index lv v = i \<Longrightarrow> snd (pt_walk pm mem (lv # lv' # lvs) b v) = 1 \<and>
       pte_is_vacant (fst (pt_walk pm mem (lv # lv' # lvs) b v)) \<and>
       pt_walk pm mem' (lv # lv' # lvs) b v = (0, 0)"
proof -
  have lv: "lv_entries lv \<le> frame_words A" "wf_level lv'" using L by simp_all
  let ?F = "pt_frames pm mem (lv # lv' # lvs) b"
  have bF: "b \<in> ?F" by (rule pt_frames_root) simp
  have nt: "\<not> pte_is_table (frame_word pm mem c j)" if "j < lv_entries lv'" for j
    using empty [OF that] pte_not_vacant_cases by blast
  have C: "pt_frames pm mem (lv' # lvs) c = {c}"
    by (rule set_eqI) (use nt in \<open>auto simp: pt_frames_iff\<close>)
  have E: "entry_frames pm mem (lv' # lvs) (frame_word pm mem b i) = {c}"
    "entry_frames pm mem' (lv' # lvs) (frame_word pm mem' b i) = {}"
    using c C new by (simp_all add: entry_frames_def)
  have w: "frame_word pm mem' b j = frame_word pm mem b j" if "j < lv_entries lv" "j \<noteq> i" for j
    using same [of b j] pt_wfD(1) [OF wf] that lv(1) by simp
  have ag: "frames_agree A pm mem mem' (fs - {b})"
    unfolding frames_agree_def using same fs_ok by blast
  note up = pt_update_entry [OF L(1) wf i, of mem', unfolded E]
  have a1: "frames_agree A pm mem mem' (?F - {b} - {c})"
    by (rule frames_agree_mono [OF ag]) (use fs in blast)
  have lk: "leaf_ok lv 0" by (simp add: leaf_ok_def)
  have up1: "pt_wf A pm mem' (lv # lv' # lvs) b"
    by (rule up(1)) (use w a1 new lk in simp_all)
  have up2: "pt_frames pm mem' (lv # lv' # lvs) b = ?F - {c} \<union> {}"
    by (rule up(2)) (use w a1 new lk in simp_all)
  show "pt_walk pm mem' (lv # lv' # lvs) b v = pt_walk pm mem (lv # lv' # lvs) b v"
    if "lv_index lv v \<noteq> i" for v
    by (rule up(3)) (use w a1 new lk that in simp_all)
  show "snd (pt_walk pm mem (lv # lv' # lvs) b v) = 1 \<and>
       pte_is_vacant (fst (pt_walk pm mem (lv # lv' # lvs) b v)) \<and>
       pt_walk pm mem' (lv # lv' # lvs) b v = (0, 0)" if "lv_index lv v = i" for v
  proof -
    have "lv_index lv' v < lv_entries lv'" using lv(2) by simp
    then show ?thesis
      using pt_walk_Cons(2) [of pm mem b lv v "lv' # lvs"] pt_walk_Cons(1) [of pm mem c lv' v lvs]
        pt_walk_Cons(1) [of pm mem' b lv v "lv' # lvs"] that c new empty nt
      by simp
  qed
  have "frames_agree A pm mem mem' (fs - ?F)"
    by (rule frames_agree_mono [OF ag]) (use bF in blast)
  then show "tree_step A pm (lv # lv' # lvs) b mem fs mem' (fs - {c})"
    using up1 fs C pt_frames_child [OF i c(1), of "lv' # lvs"] c(2) unfolding tree_step_def up2 by blast
qed

section \<open>The effect of a walk on one address\<close>

text \<open>
  \<open>n\<close> is the number of levels between the table and the leaf level. The walk may leave an address
  alone; it may also add or remove empty tables on its way, as long as the address stays unmapped.
\<close>

definition walk_keeps :: "nat \<Rightarrow> pte \<times> nat \<Rightarrow> pte \<times> nat \<Rightarrow> bool" where
  "walk_keeps n r r' \<longleftrightarrow>
     r' = r \<or> pte_is_vacant (fst r) \<and> pte_is_vacant (fst r') \<and> snd r' \<le> max n (snd r)"

text \<open>The address was visited: its leaf entry \<open>e\<close> became \<open>upd e\<close>.\<close>

definition walk_done :: "(pte \<Rightarrow> pte) \<Rightarrow> nat \<Rightarrow> pte \<times> nat \<Rightarrow> pte \<times> nat \<Rightarrow> bool" where
  "walk_done u n r r' \<longleftrightarrow>
     (if pte_is_vacant (u (fst r)) then pte_is_vacant (fst r') \<and> snd r' \<le> n else r' = (u (fst r), n))"

text \<open>The address can be visited: its entry is acceptable and at the leaf level, or above it and vacant.\<close>

definition walk_pre :: "(pte \<Rightarrow> bool) \<Rightarrow> nat \<Rightarrow> pte \<times> nat \<Rightarrow> bool" where
  "walk_pre k n r \<longleftrightarrow> k (fst r) \<and> (snd r = n \<or> snd r < n \<and> pte_is_vacant (fst r))"

lemma walk_keeps_refl [simp]: "walk_keeps n r r"
  by (simp add: walk_keeps_def)

lemma walk_keeps_trans: "walk_keeps n r0 r1 \<Longrightarrow> walk_keeps n r1 r2 \<Longrightarrow> walk_keeps n r0 r2"
  by (auto simp: walk_keeps_def)

lemma walk_done_keeps: "walk_done u n r0 r1 \<Longrightarrow> walk_keeps n r1 r2 \<Longrightarrow> walk_done u n r0 r2"
  by (auto simp: walk_keeps_def walk_done_def split: if_splits)

lemma walk_lift:
  "walk_keeps n r r' \<Longrightarrow> walk_keeps (Suc n) (fst r, Suc (snd r)) (fst r', Suc (snd r'))"
  "walk_done u n r r' \<Longrightarrow> walk_done u (Suc n) (fst r, Suc (snd r)) (fst r', Suc (snd r'))"
  "walk_pre k (Suc n) (fst r, Suc (snd r)) \<longleftrightarrow> walk_pre k n r"
  by (auto simp: walk_keeps_def walk_done_def walk_pre_def prod_eq_iff split: if_splits)

end
