(* ===== verification/Table_Visitor.thy ===== *)
theory Table_Visitor
  imports Visitor_Contract
begin

text \<open>
  The walk of \<^verbatim>\<open>lib/mem-mmu/src/table.rs\<close> is correct for every visitor that keeps the contract
  \<open>table_visitor\<close>: it returns, it leaves a tree behind, every address of the range had its leaf
  entry replaced, and every other address kept its translation. An error that a visitor
  returns stops the walk; then each address of the range was either visited or left alone.
\<close>

section \<open>The result of a walk\<close>

definition visit_post ::
  "arch \<Rightarrow> PhysMap \<Rightarrow> PageTableLevel list \<Rightarrow> paddr \<Rightarrow> ('v \<Rightarrow> paddr set) \<Rightarrow> (nat \<Rightarrow> 'v \<Rightarrow> bool) \<Rightarrow>
     (nat \<Rightarrow> pte \<Rightarrow> pte) \<Rightarrow> bool \<Rightarrow> nat \<Rightarrow> nat \<Rightarrow> nat \<Rightarrow> nat \<Rightarrow> nat \<Rightarrow> mem \<times> 'v \<Rightarrow> 'e + unit \<Rightarrow> mem \<times> 'v \<Rightarrow> bool" where
  "visit_post A pm lvs b owned Iv upd fails n span T s e st r st' \<longleftrightarrow>
     tree_step A pm lvs b (fst st) (owned (snd st)) (fst st') (owned (snd st')) \<and>
     (\<forall>x. x div T = s div T \<longrightarrow> x \<notin> {s ..< e} \<longrightarrow>
        walk_keeps n (pt_walk pm (fst st) lvs b x) (pt_walk pm (fst st') lvs b x)) \<and>
     (case r of
        Inl err \<Rightarrow> fails \<and> (\<exists>p. Iv p (snd st')) \<and>
          (\<forall>x \<in> {s ..< e}.
             walk_done (upd (round_down x span)) n (pt_walk pm (fst st) lvs b x) (pt_walk pm (fst st') lvs b x) \<or>
             walk_keeps n (pt_walk pm (fst st) lvs b x) (pt_walk pm (fst st') lvs b x))
      | Inr u \<Rightarrow> Iv e (snd st') \<and>
          (\<forall>x \<in> {s ..< e}.
             walk_done (upd (round_down x span)) n (pt_walk pm (fst st) lvs b x) (pt_walk pm (fst st') lvs b x)))"

text \<open>Only descending into a vacant entry can fail.\<close>

definition may_fail :: "(nat \<Rightarrow> pte \<Rightarrow> bool) \<Rightarrow> bool" where
  "may_fail ok \<longleftrightarrow> (\<exists>q en. ok q en \<and> pte_is_vacant en)"

section \<open>A run of leaf entries\<close>

lemma block_index: "x div lv_span lv = x div (lv_entries lv * lv_span lv) * lv_entries lv + lv_index lv x"
proof -
  have "x div (lv_entries lv * lv_span lv) = x div lv_span lv div lv_entries lv"
    by (metis div_mult2_eq mult.commute)
  then show ?thesis by (simp add: lv_index_def)
qed

lemma div_last: "0 < d \<Longrightarrow> (k * d + (d - 1)) div d = (k :: nat)"
  by (cases d) (auto intro!: div_nat_eqI simp: algebra_simps)

lemma leaf_run:
  assumes "wf_level lv" "in_table lv s e" "lv_span lv dvd s" "lv_span lv dvd e"
  obtains n where "0 < n" "s + n * lv_span lv = e" "Suc (lv_index lv (e - 1)) = lv_index lv s + n"
    "lv_index lv s + n \<le> lv_entries lv"
    "\<And>x. x div (lv_entries lv * lv_span lv) = s div (lv_entries lv * lv_span lv) \<Longrightarrow>
       lv_index lv x \<in> {lv_index lv s ..< lv_index lv s + n} \<longleftrightarrow> x \<in> {s ..< e}"
    "\<And>x. x \<in> {s ..< e} \<Longrightarrow> lv_index lv s \<le> lv_index lv x \<and> lv_index lv x < lv_index lv s + n \<and>
       round_down x (lv_span lv) = s + (lv_index lv x - lv_index lv s) * lv_span lv"
proof -
  let ?T = "lv_entries lv * lv_span lv" and ?d = "lv_span lv"
  obtain q where q: "s = q * ?d" using assms(3) by (metis dvd_div_mult_self)
  obtain q' where q': "e = q' * ?d" using assms(4) by (metis dvd_div_mult_self)
  have lt: "q < q'" and e1: "(e - 1) div ?T = s div ?T" using assms(2) q q' by (simp_all add: in_table_def)
  have Q: "s div ?d = q" "(e - 1) div ?d = q' - 1"
  proof -
    show "s div ?d = q" using q by simp
    have "e = (q' - 1) * ?d + ?d" using lt q' by (cases q') simp_all
    then have "e - 1 = (q' - 1) * ?d + (?d - 1)" using lv_span_pos [of lv] by linarith
    then show "(e - 1) div ?d = q' - 1" by (simp only: div_last [OF lv_span_pos])
  qed
  define B where "B = s div ?T * lv_entries lv"
  have bs: "q = B + lv_index lv s" using block_index [of s lv] Q(1) by (simp add: B_def)
  have be: "q' - 1 = B + lv_index lv (e - 1)" using block_index [of "e - 1" lv] Q(2) e1 by (simp add: B_def)
  have bx: "x div ?d = B + lv_index lv x" if "x div ?T = s div ?T" for x
    using block_index [of x lv] that by (simp add: B_def)
  have in_iff: "x \<in> {s ..< e} \<longleftrightarrow> q \<le> x div ?d \<and> x div ?d < q'" for x
    by (simp add: q q' less_eq_div_iff_mult_less_eq div_less_iff_less_mult)
  have blk: "x div ?T = s div ?T" if "x \<in> {s ..< e}" for x
  proof -
    have "s div ?T \<le> x div ?T" "x div ?T \<le> (e - 1) div ?T" using that by (auto intro!: div_le_mono)
    then show ?thesis using e1 by simp
  qed
  have le: "lv_index lv (e - 1) < lv_entries lv" using assms(1) by simp
  show thesis
  proof (rule that [of "q' - q"])
    show "0 < q' - q" using lt by simp
    show "s + (q' - q) * ?d = e" using q q' lt by (simp flip: distrib_right)
    show n1: "Suc (lv_index lv (e - 1)) = lv_index lv s + (q' - q)" using bs be lt by linarith
    show "lv_index lv s + (q' - q) \<le> lv_entries lv" using n1 le by linarith
    show "lv_index lv x \<in> {lv_index lv s ..< lv_index lv s + (q' - q)} \<longleftrightarrow> x \<in> {s ..< e}"
      if "x div ?T = s div ?T" for x
      unfolding in_iff bx [OF that] using bs lt by auto
    show "lv_index lv s \<le> lv_index lv x \<and> lv_index lv x < lv_index lv s + (q' - q) \<and>
        round_down x ?d = s + (lv_index lv x - lv_index lv s) * ?d" if "x \<in> {s ..< e}" for x
    proof -
      have x: "q \<le> x div ?d" "x div ?d < q'" "x div ?d = B + lv_index lv x"
        using that in_iff bx [OF blk [OF that]] by simp_all
      then have "x div ?d = q + (lv_index lv x - lv_index lv s)" using bs by linarith
      then have "round_down x ?d = s + (lv_index lv x - lv_index lv s) * ?d"
        by (simp only: round_down_def q distrib_right)
      moreover have "lv_index lv s \<le> lv_index lv x" "lv_index lv x < lv_index lv s + (q' - q)"
        using x bs lt by linarith+
      ultimately show ?thesis by blast
    qed
  qed
qed

text \<open>The sub-ranges of the cut lie in one slot and keep the alignment of the range.\<close>

lemma slot_ranges_bounds:
  assumes "(i, s', e') \<in> set (slot_ranges lv s e)" "sp dvd lv_span lv" "sp dvd s" "sp dvd e"
  shows "s \<le> s' \<and> s' < e' \<and> e' \<le> e \<and> sp dvd s' \<and> sp dvd e' \<and> (e' - 1) div lv_span lv = s' div lv_span lv"
  using assms
proof (induction "e - s" arbitrary: s rule: less_induct)
  case less
  let ?p = "min e (round_down s (lv_span lv) + lv_span lv)"
  have se: "s < e" using less.prems(1) by (cases "s < e") simp_all
  note b = slot_end_bounds [OF se, of lv]
  have "sp dvd round_down s (lv_span lv)" by (rule dvd_trans [OF less.prems(2) dvd_round(1)])
  then have p: "sp dvd ?p" using less.prems(2,4) by (simp add: min_def)
  consider "s' = s" "e' = ?p" | "(i, s', e') \<in> set (slot_ranges lv ?p e)"
    using less.prems(1) slot_ranges_Cons [OF se, of lv] by auto
  then show ?case
  proof cases
    case 1
    then show ?thesis using b p less.prems(3) by simp
  next
    case 2
    have "e - ?p < e - s" using b(1,2) se by linarith
    note h = less.hyps [OF this 2 less.prems(2) p less.prems(4)]
    then have "s \<le> s'" using b(1) by linarith
    then show ?thesis using h by blast
  qed
qed

section \<open>The contract\<close>

text \<open>
  \<open>Inv p\<close> is the invariant of the visitor's state when the walk is at the address \<open>p\<close>, \<open>owned\<close> the
  frames in use, \<open>ok p\<close> what \<open>fill\<close> needs of the entry for the page at \<open>p\<close>, and \<open>upd p\<close> what it
  makes of it.
\<close>

locale table_visitor =
  fixes A :: arch and pm :: PhysMap and D :: nat
    and v :: "(mem \<times> 'v, 'e) visitor"
    and Inv :: "nat \<Rightarrow> 'v \<Rightarrow> bool" and owned :: "'v \<Rightarrow> paddr set"
    and ok :: "nat \<Rightarrow> pte \<Rightarrow> bool" and upd :: "nat \<Rightarrow> pte \<Rightarrow> pte"
  assumes arch_ok: "Inv p vs \<Longrightarrow> wf_arch A \<and> wf_physmap pm \<and> D < length (LEVELS A)"
    and owned_ok: "Inv p vs \<Longrightarrow> f \<in> owned vs \<Longrightarrow> frame_ok A pm f"
    and ok_leaf: "ok p e \<Longrightarrow> \<not> pte_is_table e \<and> \<not> pte_is_table (upd p e) \<and> leaf_ok (LEVELS A ! D) (upd p e)"
    and ok_vacant: "ok p e \<Longrightarrow> pte_is_vacant e \<Longrightarrow> pte_is_vacant e' \<Longrightarrow> ok p e' \<and> upd p e' = upd p e"
    and fill: "Inv p vs \<Longrightarrow> frame_ok A pm b \<Longrightarrow> 0 < n \<Longrightarrow> i + n \<le> lv_entries (LEVELS A ! D) \<Longrightarrow>
      p + n * lv_span (LEVELS A ! D) < 2 ^ 64 \<Longrightarrow>
      (\<And>j. j < n \<Longrightarrow> ok (p + j * lv_span (LEVELS A ! D)) (frame_word pm mem b (i + j))) \<Longrightarrow>
      \<exists>mem' vs'. v_fill v \<lparr>tb_base = b, tb_depth = D\<rparr> i n (of_nat p) (mem, vs) = Some (Inr (), (mem', vs')) \<and>
        Inv (p + n * lv_span (LEVELS A ! D)) vs' \<and> owned vs' = owned vs \<and>
        (\<forall>j < n. frame_word pm mem' b (i + j) =
           upd (p + j * lv_span (LEVELS A ! D)) (frame_word pm mem b (i + j))) \<and>
        (\<forall>b' j. frame_ok A pm b' \<and> j < frame_words A \<and> (b' \<noteq> b \<or> j \<notin> {i ..< i + n}) \<longrightarrow>
           frame_word pm mem' b' j = frame_word pm mem b' j)"
    and descend_table: "Inv p vs \<Longrightarrow> d < D \<Longrightarrow> frame_ok A pm b \<Longrightarrow> i < lv_entries (LEVELS A ! d) \<Longrightarrow>
      pte_is_table (frame_word pm mem b i) \<Longrightarrow>
      v_descend v \<lparr>tb_base = b, tb_depth = d\<rparr> i (mem, vs) =
        Some (Inr (Some (pte_address (frame_word pm mem b i))), (mem, vs))"
    and descend_vacant: "Inv p vs \<Longrightarrow> d < D \<Longrightarrow> b \<in> owned vs \<Longrightarrow> i < lv_entries (LEVELS A ! d) \<Longrightarrow>
      pte_is_vacant (frame_word pm mem b i) \<Longrightarrow> ok q (frame_word pm mem b i) \<Longrightarrow>
      \<exists>r mem' vs'. v_descend v \<lparr>tb_base = b, tb_depth = d\<rparr> i (mem, vs) = Some (r, (mem', vs')) \<and> Inv p vs' \<and>
        (case r of
           Inl err \<Rightarrow> mem' = mem \<and> owned vs' = owned vs
         | Inr None \<Rightarrow> False
         | Inr (Some c) \<Rightarrow> frame_ok A pm c \<and> c \<notin> owned vs \<and> owned vs' = insert c (owned vs) \<and>
             pte_is_table (frame_word pm mem' b i) \<and> pte_address (frame_word pm mem' b i) = c \<and>
             (\<forall>j < frame_words A. frame_word pm mem' c j = 0) \<and>
             (\<forall>b' j. frame_ok A pm b' \<and> j < frame_words A \<and> b' \<noteq> c \<and> (b' \<noteq> b \<or> j \<noteq> i) \<longrightarrow>
                frame_word pm mem' b' j = frame_word pm mem b' j))"
    and ascend: "Inv p vs \<Longrightarrow> d < D \<Longrightarrow> b \<in> owned vs \<Longrightarrow> c \<in> owned vs \<Longrightarrow> b \<noteq> c \<Longrightarrow>
      i < lv_entries (LEVELS A ! d) \<Longrightarrow>
      pte_is_table (frame_word pm mem b i) \<Longrightarrow> pte_address (frame_word pm mem b i) = c \<Longrightarrow>
      \<exists>mem' vs'. v_ascend v \<lparr>tb_base = b, tb_depth = d\<rparr> i c (Suc d) (mem, vs) = Some (Inr (), (mem', vs')) \<and>
        Inv p vs' \<and>
        (mem' = mem \<and> owned vs' = owned vs \<or>
         (\<forall>j < lv_entries (LEVELS A ! Suc d). pte_is_vacant (frame_word pm mem c j)) \<and>
         frame_word pm mem' b i = 0 \<and> owned vs' = owned vs - {c} \<and>
         (\<forall>b' j. frame_ok A pm b' \<and> j < frame_words A \<and> (b' \<noteq> b \<or> j \<noteq> i) \<longrightarrow>
            frame_word pm mem' b' j = frame_word pm mem b' j))"
begin

lemma walk_pre_keeps:
  assumes "walk_pre (ok p) n r" "walk_keeps n r r'"
  shows "walk_pre (ok p) n r'" "walk_done (upd p) n r' r'' \<Longrightarrow> walk_done (upd p) n r r''"
proof -
  consider "r' = r" | "pte_is_vacant (fst r)" "pte_is_vacant (fst r')" "snd r' \<le> n"
    using assms by (auto simp: walk_pre_def walk_keeps_def)
  then have *: "walk_pre (ok p) n r' \<and> (walk_done (upd p) n r' r'' \<longrightarrow> walk_done (upd p) n r r'')"
  proof cases
    case 2
    then have "ok p (fst r')" "upd p (fst r') = upd p (fst r)"
      using ok_vacant [of p "fst r" "fst r'"] assms(1) by (simp_all add: walk_pre_def)
    then show ?thesis using 2 by (auto simp: walk_pre_def walk_done_def)
  qed (use assms in simp)
  show "walk_pre (ok p) n r'" using * by simp
  show "walk_done (upd p) n r' r'' \<Longrightarrow> walk_done (upd p) n r r''" using * by simp
qed

lemma visit_post_refl:
  assumes "pt_wf A pm mem lvs b" "pt_frames pm mem lvs b \<subseteq> owned vs" "owned vs' = owned vs" "Inv p vs'"
    "ok q en" "pte_is_vacant en"
  shows "visit_post A pm lvs b owned Inv upd (may_fail ok) n sp T s e (mem, vs) (Inl err) (mem, vs')"
  unfolding visit_post_def using assms tree_step_refl [OF assms(1,2)] by (auto simp: may_fail_def)

lemma visit_post_error:
  assumes "visit_post A pm lvs b owned Inv upd (may_fail ok) n sp T s p st (Inl err) st'" "p \<le> e"
    "\<And>x. s \<le> x \<Longrightarrow> x < e \<Longrightarrow> x div T = s div T"
  shows "visit_post A pm lvs b owned Inv upd (may_fail ok) n sp T s e st (Inl err) st'"
proof -
  have "x \<in> {s ..< p} \<or> x div T = s div T \<and> x \<notin> {s ..< p}" if "x \<in> {s ..< e}" for x
    using assms(3) [of x] that unfolding atLeastLessThan_iff by blast
  moreover have "x \<notin> {s ..< p}" if "x \<notin> {s ..< e}" for x
    using that assms(2) by auto
  ultimately show ?thesis
    using assms(1) unfolding visit_post_def sum.case by blast
qed

lemma visit_post_seq:
  assumes post: "visit_post A pm lvs b owned Inv upd (may_fail ok) n sp T s p st0 (Inr ()) st1"
      "visit_post A pm lvs b owned Inv upd (may_fail ok) n sp T p e st1 r st2"
    and ord: "s \<le> p" "p < e"
    and blk: "\<And>x. s \<le> x \<Longrightarrow> x < e \<Longrightarrow> x div T = s div T"
    and pre: "\<And>x. p \<le> x \<Longrightarrow> x < e \<Longrightarrow> walk_pre (ok (round_down x sp)) n (pt_walk pm (fst st0) lvs b x)"
  shows "visit_post A pm lvs b owned Inv upd (may_fail ok) n sp T s e st0 r st2"
proof -
  let ?w0 = "pt_walk pm (fst st0) lvs b" and ?w1 = "pt_walk pm (fst st1) lvs b"
  and ?w2 = "pt_walk pm (fst st2) lvs b"
  have sp: "p div T = s div T" by (rule blk [OF ord])
  have step: "tree_step A pm lvs b (fst st0) (owned (snd st0)) (fst st2) (owned (snd st2))"
    using post tree_step_trans unfolding visit_post_def by blast
  have k1: "walk_keeps n (?w0 x) (?w1 x)" if "x div T = s div T" "x \<notin> {s ..< p}" for x
    using post(1) that unfolding visit_post_def by blast
  have k2: "walk_keeps n (?w1 x) (?w2 x)" if "x div T = s div T" "x \<notin> {p ..< e}" for x
    using post(2) that sp unfolding visit_post_def by simp
  have keeps: "walk_keeps n (?w0 x) (?w2 x)" if "x div T = s div T" "x \<notin> {s ..< e}" for x
    by (rule walk_keeps_trans [OF k1 k2]) (use that ord in auto)
  have d1: "walk_done (upd (round_down x sp)) n (?w0 x) (?w2 x)" if "s \<le> x" "x < p" for x
  proof (rule walk_done_keeps)
    show "walk_done (upd (round_down x sp)) n (?w0 x) (?w1 x)"
      using post(1) that unfolding visit_post_def by simp
    show "walk_keeps n (?w1 x) (?w2 x)" using k2 [of x] that blk [of x] ord by simp
  qed
  have k01: "walk_keeps n (?w0 x) (?w1 x)" if "p \<le> x" "x < e" for x
    using k1 [of x] that blk [of x] ord by simp
  have d2: "walk_done (upd (round_down x sp)) n (?w0 x) (?w2 x)"
    if "p \<le> x" "x < e" "walk_done (upd (round_down x sp)) n (?w1 x) (?w2 x)" for x
    using walk_pre_keeps(2) [OF pre k01] that by blast
  have split: "x \<in> {s ..< e} \<longleftrightarrow> s \<le> x \<and> x < p \<or> p \<le> x \<and> x < e" for x
    using ord by auto
  show ?thesis
  proof (cases r)
    case (Inl err)
    have "walk_done (upd (round_down x sp)) n (?w1 x) (?w2 x) \<or> walk_keeps n (?w1 x) (?w2 x)"
      if "p \<le> x" "x < e" for x
      using post(2) that unfolding visit_post_def Inl by simp
    then have "walk_done (upd (round_down x sp)) n (?w0 x) (?w2 x) \<or> walk_keeps n (?w0 x) (?w2 x)"
      if "x \<in> {s ..< e}" for x
      using that d1 d2 k01 walk_keeps_trans unfolding split by blast
    then show ?thesis using post(2) step keeps unfolding visit_post_def Inl sum.case by blast
  next
    case (Inr u)
    have "walk_done (upd (round_down x sp)) n (?w1 x) (?w2 x)" if "p \<le> x" "x < e" for x
      using post(2) that unfolding visit_post_def Inr by simp
    then have "walk_done (upd (round_down x sp)) n (?w0 x) (?w2 x)" if "x \<in> {s ..< e}" for x
      using that d1 d2 unfolding split by blast
    then show ?thesis using post(2) step keeps unfolding visit_post_def Inr sum.case by blast
  qed
qed

text \<open>At the leaf level the range is one run of entries.\<close>

lemma visit_range_leaf:
  fixes lvs defines "lvs \<equiv> drop D (LEVELS A)" and "lv \<equiv> LEVELS A ! D"
  assumes inv: "Inv s vs" and wf: "pt_wf A pm mem lvs b" and fs: "pt_frames pm mem lvs b \<subseteq> owned vs"
    and half: "in_half A s e" and tab: "in_table lv s e" and dvd: "lv_span lv dvd s" "lv_span lv dvd e"
    and pre: "\<And>x. s \<le> x \<Longrightarrow> x < e \<Longrightarrow>
      walk_pre (ok (round_down x (lv_span lv))) 0 (pt_walk pm mem lvs b x)"
  obtains r st' where
    "visit_range A D v \<lparr>tb_base = b, tb_depth = D\<rparr> (range_nn s e) (mem, vs) = Some (r, st')"
    "visit_post A pm lvs b owned Inv upd (may_fail ok) 0 (lv_span lv) (lv_entries lv * lv_span lv) s e (mem, vs) r st'"
proof -
  have A: "wf_arch A" and D: "D < length (LEVELS A)" using arch_ok [OF inv] by simp_all
  obtain rest where lvs: "lvs = lv # rest" using D by (metis Cons_nth_drop_Suc lv_def lvs_def)
  have L: "sub_levels A (lv # rest)" using sub_levels_drop [OF A, of D] lvs lvs_def by simp
  have wl: "wf_level lv" and ent: "lv_entries lv \<le> frame_words A" using L by simp_all
  obtain n where n: "0 < n" "s + n * lv_span lv = e" "Suc (lv_index lv (e - 1)) = lv_index lv s + n"
    "lv_index lv s + n \<le> lv_entries lv"
    and idx: "\<And>x. x div (lv_entries lv * lv_span lv) = s div (lv_entries lv * lv_span lv) \<Longrightarrow>
       lv_index lv x \<in> {lv_index lv s ..< lv_index lv s + n} \<longleftrightarrow> x \<in> {s ..< e}"
    and rd: "\<And>x. x \<in> {s ..< e} \<Longrightarrow> lv_index lv s \<le> lv_index lv x \<and> lv_index lv x < lv_index lv s + n \<and>
       round_down x (lv_span lv) = s + (lv_index lv x - lv_index lv s) * lv_span lv"
    using leaf_run [OF wl tab dvd] by metis
  let ?i = "lv_index lv s"
  have se: "s < e" "e < 2 ^ 64" using half by (simp_all add: in_half_def)
  have okj: "ok (s + j * lv_span lv) (frame_word pm mem b (?i + j))" if j: "j < n" for j
  proof -
    let ?x = "s + j * lv_span lv"
    have x: "?x \<in> {s ..< e}" using j n(1,2) by auto
    have r: "round_down ?x (lv_span lv) = ?x" using dvd(1) by simp
    have "j = lv_index lv ?x - ?i" using rd [OF x] r by (simp add: lv_span_def)
    then have ix: "lv_index lv ?x = ?i + j" using rd [OF x] by linarith
    have "walk_pre (ok ?x) 0 (pt_walk pm mem lvs b ?x)" using pre [of ?x] x r by simp
    then show ?thesis
      using pt_walk_Cons(1) [of pm mem b lv ?x rest] pt_walk_Cons(2) [of pm mem b lv ?x rest] ix lvs
      by (cases "pte_is_table (frame_word pm mem b (?i + j))") (simp_all add: walk_pre_def)
  qed
  have fb: "frame_ok A pm b" using pt_wfD(1) wf lvs by blast
  obtain mem' vs' where fill': "v_fill v \<lparr>tb_base = b, tb_depth = D\<rparr> ?i n (of_nat s) (mem, vs) = Some (Inr (), (mem', vs'))"
    and post: "Inv e vs'" "owned vs' = owned vs"
      "\<And>j. j < n \<Longrightarrow> frame_word pm mem' b (?i + j) = upd (s + j * lv_span lv) (frame_word pm mem b (?i + j))"
    and same: "\<And>b' j. frame_ok A pm b' \<Longrightarrow> j < frame_words A \<Longrightarrow> b' \<noteq> b \<or> j \<notin> {?i ..< ?i + n} \<Longrightarrow>
           frame_word pm mem' b' j = frame_word pm mem b' j"
    using fill [OF inv fb n(1), of ?i mem] n okj se unfolding lv_def by auto
  have call: "visit_range A D v \<lparr>tb_base = b, tb_depth = D\<rparr> (range_nn s e) (mem, vs) = Some (Inr (), (mem', vs'))"
  proof -
    obtain e1 where e1: "addr_sub (of_nat e) 1 = Some e1" "unat e1 = e - 1"
      using addr_sub_1 [of e] se by auto
    have "pte_index_of lv (of_nat s) = Some ?i" "pte_index_of lv e1 = Some (lv_index lv (e - 1))"
      using pte_index_of_Some [OF wl] e1 se by (simp_all add: unat_of_nat_usize)
    moreover have "nat_sub (lv_index lv (e - 1)) ?i = Some (n - 1)"
      using n by (simp add: nat_sub_def)
    ultimately show ?thesis
      using fill' e1 n(1) D by (subst visit_range.simps) (simp add: level_at_Some lv_def range_of_def)
  qed
  let ?I = "{?i ..< ?i + n}"
  have w: "frame_word pm mem' b j = upd (s + (j - ?i) * lv_span lv) (frame_word pm mem b j) \<and>
      ok (s + (j - ?i) * lv_span lv) (frame_word pm mem b j)" if "j \<in> ?I" for j
    using post(3) [of "j - ?i"] okj [of "j - ?i"] that by auto
  note up = pt_update_leaves [OF L wf [unfolded lvs], of ?I mem']
  have s1: "frame_word pm mem' b j = frame_word pm mem b j" if "j < lv_entries lv" "j \<notin> ?I" for j
    using same [of b j] fb that ent by simp
  have ag: "frames_agree A pm mem mem' (owned vs - {b})"
    unfolding frames_agree_def using same owned_ok [OF inv] by blast
  have s2: "frames_agree A pm mem mem' (pt_frames pm mem (lv # rest) b - {b})"
    by (rule frames_agree_mono [OF ag]) (use fs lvs in blast)
  have s3: "\<not> pte_is_table (frame_word pm mem b j) \<and> \<not> pte_is_table (frame_word pm mem' b j) \<and>
      leaf_ok lv (frame_word pm mem' b j)" if "j < lv_entries lv" "j \<in> ?I" for j
    using w [OF that(2)] ok_leaf lv_def by metis
  have up1: "pt_wf A pm mem' lvs b" and up2: "pt_frames pm mem' lvs b = pt_frames pm mem lvs b"
    and up3: "\<And>x. pt_walk pm mem' lvs b x =
       (if lv_index lv x \<in> ?I then (frame_word pm mem' b (lv_index lv x), 0) else pt_walk pm mem lvs b x)"
    unfolding lvs using up s1 s2 s3 by blast+
  have step: "tree_step A pm lvs b mem (owned vs) mem' (owned vs')"
  proof -
    have "b \<in> pt_frames pm mem lvs b" by (rule pt_frames_root) (simp add: lvs)
    then have "frames_agree A pm mem mem' (owned vs - pt_frames pm mem lvs b)"
      by (intro frames_agree_mono [OF ag]) blast
    then show ?thesis using up1 up2 fs post(2) by (auto simp: tree_step_def)
  qed
  have keep: "walk_keeps 0 (pt_walk pm mem lvs b x) (pt_walk pm mem' lvs b x)"
    if "x div (lv_entries lv * lv_span lv) = s div (lv_entries lv * lv_span lv)" "x \<notin> {s ..< e}" for x
    using up3 [of x] idx [OF that(1)] that(2) by (simp del: atLeastLessThan_iff)
  have fin: "walk_done (upd (round_down x (lv_span lv))) 0 (pt_walk pm mem lvs b x) (pt_walk pm mem' lvs b x)"
    if "x \<in> {s ..< e}" for x
  proof -
    have i: "lv_index lv x \<in> ?I" using rd [OF that] by simp
    have "pt_walk pm mem lvs b x = (frame_word pm mem b (lv_index lv x), 0)"
      using w [OF i] ok_leaf pt_walk_Cons(1) lvs by metis
    then show ?thesis using w [OF i] rd [OF that] i up3 [of x] by (simp add: walk_done_def)
  qed
  show thesis
    by (rule that [OF call]) (use step keep fin post(1) in \<open>simp add: visit_post_def\<close>)
qed

text \<open>Steps before and after a visit that leave every address alone.\<close>

lemma visit_post_prefix:
  assumes step: "tree_step A pm lvs b (fst st0) (owned (snd st0)) (fst st1) (owned (snd st1))"
    and keep: "\<And>x. walk_keeps n (pt_walk pm (fst st0) lvs b x) (pt_walk pm (fst st1) lvs b x)"
    and post: "visit_post A pm lvs b owned Inv upd (may_fail ok) n sp T s e st1 r st2"
    and pre: "\<And>x. s \<le> x \<Longrightarrow> x < e \<Longrightarrow> walk_pre (ok (round_down x sp)) n (pt_walk pm (fst st0) lvs b x)"
  shows "visit_post A pm lvs b owned Inv upd (may_fail ok) n sp T s e st0 r st2"
proof -
  have fin: "walk_done (upd (round_down x sp)) n (pt_walk pm (fst st0) lvs b x) (pt_walk pm (fst st2) lvs b x)"
    if "x \<in> {s ..< e}"
      "walk_done (upd (round_down x sp)) n (pt_walk pm (fst st1) lvs b x) (pt_walk pm (fst st2) lvs b x)" for x
    using walk_pre_keeps(2) [OF pre keep that(2)] that(1) by simp
  have kk: "walk_keeps n (pt_walk pm (fst st0) lvs b x) (pt_walk pm (fst st2) lvs b x)"
    if "walk_keeps n (pt_walk pm (fst st1) lvs b x) (pt_walk pm (fst st2) lvs b x)" for x
    by (rule walk_keeps_trans [OF keep that])
  have "tree_step A pm lvs b (fst st0) (owned (snd st0)) (fst st2) (owned (snd st2))"
    using tree_step_trans step post unfolding visit_post_def by blast
  then show ?thesis
    using post fin kk unfolding visit_post_def by (cases r) (simp_all del: atLeastLessThan_iff, blast+)
qed

lemma visit_post_suffix:
  assumes post: "visit_post A pm lvs b owned Inv upd (may_fail ok) n sp T s e st0 (Inr ()) st1"
    and step: "tree_step A pm lvs b (fst st1) (owned (snd st1)) (fst st2) (owned (snd st2))"
    and keep: "\<And>x. walk_keeps n (pt_walk pm (fst st1) lvs b x) (pt_walk pm (fst st2) lvs b x)"
    and inv: "Inv e (snd st2)"
  shows "visit_post A pm lvs b owned Inv upd (may_fail ok) n sp T s e st0 (Inr ()) st2"
proof -
  have "tree_step A pm lvs b (fst st0) (owned (snd st0)) (fst st2) (owned (snd st2))"
    using tree_step_trans [OF _ step] post unfolding visit_post_def by blast
  then show ?thesis
    using post walk_keeps_trans [OF _ keep] walk_done_keeps [OF _ keep] inv
    unfolding visit_post_def sum.case by blast
qed

text \<open>A visit of the child table below the entry \<open>i\<close> is a visit of the parent.\<close>

lemma visit_post_lift:
  assumes L: "sub_levels A (lv # lvs)" and wf: "pt_wf A pm mem (lv # lvs) b"
    and c: "pte_is_table (frame_word pm mem b (lv_index lv s))" "c = pte_address (frame_word pm mem b (lv_index lv s))"
    and fs: "pt_frames pm mem (lv # lvs) b \<subseteq> owned vs"
    and slot: "\<And>x. s \<le> x \<Longrightarrow> x < e \<Longrightarrow> lv_index lv x = lv_index lv s"
    and post: "visit_post A pm lvs c owned Inv upd (may_fail ok) n sp (lv_span lv) s e (mem, vs) r st'"
  shows "visit_post A pm (lv # lvs) b owned Inv upd (may_fail ok) (Suc n) sp (lv_entries lv * lv_span lv) s e (mem, vs) r st'"
    "frame_word pm (fst st') b (lv_index lv s) = frame_word pm mem b (lv_index lv s)"
proof -
  let ?i = "lv_index lv s"
  have i: "?i < lv_entries lv" using L by simp
  have "tree_step A pm lvs c mem (owned vs) (fst st') (owned (snd st'))"
    using post by (simp add: visit_post_def)
  note par = tree_step_parent [OF L wf i c fs this]
  show "frame_word pm (fst st') b ?i = frame_word pm mem b ?i" by (rule par(2))
  let ?w = "pt_walk pm mem (lv # lvs) b" and ?w' = "pt_walk pm (fst st') (lv # lvs) b"
  let ?c = "pt_walk pm mem lvs c" and ?c' = "pt_walk pm (fst st') lvs c"
  have w: "?w x = (fst (?c x), Suc (snd (?c x)))" if "lv_index lv x = ?i" for x
    using pt_walk_Cons(2) [of pm mem b lv x lvs] that c by simp
  have blk: "x div lv_span lv = s div lv_span lv"
    if "x div (lv_entries lv * lv_span lv) = s div (lv_entries lv * lv_span lv)" "lv_index lv x = ?i" for x
    using block_index [of x lv] block_index [of s lv] that by simp
  have keep: "walk_keeps (Suc n) (?w x) (?w' x)"
    if "x div (lv_entries lv * lv_span lv) = s div (lv_entries lv * lv_span lv)" "x \<notin> {s ..< e}" for x
  proof (cases "lv_index lv x = ?i")
    case True
    then have "walk_keeps n (?c x) (?c' x)" using post blk [OF that(1)] that(2) by (simp add: visit_post_def)
    then show ?thesis using walk_lift(1) w [OF True] par(4) [OF True] by simp
  qed (simp add: par(3))
  have fin: "walk_done u n (?c x) (?c' x) \<Longrightarrow> walk_done u (Suc n) (?w x) (?w' x)"
    "walk_keeps n (?c x) (?c' x) \<Longrightarrow> walk_keeps (Suc n) (?w x) (?w' x)" if "x \<in> {s ..< e}" for x u
    using walk_lift w [OF slot] par(4) [OF slot] that by simp_all
  show "visit_post A pm (lv # lvs) b owned Inv upd (may_fail ok) (Suc n) sp (lv_entries lv * lv_span lv) s e (mem, vs) r st'"
    using post par(1) keep fin unfolding visit_post_def by (cases r) (simp_all del: atLeastLessThan_iff, blast+)
qed

text \<open>Visiting an existing child table and coming back up.\<close>

lemma visit_child:
  fixes d defines "lv \<equiv> LEVELS A ! d" and "lvs \<equiv> drop (Suc d) (LEVELS A)"
  assumes d: "d < D" and inv: "Inv s vs" and wf: "pt_wf A pm mem (lv # lvs) b"
    and fs: "pt_frames pm mem (lv # lvs) b \<subseteq> owned vs"
    and c: "pte_is_table (frame_word pm mem b (lv_index lv s))" "c = pte_address (frame_word pm mem b (lv_index lv s))"
    and slot: "\<And>x. s \<le> x \<Longrightarrow> x < e \<Longrightarrow> lv_index lv x = lv_index lv s"
    and pre: "\<And>x. s \<le> x \<Longrightarrow> x < e \<Longrightarrow> walk_pre (ok (round_down x sp)) (Suc n) (pt_walk pm mem (lv # lvs) b x)"
    and child: "\<And>mem vs. Inv s vs \<Longrightarrow> pt_wf A pm mem lvs c \<Longrightarrow> pt_frames pm mem lvs c \<subseteq> owned vs \<Longrightarrow>
      (\<And>x. s \<le> x \<Longrightarrow> x < e \<Longrightarrow> walk_pre (ok (round_down x sp)) n (pt_walk pm mem lvs c x)) \<Longrightarrow>
      \<exists>r st'. m (mem, vs) = Some (r, st') \<and>
        visit_post A pm lvs c owned Inv upd (may_fail ok) n sp (lv_span lv) s e (mem, vs) r st'"
  obtains r st' where
    "act_bind m (\<lambda>_. v_ascend v \<lparr>tb_base = b, tb_depth = d\<rparr> (lv_index lv s) c (Suc d)) (mem, vs) = Some (r, st')"
    "visit_post A pm (lv # lvs) b owned Inv upd (may_fail ok) (Suc n) sp (lv_entries lv * lv_span lv) s e (mem, vs) r st'"
proof -
  have A: "wf_arch A" and D: "D < length (LEVELS A)" using arch_ok [OF inv] by simp_all
  let ?i = "lv_index lv s" and ?T = "lv_entries lv * lv_span lv"
  have L: "sub_levels A (lv # lvs)"
    using sub_levels_drop [OF A, of d] d D by (simp add: lv_def lvs_def Cons_nth_drop_Suc)
  obtain lv' rest where lvs: "lvs = lv' # rest" and lv': "lv' = LEVELS A ! Suc d"
    using d D by (metis Cons_nth_drop_Suc Suc_lessI less_trans lvs_def)
  have i: "?i < lv_entries lv" using L by simp
  have wfc: "pt_wf A pm mem lvs c" and Fc: "pt_frames pm mem lvs c \<subseteq> owned vs"
    using pt_wfD(2) [OF wf i c(1)] pt_frames_child [OF i c(1), of lvs] c(2) fs by auto
  have prec: "walk_pre (ok (round_down x sp)) n (pt_walk pm mem lvs c x)" if "s \<le> x" "x < e" for x
    using pre [OF that] pt_walk_Cons(2) [of pm mem b lv x lvs] slot [OF that] c walk_lift(3) by simp
  obtain r mem1 vs1 where m: "m (mem, vs) = Some (r, (mem1, vs1))"
    and post: "visit_post A pm lvs c owned Inv upd (may_fail ok) n sp (lv_span lv) s e (mem, vs) r (mem1, vs1)"
    using child [OF inv wfc Fc prec] by auto
  note lift = visit_post_lift [OF L wf c fs slot post]
  show thesis
  proof (cases r)
    case (Inl err)
    then show thesis using that [of "Inl err" "(mem1, vs1)"] m lift(1) by simp
  next
    case (Inr u)
    have inv1: "Inv e vs1" using post Inr by (simp add: visit_post_def)
    have step1: "tree_step A pm (lv # lvs) b mem (owned vs) mem1 (owned vs1)"
      using lift(1) by (simp add: visit_post_def)
    then have wf1: "pt_wf A pm mem1 (lv # lvs) b" and F1: "pt_frames pm mem1 (lv # lvs) b \<subseteq> owned vs1"
      by (simp_all add: tree_step_def)
    have c1: "pte_is_table (frame_word pm mem1 b ?i)" "pte_address (frame_word pm mem1 b ?i) = c"
      using lift(2) c by simp_all
    have cF: "c \<in> pt_frames pm mem1 lvs c" by (rule pt_frames_root) (simp add: lvs)
    have bc: "b \<in> owned vs1" "c \<in> owned vs1" "b \<noteq> c"
      using pt_frames_root [of "lv # lvs" b pm mem1] F1 pt_frames_child [OF i c1(1), of lvs] cF c1(2)
        pt_wfD(3) [OF wf1 i c1(1)] by auto
    obtain mem2 vs2 where asc: "v_ascend v \<lparr>tb_base = b, tb_depth = d\<rparr> ?i c (Suc d) (mem1, vs1) = Some (Inr (), (mem2, vs2))"
      and inv2: "Inv e vs2"
      and eff: "mem2 = mem1 \<and> owned vs2 = owned vs1 \<or>
         (\<forall>j < lv_entries lv'. pte_is_vacant (frame_word pm mem1 c j)) \<and>
         frame_word pm mem2 b ?i = 0 \<and> owned vs2 = owned vs1 - {c} \<and>
         (\<forall>b' j. frame_ok A pm b' \<and> j < frame_words A \<and> (b' \<noteq> b \<or> j \<noteq> ?i) \<longrightarrow>
            frame_word pm mem2 b' j = frame_word pm mem1 b' j)"
      using ascend [OF inv1 d bc i [unfolded lv_def] c1 [unfolded lv_def]] unfolding lv' lv_def by blast
    have "tree_step A pm (lv # lvs) b mem1 (owned vs1) mem2 (owned vs2) \<and>
       (\<forall>x. walk_keeps (Suc n) (pt_walk pm mem1 (lv # lvs) b x) (pt_walk pm mem2 (lv # lvs) b x))"
      using eff
    proof
      assume "mem2 = mem1 \<and> owned vs2 = owned vs1"
      then show ?thesis using tree_step_refl [OF wf1 F1] by simp
    next
      assume e: "(\<forall>j < lv_entries lv'. pte_is_vacant (frame_word pm mem1 c j)) \<and>
         frame_word pm mem2 b ?i = 0 \<and> owned vs2 = owned vs1 - {c} \<and>
         (\<forall>b' j. frame_ok A pm b' \<and> j < frame_words A \<and> (b' \<noteq> b \<or> j \<noteq> ?i) \<longrightarrow>
            frame_word pm mem2 b' j = frame_word pm mem1 b' j)"
      note pr = tree_step_prune [OF L [unfolded lvs] wf1 [unfolded lvs] i F1 [unfolded lvs] c1, of mem2]
      have e1: "\<And>j. j < lv_entries lv' \<Longrightarrow> pte_is_vacant (frame_word pm mem1 c j)"
        and e2: "frame_word pm mem2 b ?i = 0" and e3: "owned vs2 = owned vs1 - {c}"
        and e4: "\<And>b' j. frame_ok A pm b' \<Longrightarrow> j < frame_words A \<Longrightarrow> b' \<noteq> b \<or> j \<noteq> ?i \<Longrightarrow>
            frame_word pm mem2 b' j = frame_word pm mem1 b' j"
        using e by blast+
      note ow = owned_ok [OF inv1]
      have "walk_keeps (Suc n) (pt_walk pm mem1 (lv # lvs) b x) (pt_walk pm mem2 (lv # lvs) b x)" for x
      proof (cases "lv_index lv x = ?i")
        case True
        show ?thesis using pr(3) [OF e1 e2 ow e4 True] by (simp add: walk_keeps_def lvs)
      next
        case False
        show ?thesis using pr(2) [OF e1 e2 ow e4 False] by (simp add: lvs)
      qed
      then show ?thesis using pr(1) [OF e1 e2 ow e4] e3 by (simp add: lvs)
    qed
    then have "visit_post A pm (lv # lvs) b owned Inv upd (may_fail ok) (Suc n) sp ?T s e (mem, vs) (Inr ()) (mem2, vs2)"
      using visit_post_suffix [of "lv # lvs" b "Suc n" sp ?T s e "(mem, vs)" "(mem1, vs1)" "(mem2, vs2)"]
        lift(1) inv2 Inr by simp
    then show thesis using that [of "Inr ()" "(mem2, vs2)"] m Inr asc by simp
  qed
qed

text \<open>One entry of an interior table: descend, visit the child, ascend.\<close>

lemma visit_slot:
  fixes d defines "lv \<equiv> LEVELS A ! d" and "lvs \<equiv> drop (Suc d) (LEVELS A)"
  assumes d: "d < D" and inv: "Inv s vs" and wf: "pt_wf A pm mem (lv # lvs) b"
    and fs: "pt_frames pm mem (lv # lvs) b \<subseteq> owned vs" and se: "s < e"
    and slot: "\<And>x. s \<le> x \<Longrightarrow> x < e \<Longrightarrow> lv_index lv x = lv_index lv s"
    and pre: "\<And>x. s \<le> x \<Longrightarrow> x < e \<Longrightarrow> walk_pre (ok (round_down x sp)) (Suc n) (pt_walk pm mem (lv # lvs) b x)"
    and child: "\<And>c mem vs. Inv s vs \<Longrightarrow> pt_wf A pm mem lvs c \<Longrightarrow> pt_frames pm mem lvs c \<subseteq> owned vs \<Longrightarrow>
      (\<And>x. s \<le> x \<Longrightarrow> x < e \<Longrightarrow> walk_pre (ok (round_down x sp)) n (pt_walk pm mem lvs c x)) \<Longrightarrow>
      \<exists>r st'. m c (mem, vs) = Some (r, st') \<and>
        visit_post A pm lvs c owned Inv upd (may_fail ok) n sp (lv_span lv) s e (mem, vs) r st'"
  obtains r st' where
    "act_bind (v_descend v \<lparr>tb_base = b, tb_depth = d\<rparr> (lv_index lv s)) (\<lambda>ch.
       case ch of None \<Rightarrow> act_ok () | Some c \<Rightarrow>
         act_bind (m c) (\<lambda>_. v_ascend v \<lparr>tb_base = b, tb_depth = d\<rparr> (lv_index lv s) c (Suc d))) (mem, vs) = Some (r, st')"
    "visit_post A pm (lv # lvs) b owned Inv upd (may_fail ok) (Suc n) sp (lv_entries lv * lv_span lv) s e (mem, vs) r st'"
proof -
  have A: "wf_arch A" and D: "D < length (LEVELS A)" using arch_ok [OF inv] by simp_all
  let ?i = "lv_index lv s" and ?T = "lv_entries lv * lv_span lv"
  let ?e = "frame_word pm mem b ?i"
  have L: "sub_levels A (lv # lvs)"
    using sub_levels_drop [OF A, of d] d D by (simp add: lv_def lvs_def Cons_nth_drop_Suc)
  have i: "?i < lv_entries lv" and ne: "lvs \<noteq> []" using L d D by (simp_all add: lvs_def)
  have fb: "frame_ok A pm b" using pt_wfD(1) [OF wf] .
  have bo: "b \<in> owned vs" using fs pt_frames_root [of "lv # lvs" b pm mem] by auto
  note vc = visit_child [OF d, folded lv_def lvs_def]
  show thesis
  proof (cases "pte_is_table ?e")
    case True
    show thesis
      by (rule vc [OF inv wf fs True refl slot pre child])
        (use that descend_table [OF inv d fb i [unfolded lv_def] True [unfolded lv_def]] in \<open>auto simp: lv_def\<close>)
  next
    case False
    have vac: "pte_is_vacant ?e" and okq: "ok (round_down s sp) ?e"
      using pre [of s] se pt_walk_Cons(1) [of pm mem b lv s lvs] False by (simp_all add: walk_pre_def)
    obtain r mem1 vs1 where desc: "v_descend v \<lparr>tb_base = b, tb_depth = d\<rparr> ?i (mem, vs) = Some (r, (mem1, vs1))"
      and inv1: "Inv s vs1"
      and eff: "case r of
           Inl err \<Rightarrow> mem1 = mem \<and> owned vs1 = owned vs
         | Inr None \<Rightarrow> False
         | Inr (Some c) \<Rightarrow> frame_ok A pm c \<and> c \<notin> owned vs \<and> owned vs1 = insert c (owned vs) \<and>
             pte_is_table (frame_word pm mem1 b ?i) \<and> pte_address (frame_word pm mem1 b ?i) = c \<and>
             (\<forall>j < frame_words A. frame_word pm mem1 c j = 0) \<and>
             (\<forall>b' j. frame_ok A pm b' \<and> j < frame_words A \<and> b' \<noteq> c \<and> (b' \<noteq> b \<or> j \<noteq> ?i) \<longrightarrow>
                frame_word pm mem1 b' j = frame_word pm mem b' j)"
      using descend_vacant [OF inv d bo i [unfolded lv_def] vac [unfolded lv_def] okq [unfolded lv_def]]
      unfolding lv_def by blast
    consider (err) err where "r = Inl err" | (ok) c where "r = Inr (Some c)"
      using eff by (cases r) (auto split: option.splits)
    then show thesis
    proof cases
      case err
      then have "visit_post A pm (lv # lvs) b owned Inv upd (may_fail ok) (Suc n) sp ?T s e (mem, vs) (Inl err) (mem1, vs1)"
        using visit_post_refl [OF wf fs _ inv1 okq vac] eff by simp
      then show thesis using that [of "Inl err" "(mem1, vs1)"] desc err by simp
    next
      case ok
      have c: "frame_ok A pm c" "c \<notin> owned vs" and own1: "owned vs1 = insert c (owned vs)"
        and c1: "pte_is_table (frame_word pm mem1 b ?i)" "pte_address (frame_word pm mem1 b ?i) = c"
        and z: "\<And>j. j < frame_words A \<Longrightarrow> frame_word pm mem1 c j = 0"
        and same: "\<And>b' j. frame_ok A pm b' \<Longrightarrow> j < frame_words A \<Longrightarrow> b' \<noteq> c \<Longrightarrow> b' \<noteq> b \<or> j \<noteq> ?i \<Longrightarrow>
                frame_word pm mem1 b' j = frame_word pm mem b' j"
        using eff ok by simp_all
      note ins = tree_step_install [OF L ne wf i fs vac c c1]
      have ins1: "tree_step A pm (lv # lvs) b mem (owned vs) mem1 (insert c (owned vs))"
        by (rule ins(1)) (use z same owned_ok [OF inv] in blast)+
      have keep: "walk_keeps (Suc n) (pt_walk pm mem (lv # lvs) b x) (pt_walk pm mem1 (lv # lvs) b x)" for x
      proof (cases "lv_index lv x = ?i")
        case True
        have "pt_walk pm mem (lv # lvs) b x = (?e, 0) \<and> pt_walk pm mem1 (lv # lvs) b x = (0, 1)"
          by (rule ins(4)) (use z same owned_ok [OF inv] True in blast)+
        then show ?thesis using vac by (simp add: walk_keeps_def)
      next
        case False
        have "pt_walk pm mem1 (lv # lvs) b x = pt_walk pm mem (lv # lvs) b x"
          by (rule ins(3)) (use z same owned_ok [OF inv] False in blast)+
        then show ?thesis by simp
      qed
      have wf1: "pt_wf A pm mem1 (lv # lvs) b" and fs1: "pt_frames pm mem1 (lv # lvs) b \<subseteq> owned vs1"
        using ins1 own1 by (simp_all add: tree_step_def)
      have pre1: "walk_pre (ok (round_down x sp)) (Suc n) (pt_walk pm mem1 (lv # lvs) b x)"
        if "s \<le> x" "x < e" for x
        by (rule walk_pre_keeps(1) [OF pre [OF that] keep])
      obtain r' st' where vis: "act_bind (m c) (\<lambda>_. v_ascend v \<lparr>tb_base = b, tb_depth = d\<rparr> ?i c (Suc d)) (mem1, vs1) = Some (r', st')"
        and post: "visit_post A pm (lv # lvs) b owned Inv upd (may_fail ok) (Suc n) sp ?T s e (mem1, vs1) r' st'"
        using vc [OF inv1 wf1 fs1 c1(1) c1(2) [symmetric] slot pre1 child] by blast
      have "visit_post A pm (lv # lvs) b owned Inv upd (may_fail ok) (Suc n) sp ?T s e (mem, vs) r' st'"
        by (rule visit_post_prefix [OF _ _ post]) (use ins1 own1 keep pre in simp_all)
      then show thesis using that [of r' st'] desc ok vis by simp
    qed
  qed
qed

text \<open>The loop over the entries of an interior table, and the whole walk by recursion on the depth.\<close>

lemma visit_slots:
  fixes d defines "lv \<equiv> LEVELS A ! d" and "lvs \<equiv> drop (Suc d) (LEVELS A)"
  assumes d: "d < D" and inv: "Inv s vs" and wf: "pt_wf A pm mem (lv # lvs) b"
    and fs: "pt_frames pm mem (lv # lvs) b \<subseteq> owned vs" and tab: "in_table lv s e"
    and pre: "\<And>x. s \<le> x \<Longrightarrow> x < e \<Longrightarrow> walk_pre (ok (round_down x sp)) (Suc n) (pt_walk pm mem (lv # lvs) b x)"
    and child: "\<And>i s' e' c mem vs. (i, s', e') \<in> set (slot_ranges lv s e) \<Longrightarrow>
      Inv s' vs \<Longrightarrow> pt_wf A pm mem lvs c \<Longrightarrow> pt_frames pm mem lvs c \<subseteq> owned vs \<Longrightarrow>
      (\<And>x. s' \<le> x \<Longrightarrow> x < e' \<Longrightarrow> walk_pre (ok (round_down x sp)) n (pt_walk pm mem lvs c x)) \<Longrightarrow>
      \<exists>r st'. m s' e' c (mem, vs) = Some (r, st') \<and>
        visit_post A pm lvs c owned Inv upd (may_fail ok) n sp (lv_span lv) s' e' (mem, vs) r st'"
  shows "\<exists>r st'. for_list (\<lambda>(i, s', e'). act_bind (v_descend v \<lparr>tb_base = b, tb_depth = d\<rparr> i) (\<lambda>ch.
       case ch of None \<Rightarrow> act_ok () | Some c \<Rightarrow>
         act_bind (m s' e' c) (\<lambda>_. v_ascend v \<lparr>tb_base = b, tb_depth = d\<rparr> i c (Suc d))))
       (slot_ranges lv s e) (mem, vs) = Some (r, st') \<and>
    visit_post A pm (lv # lvs) b owned Inv upd (may_fail ok) (Suc n) sp (lv_entries lv * lv_span lv) s e (mem, vs) r st'"
  using inv wf fs tab pre child
proof (induction "e - s" arbitrary: s vs mem rule: less_induct)
  case less
  let ?b = "round_down s (lv_span lv) + lv_span lv" and ?T = "lv_entries lv * lv_span lv"
  let ?p = "min e ?b"
  let ?body = "\<lambda>(i, s', e'). act_bind (v_descend v \<lparr>tb_base = b, tb_depth = d\<rparr> i) (\<lambda>ch.
       case ch of None \<Rightarrow> act_ok () | Some c \<Rightarrow>
         act_bind (m s' e' c) (\<lambda>_. v_ascend v \<lparr>tb_base = b, tb_depth = d\<rparr> i c (Suc d)))"
  have se: "s < e" using less.prems(4) by (simp add: in_table_def)
  note cons = slot_ranges_Cons [OF se, of lv]
  have sp: "s < ?p" "?p \<le> e" using slot_end_bounds [OF se] by blast+
  have slot: "lv_index lv x = lv_index lv s" if "s \<le> x" "x < ?p" for x
    by (rule lv_index_same_slot) (use that in simp_all)
  have blk: "x div ?T = s div ?T" if "s \<le> x" "x < e" for x
    using in_table_sub [OF less.prems(4), of s "Suc x"] that by (simp add: in_table_def)
  have ch: "\<exists>r st'. m s ?p c (mem, vs) = Some (r, st') \<and>
        visit_post A pm lvs c owned Inv upd (may_fail ok) n sp (lv_span lv) s ?p (mem, vs) r st'"
    if "Inv s vs" "pt_wf A pm mem lvs c" "pt_frames pm mem lvs c \<subseteq> owned vs"
      "\<And>x. s \<le> x \<Longrightarrow> x < ?p \<Longrightarrow> walk_pre (ok (round_down x sp)) n (pt_walk pm mem lvs c x)" for c mem vs
    by (rule less.prems(6) [of "lv_index lv s"]) (use cons that in auto)
  obtain r mem1 vs1 where body: "?body (lv_index lv s, s, ?p) (mem, vs) = Some (r, (mem1, vs1))"
    and post: "visit_post A pm (lv # lvs) b owned Inv upd (may_fail ok) (Suc n) sp ?T s ?p (mem, vs) r (mem1, vs1)"
  proof -
    show thesis
      by (rule visit_slot [OF d less.prems(1), folded lv_def lvs_def, OF less.prems(2,3) sp(1) slot, of sp n "m s ?p"])
        (use less.prems(5) sp(2) ch that in auto)
  qed
  show ?case
  proof (cases r)
    case (Inl err)
    then have "visit_post A pm (lv # lvs) b owned Inv upd (may_fail ok) (Suc n) sp ?T s e (mem, vs) (Inl err) (mem1, vs1)"
      by (intro visit_post_error [OF _ sp(2) blk]) (use post in simp_all)
    then show ?thesis using body Inl by (simp add: cons)
  next
    case (Inr u)
    show ?thesis
    proof (cases "?p < e")
      case False
      then have "?p = e" using sp(2) by simp
      then show ?thesis using body post Inr by (simp add: cons act_ok_def)
    next
      case True
      have step: "tree_step A pm (lv # lvs) b mem (owned vs) mem1 (owned vs1)"
        using post by (simp add: visit_post_def)
      have inv1: "Inv ?p vs1" using post Inr by (simp add: visit_post_def)
      have wf1: "pt_wf A pm mem1 (lv # lvs) b" and fs1: "pt_frames pm mem1 (lv # lvs) b \<subseteq> owned vs1"
        using step by (simp_all add: tree_step_def)
      have pre1: "walk_pre (ok (round_down x sp)) (Suc n) (pt_walk pm mem1 (lv # lvs) b x)"
        if "?p \<le> x" "x < e" for x
      proof (rule walk_pre_keeps(1))
        show "walk_pre (ok (round_down x sp)) (Suc n) (pt_walk pm mem (lv # lvs) b x)"
          using less.prems(5) that sp(1) by simp
        have "x \<notin> {s ..< ?p}" "x div ?T = s div ?T" using that sp(1) blk [of x] by (auto simp: less_le_not_le)
        then show "walk_keeps (Suc n) (pt_walk pm mem (lv # lvs) b x) (pt_walk pm mem1 (lv # lvs) b x)"
          using post unfolding visit_post_def fst_conv by blast
      qed
      obtain r' st' where rest: "for_list ?body (slot_ranges lv ?p e) (mem1, vs1) = Some (r', st')"
        and post': "visit_post A pm (lv # lvs) b owned Inv upd (may_fail ok) (Suc n) sp ?T ?p e (mem1, vs1) r' st'"
      proof -
        have "\<exists>r st'. for_list ?body (slot_ranges lv ?p e) (mem1, vs1) = Some (r, st') \<and>
           visit_post A pm (lv # lvs) b owned Inv upd (may_fail ok) (Suc n) sp ?T ?p e (mem1, vs1) r st'"
        proof (rule less.hyps [OF _ inv1 wf1 fs1])
          show "in_table lv ?p e" by (rule in_table_sub [OF less.prems(4)]) (use sp True in simp_all)
          show "\<exists>r st'. m s' e' c (mem, vs) = Some (r, st') \<and>
              visit_post A pm lvs c owned Inv upd (may_fail ok) n sp (lv_span lv) s' e' (mem, vs) r st'"
            if "(i, s', e') \<in> set (slot_ranges lv ?p e)" "Inv s' vs" "pt_wf A pm mem lvs c"
              "pt_frames pm mem lvs c \<subseteq> owned vs"
              "\<And>x. s' \<le> x \<Longrightarrow> x < e' \<Longrightarrow> walk_pre (ok (round_down x sp)) n (pt_walk pm mem lvs c x)"
            for i s' e' c mem vs
            by (rule less.prems(6) [of i, OF _ that(2-5)]) (use cons that(1) in auto)
        qed (use sp True pre1 in auto)
        then show thesis using that by blast
      qed
      have "visit_post A pm (lv # lvs) b owned Inv upd (may_fail ok) (Suc n) sp ?T s e (mem, vs) r' st'"
        by (rule visit_post_seq [OF _ post' _ True blk]) (use post Inr sp(1) less.prems(5) in auto)
      then show ?thesis using body Inr rest by (simp add: cons)
    qed
  qed
qed

lemma visit_range_correct:
  assumes "d \<le> D" "Inv s vs" "pt_wf A pm mem (drop d (LEVELS A)) b"
    "pt_frames pm mem (drop d (LEVELS A)) b \<subseteq> owned vs" "in_half A s e" "in_table (LEVELS A ! d) s e"
    "lv_span (LEVELS A ! D) dvd s" "lv_span (LEVELS A ! D) dvd e"
    "\<And>x. s \<le> x \<Longrightarrow> x < e \<Longrightarrow>
       walk_pre (ok (round_down x (lv_span (LEVELS A ! D)))) (D - d) (pt_walk pm mem (drop d (LEVELS A)) b x)"
  shows "\<exists>r st'. visit_range A D v \<lparr>tb_base = b, tb_depth = d\<rparr> (range_nn s e) (mem, vs) = Some (r, st') \<and>
    visit_post A pm (drop d (LEVELS A)) b owned Inv upd (may_fail ok) (D - d) (lv_span (LEVELS A ! D))
      (lv_entries (LEVELS A ! d) * lv_span (LEVELS A ! d)) s e (mem, vs) r st'"
  using assms
proof (induction "D - d" arbitrary: d s e vs mem b)
  case 0
  then have d: "d = D" by simp
  show ?case
    by (rule visit_range_leaf [of s vs mem b e]) (use 0 d in auto)
next
  case (Suc n)
  let ?lv = "LEVELS A ! d" and ?lvs = "drop (Suc d) (LEVELS A)" and ?sp = "lv_span (LEVELS A ! D)"
  have A: "wf_arch A" and D: "D < length (LEVELS A)" using arch_ok [OF Suc.prems(2)] by simp_all
  have d: "d < D" and n: "D - Suc d = n" "D - d = Suc n" using Suc.hyps(2) by simp_all
  have lvs: "drop d (LEVELS A) = ?lv # ?lvs" using d D by (simp add: Cons_nth_drop_Suc)
  have span: "lv_span ?lv = lv_entries (LEVELS A ! Suc d) * lv_span (LEVELS A ! Suc d)"
    by (rule wf_levels_nth) (use A d D wf_arch_levels(1) in auto)
  have lvin: "?lv \<in> set (LEVELS A)" using d D by simp
  have spd: "?sp dvd lv_span ?lv"
    by (rule lv_span_dvd) (use A d D wf_arch_levels(1) in auto)
  let ?m = "\<lambda>s' e' c. visit_range A D v \<lparr>tb_base = c, tb_depth = Suc d\<rparr> (range_nn s' e')"
  have child: "\<exists>r st'. ?m s' e' c (mem, vs) = Some (r, st') \<and>
        visit_post A pm ?lvs c owned Inv upd (may_fail ok) n ?sp (lv_span ?lv) s' e' (mem, vs) r st'"
    if "(i, s', e') \<in> set (slot_ranges ?lv s e)" "Inv s' vs" "pt_wf A pm mem ?lvs c"
      "pt_frames pm mem ?lvs c \<subseteq> owned vs"
      "\<And>x. s' \<le> x \<Longrightarrow> x < e' \<Longrightarrow> walk_pre (ok (round_down x ?sp)) n (pt_walk pm mem ?lvs c x)"
    for i s' e' c mem vs
  proof -
    have sub: "s \<le> s'" "s' < e'" "e' \<le> e" "?sp dvd s'" "?sp dvd e'" "in_table (LEVELS A ! Suc d) s' e'"
      using slot_ranges_bounds [OF that(1) spd Suc.prems(7,8)] span by (auto simp: in_table_def)
    have half: "in_half A s' e'" by (rule in_half_sub [OF Suc.prems(5)]) (use sub in auto)
    show ?thesis
      using Suc.hyps(1) [of "Suc d" s' vs mem c e'] n d span that sub half by simp
  qed
  obtain it where it: "page_table_entries_for A (range_nn s e) ?lv = Some it"
    and loop: "\<And>body :: nat \<times> addr_range \<Rightarrow> (mem \<times> 'v, 'e, unit) act. for_entries A it body =
       for_list (\<lambda>(i, s', e'). body (i, range_nn s' e')) (slot_ranges ?lv s e)"
    using page_table_entries_for_slots [OF A lvin Suc.prems(5,6)] by blast
  have eq: "visit_range A D v \<lparr>tb_base = b, tb_depth = d\<rparr> (range_nn s e) =
      for_list (\<lambda>(i, s', e'). act_bind (v_descend v \<lparr>tb_base = b, tb_depth = d\<rparr> i) (\<lambda>ch.
       case ch of None \<Rightarrow> act_ok () | Some c \<Rightarrow>
         act_bind (?m s' e' c) (\<lambda>_. v_ascend v \<lparr>tb_base = b, tb_depth = d\<rparr> i c (Suc d))))
       (slot_ranges ?lv s e)"
    using d D by (subst visit_range.simps) (simp add: level_at_Some it loop table_from_raw_parts_def)
  show ?case
    unfolding eq lvs n(2)
    by (rule visit_slots [OF d Suc.prems(2)]) (use Suc.prems lvs n child in auto)
qed

text \<open>The walk from the root.\<close>

lemma visit_correct:
  assumes S: "leaf_depth_of A S = Some D" and inv: "Inv s vs" and wf: "pt_wf A pm mem (LEVELS A) b"
    and fs: "pt_frames pm mem (LEVELS A) b \<subseteq> owned vs" and half: "in_half A s e"
    and dvd: "unat (page_BYTES S) dvd s" "unat (page_BYTES S) dvd e"
    and pre: "\<And>x. s \<le> x \<Longrightarrow> x < e \<Longrightarrow>
       walk_pre (ok (round_down x (unat (page_BYTES S)))) D (pt_walk pm mem (LEVELS A) b x)"
  shows "\<exists>r st'. table_visit A S D v \<lparr>tb_base = b, tb_depth = 0\<rparr> (range_nn s e) (mem, vs) = Some (r, st') \<and>
    visit_post A pm (LEVELS A) b owned Inv upd (may_fail ok) D (unat (page_BYTES S)) (2 ^ VIRTUAL_ADDRESS_BITS A) s e (mem, vs) r st'"
proof -
  have A: "wf_arch A" using arch_ok [OF inv] by simp
  note D = leaf_depth_of_span [OF A S]
  have T: "lv_entries (LEVELS A ! 0) * lv_span (LEVELS A ! 0) = 2 ^ VIRTUAL_ADDRESS_BITS A"
    using VIRTUAL_ADDRESS_BITS_span [OF A] wf_arch_levels(2) [OF A] by (simp add: hd_conv_nth)
  show ?thesis
    using visit_range_correct [of 0 s vs mem b e, OF _ inv] wf fs half in_half_in_table [OF A half] dvd pre
      table_visit_is_visit_range [OF A S _ dvd(1) half, of "\<lparr>tb_base = b, tb_depth = 0\<rparr>" v]
    unfolding D(2) T by simp
qed

end

end
