(* ===== verification/Translation.thy ===== *)
theory Translation
  imports Address_Space Table_Visitor
begin

text \<open>
  What an address space translates: \<open>lookup\<close> of \<^verbatim>\<open>lib/mem-mmu/src/address_space.rs\<close> computes the
  walk of the tree, so the effect of a visit on walks is its effect on translations.
\<close>

section \<open>Well-formed address spaces\<close>

definition wf_space :: "PhysMap \<Rightarrow> mem \<Rightarrow> HardwareAddressSpace \<Rightarrow> bool" where
  "wf_space pm mem sp \<longleftrightarrow>
     wf_arch (as_arch sp) \<and> wf_physmap pm \<and> tb_depth (as_root_page_table sp) = 0 \<and>
     pt_wf (as_arch sp) pm mem (LEVELS (as_arch sp)) (tb_base (as_root_page_table sp))"

definition space_frames :: "PhysMap \<Rightarrow> mem \<Rightarrow> HardwareAddressSpace \<Rightarrow> paddr set" where
  "space_frames pm mem sp = pt_frames pm mem (LEVELS (as_arch sp)) (tb_base (as_root_page_table sp))"

definition space_walk :: "PhysMap \<Rightarrow> mem \<Rightarrow> HardwareAddressSpace \<Rightarrow> nat \<Rightarrow> pte \<times> nat" where
  "space_walk pm mem sp v = pt_walk pm mem (LEVELS (as_arch sp)) (tb_base (as_root_page_table sp)) v"

text \<open>What an entry at a level says about an address.\<close>

definition translation :: "arch \<Rightarrow> vaddr \<Rightarrow> pte \<times> nat \<Rightarrow> (paddr \<times> MemoryAttributes \<times> PageTableLevel) option" where
  "translation A virt = (\<lambda>(e, n).
     if pte_is_leaf e
     then Some (pte_address e OR (virt AND (level_page_size (LEVELS A ! n) - 1)),
                the (pte_attributes e), LEVELS A ! n)
     else None)"

text \<open>The addresses of the two canonical halves.\<close>

definition canonical :: "arch \<Rightarrow> nat \<Rightarrow> bool" where
  "canonical A v \<longleftrightarrow>
     v < 2 ^ (VIRTUAL_ADDRESS_BITS A - 1) \<or> 2 ^ 64 - 2 ^ (VIRTUAL_ADDRESS_BITS A - 1) \<le> v \<and> v < 2 ^ 64"

section \<open>Access to the entries of a table\<close>

lemma frame_cell_0: "unat (GRANULE_SIZE A) < 2 ^ 56 \<Longrightarrow> i < frame_words A \<Longrightarrow> 8 * i < 2 ^ 56"
  by (simp add: frame_words_def)

lemma GRANULE_SIZE_bound: "wf_arch A \<Longrightarrow> unat (GRANULE_SIZE A) < 2 ^ 56"
  by (erule GRANULE_SIZE_pow2) (metis nat_power_less_imp_less one_less_numeral_iff power_strict_increasing semiring_norm(76))

lemma table_entry_address_ok:
  assumes "wf_arch A" "wf_physmap pm" "frame_ok A pm b" "i < frame_words A"
  shows "table_entry_address \<lparr>tb_base = b, tb_depth = d\<rparr> i pm = Some (frame_cell pm b i)"
proof -
  have i: "8 * i < 2 ^ 56" by (rule frame_cell_0 [OF GRANULE_SIZE_bound assms(4)]) (rule assms(1))
  then have u: "unat (of_nat i :: usize) = i" "unat (of_nat (8 * i) :: usize) = 8 * i"
    by (intro unat_of_nat_usize; simp)+
  have "usize_mul (of_nat i) 8 = Some (of_nat (8 * i))"
    using i u by (simp add: usize_mul_eq_Some del: of_nat_mult)
  moreover have "unat b < 2 ^ 56" using assms(3) by (simp add: frame_ok_def)
  then have "addr_add b (of_nat (8 * i)) = Some (b + of_nat (8 * i))"
    using i u frame_cell_phys(1) [OF assms(1,3,4)] by (simp add: addr_add_eq_Some del: of_nat_mult)
  ultimately show ?thesis
    using frame_cell_virt(1) [OF assms] by (simp add: table_entry_address_def del: of_nat_mult)
qed

lemma table_get_ok:
  assumes "wf_arch A" "wf_physmap pm" "frame_ok A pm b" "i < frame_words A"
  shows "table_get \<lparr>tb_base = b, tb_depth = d\<rparr> i pm mem = Some (frame_word pm mem b i)"
  using table_entry_address_ok [OF assms] frame_read [OF assms] by (simp add: table_get_def)

lemma table_set_ok:
  assumes "wf_arch A" "wf_physmap pm" "frame_ok A pm b" "i < lv_entries (LEVELS A ! d)" "d < length (LEVELS A)"
  obtains mem' where "table_set A \<lparr>tb_base = b, tb_depth = d\<rparr> i e pm mem = Some mem'"
    "frame_word pm mem' b i = e"
    "\<And>b' i'. frame_ok A pm b' \<Longrightarrow> i' < frame_words A \<Longrightarrow> b' \<noteq> b \<or> i' \<noteq> i \<Longrightarrow>
       frame_word pm mem' b' i' = frame_word pm mem b' i'"
proof -
  have i: "i < frame_words A"
    using assms(4,5) lv_entries_words [OF assms(1), of "LEVELS A ! d"] by simp
  show thesis
    by (rule frame_write [OF assms(1-3) i, of mem e])
      (use that table_entry_address_ok [OF assms(1-3) i] assms(4,5) in \<open>simp add: table_set_def level_at_Some\<close>)
qed

section \<open>Lookup computes the walk\<close>

text \<open>Where a walk ends in a tree.\<close>

lemma pt_walk_end:
  assumes "pt_wf A pm mem lvs b" "sub_levels A lvs"
  shows "snd (pt_walk pm mem lvs b v) < length lvs"
    "\<not> pte_is_table (fst (pt_walk pm mem lvs b v))"
    "leaf_ok (lvs ! snd (pt_walk pm mem lvs b v)) (fst (pt_walk pm mem lvs b v))"
proof -
  have "snd (pt_walk pm mem lvs b v) < length lvs \<and> \<not> pte_is_table (fst (pt_walk pm mem lvs b v)) \<and>
    leaf_ok (lvs ! snd (pt_walk pm mem lvs b v)) (fst (pt_walk pm mem lvs b v))"
    using assms
  proof (induction lvs arbitrary: b)
    case Nil
    then show ?case using pt_wf_nonempty by blast
  next
    case (Cons lv lvs)
    let ?e = "frame_word pm mem b (lv_index lv v)"
    have i: "lv_index lv v < lv_entries lv" using Cons.prems(2) by simp
    show ?case
    proof (cases "pte_is_table ?e")
      case True
      then show ?thesis
        using Cons.IH [OF pt_wfD(2) [OF Cons.prems(1) i True]] Cons.prems(2) by (simp add: pt_walk_Cons(2))
    next
      case False
      then show ?thesis using pt_wfD(4) [OF Cons.prems(1) i False] by (simp add: pt_walk_Cons(1))
    qed
  qed
  then show "snd (pt_walk pm mem lvs b v) < length lvs"
    "\<not> pte_is_table (fst (pt_walk pm mem lvs b v))"
    "leaf_ok (lvs ! snd (pt_walk pm mem lvs b v)) (fst (pt_walk pm mem lvs b v))" by blast+
qed

lemma lookup_levels_walk:
  assumes "wf_arch A" "wf_physmap pm" "pt_wf A pm mem (drop d (LEVELS A)) b"
  shows "lookup_levels A pm mem virt \<lparr>tb_base = b, tb_depth = d\<rparr> (drop d (LEVELS A)) =
     Some (translation A virt (fst (pt_walk pm mem (drop d (LEVELS A)) b (unat virt)),
                               d + snd (pt_walk pm mem (drop d (LEVELS A)) b (unat virt))))"
  using assms(3)
proof (induction "length (LEVELS A) - d" arbitrary: d b)
  case 0
  then show ?case using pt_wf_nonempty by fastforce
next
  case (Suc n)
  have d: "d < length (LEVELS A)" using Suc.hyps(2) by simp
  let ?lv = "LEVELS A ! d" and ?lvs = "drop (Suc d) (LEVELS A)"
  have lvs: "drop d (LEVELS A) = ?lv # ?lvs" using d by (simp add: Cons_nth_drop_Suc)
  have wl: "wf_level ?lv" using wf_arch_levels(3) [OF assms(1)] d by simp
  have L: "sub_levels A (?lv # ?lvs)" using sub_levels_drop [OF assms(1), of d] lvs by simp
  let ?i = "lv_index ?lv (unat virt)"
  have i: "?i < lv_entries ?lv" "?i < frame_words A"
    using less_le_trans [OF lv_index_less [OF wl, of "unat virt"], of "frame_words A"] wl L by simp_all
  note wf = Suc.prems [unfolded lvs]
  let ?e = "frame_word pm mem b ?i"
  have get: "table_get \<lparr>tb_base = b, tb_depth = d\<rparr> ?i pm mem = Some ?e"
    by (rule table_get_ok [OF assms(1,2) pt_wfD(1) [OF wf] i(2)])
  have idx: "pte_index_of ?lv virt = Some ?i" by (rule pte_index_of_Some [OF wl])
  show ?case
  proof (cases "pte_is_table ?e")
    case True
    note wfc = pt_wfD(2) [OF wf i(1) True]
    have d1: "Suc d < length (LEVELS A)" using pt_wf_nonempty [OF wfc] by simp
    have "lookup_levels A pm mem virt \<lparr>tb_base = b, tb_depth = d\<rparr> (?lv # ?lvs) =
      lookup_levels A pm mem virt \<lparr>tb_base = pte_address ?e, tb_depth = Suc d\<rparr> ?lvs"
      using get idx True d1 by (simp add: table_from_raw_parts_def)
    then show ?thesis
      using Suc.hyps(1) [of "Suc d" "pte_address ?e"] Suc.hyps(2) wfc True unfolding lvs
      by (simp add: pt_walk_Cons(2))
  next
    case False
    have "pte_is_vacant ?e \<longleftrightarrow> \<not> pte_is_leaf ?e" using False pte_not_vacant_cases by blast
    moreover have "\<exists>a. pte_attributes ?e = Some a" if "pte_is_leaf ?e"
      using pt_wfD(4) [OF wf i(1) False] that by (auto simp: leaf_ok_def)
    moreover have "usize_sub (level_page_size ?lv) 1 = Some (level_page_size ?lv - 1)"
      using level_page_size_nat [OF wl] lv_span_pos [of ?lv] by (simp add: usize_sub_def word_le_nat_alt Suc_leI)
    ultimately show ?thesis
      using get idx False unfolding lvs by (auto simp: pt_walk_Cons(1) translation_def)
  qed
qed

lemma lookup_walk:
  assumes "wf_space pm mem sp"
  shows "lookup sp pm mem virt = Some (translation (as_arch sp) virt (space_walk pm mem sp (unat virt)))"
proof -
  have t: "as_root_page_table sp = \<lparr>tb_base = tb_base (as_root_page_table sp), tb_depth = 0\<rparr>"
    using assms by (simp add: wf_space_def)
  show ?thesis
    using lookup_levels_walk [of "as_arch sp" pm mem 0 "tb_base (as_root_page_table sp)" virt] assms
    by (subst (1) lookup_def, subst t) (simp add: wf_space_def space_walk_def)
qed

section \<open>The other canonical half\<close>

lemma lv_index_cong:
  assumes "v mod (lv_entries lv * lv_span lv) = v' mod (lv_entries lv * lv_span lv)"
  shows "lv_index lv v = lv_index lv v'" "v mod lv_span lv = v' mod lv_span lv"
proof -
  show m: "v mod lv_span lv = v' mod lv_span lv"
    using arg_cong [OF assms, of "\<lambda>x. x mod lv_span lv"] by (simp add: mod_mult_right_eq mod_mod_cancel)
  have "lv_index lv v * lv_span lv + v mod lv_span lv = lv_index lv v' * lv_span lv + v' mod lv_span lv"
    using assms lv_index_mod by metis
  then show "lv_index lv v = lv_index lv v'" using m by (simp add: lv_span_def)
qed

lemma pt_walk_mod:
  assumes "wf_levels lvs" "lvs \<noteq> []"
    "v mod (lv_entries (hd lvs) * lv_span (hd lvs)) = v' mod (lv_entries (hd lvs) * lv_span (hd lvs))"
  shows "pt_walk pm mem lvs b v = pt_walk pm mem lvs b v'"
  using assms
proof (induction lvs arbitrary: b)
  case (Cons lv lvs)
  have i: "lv_index lv v = lv_index lv v'" "v mod lv_span lv = v' mod lv_span lv"
    using lv_index_cong [of v lv v'] Cons.prems(3) by simp_all
  show ?case
  proof (cases lvs)
    case Nil
    then show ?thesis using i by (simp add: pt_walk.simps)
  next
    case (Cons lv' lvs')
    have "wf_levels lvs" "lv_span lv = lv_entries (hd lvs) * lv_span (hd lvs)"
      using Cons.prems(1) wf_levels_tl Cons by auto
    then have "pt_walk pm mem lvs c v = pt_walk pm mem lvs c v'" for c
      using Cons.IH [of c] i(2) Cons by simp
    then show ?thesis using i(1) by (simp add: pt_walk.simps)
  qed
qed simp

lemma canonical_halves:
  assumes "wf_arch A" "canonical A v"
  defines "h \<equiv> 2 ^ (VIRTUAL_ADDRESS_BITS A - 1)"
  shows "if v < h then v div (2 * h) = 0 \<and> v mod (2 * h) < h
         else v div (2 * h) = 2 ^ (64 - VIRTUAL_ADDRESS_BITS A) - 1 \<and> h \<le> v mod (2 * h)"
proof -
  let ?v = "VIRTUAL_ADDRESS_BITS A"
  define k :: nat where "k = 2 ^ (64 - ?v) - 1"
  have b: "0 < ?v" "?v < 64" using VIRTUAL_ADDRESS_BITS_bounds [OF assms(1)] by simp_all
  have T: "2 ^ ?v = 2 * h" using b(1) by (cases ?v) (simp_all add: h_def)
  have "(2::nat) ^ 64 = 2 ^ (64 - ?v) * 2 ^ ?v" using b(2) by (simp flip: power_add)
  moreover have "Suc k = 2 ^ (64 - ?v)" by (simp add: k_def)
  ultimately have k: "(2::nat) ^ 64 = k * (2 * h) + 2 * h" using T by (metis mult_Suc add.commute)
  show ?thesis
  proof (cases "v < h")
    case False
    then have v: "k * (2 * h) + h \<le> v" "v < k * (2 * h) + 2 * h"
      using assms(2) k unfolding canonical_def h_def [symmetric] by linarith+
    have d: "v div (2 * h) = k" by (rule div_nat_eqI) (use v in \<open>simp_all add: mult.commute\<close>)
    have "v mod (2 * h) = v - k * (2 * h)" using d by (simp add: modulo_nat_def mult.commute)
    then have "h \<le> v mod (2 * h)" using v(1) by linarith
    then show ?thesis using False d by (simp add: k_def)
  qed simp
qed

lemma in_half_bounds:
  assumes "wf_arch A" "in_half A s e" "s \<le> x" "x < e"
  shows "canonical A x"
    "x < 2 ^ (VIRTUAL_ADDRESS_BITS A - 1) \<longleftrightarrow> s < 2 ^ (VIRTUAL_ADDRESS_BITS A - 1)"
proof -
  have "(2::nat) ^ (VIRTUAL_ADDRESS_BITS A - 1) \<le> 2 ^ 63"
    by (rule power_increasing) (use VIRTUAL_ADDRESS_BITS_bounds(2) [OF assms(1)] in simp_all)
  then show "canonical A x"
    "x < 2 ^ (VIRTUAL_ADDRESS_BITS A - 1) \<longleftrightarrow> s < 2 ^ (VIRTUAL_ADDRESS_BITS A - 1)"
    using assms(2-4) by (auto simp: in_half_def canonical_def)
qed

text \<open>A canonical address outside a range has a representative in the root table of the range.\<close>

lemma canonical_representative:
  assumes A: "wf_arch A" and half: "in_half A s e" and v: "canonical A v" "v \<notin> {s ..< e}"
  obtains x where "x div 2 ^ VIRTUAL_ADDRESS_BITS A = s div 2 ^ VIRTUAL_ADDRESS_BITS A"
    "x mod 2 ^ VIRTUAL_ADDRESS_BITS A = v mod 2 ^ VIRTUAL_ADDRESS_BITS A" "x \<notin> {s ..< e}"
proof -
  define h :: nat where "h = 2 ^ (VIRTUAL_ADDRESS_BITS A - 1)"
  have T: "(2::nat) ^ VIRTUAL_ADDRESS_BITS A = 2 * h"
    using VIRTUAL_ADDRESS_BITS_bounds(1) [OF A] by (cases "VIRTUAL_ADDRESS_BITS A") (simp_all add: h_def)
  have hp: "0 < h" by (simp add: h_def)
  let ?x = "s div (2 * h) * (2 * h) + v mod (2 * h)"
  have x: "?x div (2 * h) = s div (2 * h)" "?x mod (2 * h) = v mod (2 * h)" using hp by simp_all
  have cs: "canonical A s" using in_half_bounds [OF A half, of s] half by (simp add: in_half_def)
  note hv = canonical_halves [OF A v(1), folded h_def] and hs = canonical_halves [OF A cs, folded h_def]
  have "?x \<notin> {s ..< e}"
  proof
    assume xi: "?x \<in> {s ..< e}"
    then have cx: "canonical A ?x" "?x < h \<longleftrightarrow> s < h"
      using in_half_bounds [OF A half, of ?x] by (simp_all add: h_def)
    note hx = canonical_halves [OF A cx(1), folded h_def]
    have "v < h \<longleftrightarrow> ?x < h" using hv hx x(2) hp by (auto split: if_splits)
    then have "v div (2 * h) = ?x div (2 * h)" using hv hx by (auto split: if_splits)
    then have "v = ?x" using x(2) by (metis div_mult_mod_eq)
    then show False using xi v(2) by simp
  qed
  then show thesis using that [of ?x] x unfolding T by simp
qed

section \<open>The effect of a visit on translations\<close>

lemma walk_keeps_translation: "walk_keeps n r r' \<Longrightarrow> translation A virt r' = translation A virt r"
  by (auto simp: walk_keeps_def translation_def pte_is_vacant_def pte_is_leaf_def split: prod.splits)

lemma visit_post_space:
  assumes wf: "wf_space pm mem sp" and half: "in_half (as_arch sp) s e"
    and post: "visit_post (as_arch sp) pm (LEVELS (as_arch sp)) (tb_base (as_root_page_table sp)) owned Iv upd fails n sz
      (2 ^ VIRTUAL_ADDRESS_BITS (as_arch sp)) s e (mem, vs) r (mem', vs')"
  shows "wf_space pm mem' sp" "space_frames pm mem' sp \<subseteq> owned vs'"
    "\<And>v. canonical (as_arch sp) v \<Longrightarrow> v \<notin> {s ..< e} \<Longrightarrow>
       lookup sp pm mem' (of_nat v) = lookup sp pm mem (of_nat v)"
    "\<And>v u. r = Inr u \<Longrightarrow> s \<le> v \<Longrightarrow> v < e \<Longrightarrow>
       walk_done (upd (round_down v sz)) n (space_walk pm mem sp v) (space_walk pm mem' sp v)"
    "\<And>u. r = Inr u \<Longrightarrow> Iv e vs'"
    "\<And>err. r = Inl err \<Longrightarrow> fails \<and> (\<exists>p. Iv p vs')"
    "\<And>v err. r = Inl err \<Longrightarrow> s \<le> v \<Longrightarrow> v < e \<Longrightarrow>
       walk_done (upd (round_down v sz)) n (space_walk pm mem sp v) (space_walk pm mem' sp v) \<or>
       walk_keeps n (space_walk pm mem sp v) (space_walk pm mem' sp v)"
    "\<And>v. canonical (as_arch sp) v \<Longrightarrow> v \<notin> {s ..< e} \<Longrightarrow> walk_keeps n (space_walk pm mem sp v) (space_walk pm mem' sp v)"
proof -
  let ?A = "as_arch sp" and ?T = "2 ^ VIRTUAL_ADDRESS_BITS (as_arch sp) :: nat"
  have A: "wf_arch ?A" using wf by (simp add: wf_space_def)
  show wf': "wf_space pm mem' sp" and "space_frames pm mem' sp \<subseteq> owned vs'"
    using wf post by (simp_all add: wf_space_def space_frames_def visit_post_def tree_step_def)
  show keeps: "walk_keeps n (space_walk pm mem sp v) (space_walk pm mem' sp v)"
    if v: "canonical ?A v" "v \<notin> {s ..< e}" for v
  proof -
    obtain x where x: "x div ?T = s div ?T" "x mod ?T = v mod ?T" "x \<notin> {s ..< e}"
      by (rule canonical_representative [OF A half v])
    have T: "?T = lv_entries (hd (LEVELS ?A)) * lv_span (hd (LEVELS ?A))"
      by (rule VIRTUAL_ADDRESS_BITS_span [OF A])
    have "space_walk pm m sp v = space_walk pm m sp x" for m
      unfolding space_walk_def
      by (rule pt_walk_mod) (use wf_arch_levels(1,2) [OF A] x(2) T in simp_all)
    moreover have "walk_keeps n (space_walk pm mem sp x) (space_walk pm mem' sp x)"
      using post x(1,3) by (simp add: visit_post_def space_walk_def)
    ultimately show ?thesis by simp
  qed
  show "lookup sp pm mem' (of_nat v) = lookup sp pm mem (of_nat v)"
    if v: "canonical ?A v" "v \<notin> {s ..< e}" for v
  proof -
    have "(2::nat) ^ (VIRTUAL_ADDRESS_BITS ?A - 1) \<le> 2 ^ 63"
      by (rule power_increasing) (use VIRTUAL_ADDRESS_BITS_bounds(2) [OF A] in simp_all)
    then have "v < 2 ^ 64" using v(1) by (auto simp: canonical_def)
    then have "unat (of_nat v :: usize) = v" by (rule unat_of_nat_usize)
    then show ?thesis
      using keeps [OF v] lookup_walk [OF wf] lookup_walk [OF wf'] walk_keeps_translation by metis
  qed
qed (use post in \<open>auto simp: visit_post_def space_walk_def\<close>)

context table_visitor
begin

lemma space_visit:
  assumes sp: "A = as_arch sp" and wf: "wf_space pm mem sp" and S: "leaf_depth_of A S = Some D"
    and inv: "Inv s vs" and fs: "space_frames pm mem sp \<subseteq> owned vs" and half: "in_half A s e"
    and dvd: "unat (page_BYTES S) dvd s" "unat (page_BYTES S) dvd e"
    and pre: "\<And>x. s \<le> x \<Longrightarrow> x < e \<Longrightarrow>
       walk_pre (ok (round_down x (unat (page_BYTES S)))) D (space_walk pm mem sp x)"
  obtains r mem' vs' where
    "table_visit A S D v (as_root_page_table sp) (range_nn s e) (mem, vs) = Some (r, (mem', vs'))"
    "wf_space pm mem' sp" "space_frames pm mem' sp \<subseteq> owned vs'"
    "\<And>x. canonical A x \<Longrightarrow> x \<notin> {s ..< e} \<Longrightarrow> lookup sp pm mem' (of_nat x) = lookup sp pm mem (of_nat x)"
    "r = Inr () \<and> Inv e vs' \<and> (\<forall>x. s \<le> x \<and> x < e \<longrightarrow>
       walk_done (upd (round_down x (unat (page_BYTES S)))) D (space_walk pm mem sp x) (space_walk pm mem' sp x)) \<or>
     (\<exists>err. r = Inl err) \<and> may_fail ok \<and> (\<exists>p. Inv p vs') \<and> (\<forall>x. s \<le> x \<and> x < e \<longrightarrow>
       walk_done (upd (round_down x (unat (page_BYTES S)))) D (space_walk pm mem sp x) (space_walk pm mem' sp x) \<or>
       walk_keeps D (space_walk pm mem sp x) (space_walk pm mem' sp x))"
    "\<And>x. canonical A x \<Longrightarrow> x \<notin> {s ..< e} \<Longrightarrow> walk_keeps D (space_walk pm mem sp x) (space_walk pm mem' sp x)"
proof -
  let ?b = "tb_base (as_root_page_table sp)"
  have wf': "pt_wf A pm mem (LEVELS A) ?b" and root: "as_root_page_table sp = \<lparr>tb_base = ?b, tb_depth = 0\<rparr>"
    using wf by (simp_all add: wf_space_def sp)
  obtain r mem' vs' where run: "table_visit A S D v \<lparr>tb_base = ?b, tb_depth = 0\<rparr> (range_nn s e) (mem, vs) = Some (r, (mem', vs'))"
    and post: "visit_post A pm (LEVELS A) ?b owned Inv upd (may_fail ok) D (unat (page_BYTES S))
      (2 ^ VIRTUAL_ADDRESS_BITS A) s e (mem, vs) r (mem', vs')"
    using visit_correct [OF S inv wf' _ half dvd] fs pre by (auto simp: space_frames_def space_walk_def sp)
  note vp = visit_post_space [OF wf half [unfolded sp] post [unfolded sp]]
  show thesis
  proof (rule that [of r mem' vs'])
    show "table_visit A S D v (as_root_page_table sp) (range_nn s e) (mem, vs) = Some (r, (mem', vs'))"
      using run root by metis
    show "lookup sp pm mem' (of_nat x) = lookup sp pm mem (of_nat x)" if "canonical A x" "x \<notin> {s ..< e}" for x
      by (rule vp(3)) (use that sp in simp_all)
    show "walk_keeps D (space_walk pm mem sp x) (space_walk pm mem' sp x)" if "canonical A x" "x \<notin> {s ..< e}" for x
      by (rule vp(8)) (use that sp in simp_all)
  qed (use vp(1,2,4-7) in \<open>cases r; simp\<close>)+
qed

end

end
