(* ===== verification/Space_Visitors.thy ===== *)
theory Space_Visitors
  imports Translation
begin

text \<open>
  The four visitors of \<^verbatim>\<open>lib/mem-mmu/src/address_space.rs\<close> keep the contract of the walk. Each
  interpretation names what the visitor needs of the entries it fills and what it makes of them; the
  facts about the loop over a run of entries are shared.
\<close>

section \<open>The loop over a run of entries\<close>

lemma frame_cell_next:
  assumes "wf_arch A" "wf_physmap pm" "frame_ok A pm b" "i < frame_words A"
  shows "addr_add (frame_cell pm b i) 8 = Some (frame_cell pm b (Suc i))"
proof -
  let ?s = "range_start (pm_range_phys pm)" and ?e = "range_end (pm_range_phys pm)"
  have w: "pm_window pm" using assms(2) by (simp add: wf_physmap_def)
  have g: "8 * frame_words A = unat (GRANULE_SIZE A)" using GRANULE_SIZE_words(1) [OF assms(1)] .
  have b: "unat ?s \<le> unat b" "unat b + unat (GRANULE_SIZE A) \<le> unat ?e"
    using assms(3) by (simp_all add: frame_ok_def)
  have i8: "8 * Suc i \<le> unat (GRANULE_SIZE A)" using assms(4) g by simp
  have le: "unat b + 8 * Suc i \<le> unat ?e" using b(2) i8 by linarith
  have p: "unat (b + of_nat (8 * Suc i)) = unat b + 8 * Suc i"
  proof -
    have lt: "8 * Suc i < 2 ^ 64" using le usize_lt [of ?e] by linarith
    have "unat (of_nat (8 * Suc i) :: usize) = 8 * Suc i" by (rule unat_of_nat_usize [OF lt])
    then show ?thesis using unat_add_usize [of b "of_nat (8 * Suc i)"] le usize_lt [of ?e] by simp
  qed
  have img: "unat (frame_cell pm b (Suc i)) = pm_base pm + (unat b + 8 * Suc i - unat ?s)"
    unfolding frame_cell_def
    using pm_image [OF w, of "b + of_nat (8 * Suc i)"] p le b(1) by (simp add: word_le_nat_alt del: of_nat_mult of_nat_Suc)
  have img0: "unat (frame_cell pm b i) = pm_base pm + (unat b + 8 * i - unat ?s)"
    unfolding frame_cell_def
    using pm_image [OF w, of "b + of_nat (8 * i)"] frame_cell_phys(1) [OF assms(1,3,4)] le b(1)
    by (simp add: word_le_nat_alt del: of_nat_mult)
  have "unat (frame_cell pm b (Suc i)) = unat (frame_cell pm b i) + 8"
    using img img0 b(1) by simp
  then show ?thesis
    using usize_lt [of "frame_cell pm b (Suc i)"] by (simp add: addr_add_eq_Some)
qed

lemma fill_loop_correct:
  assumes P: "wf_arch A" "wf_physmap pm" "frame_ok A pm b" and "i + n \<le> frame_words A"
    and "\<And>j. j < n \<Longrightarrow> step (X j) (frame_word pm mem b (i + j)) = Some (new j, X (Suc j))"
  shows "\<exists>mem'. fill_loop step n (frame_cell pm b i) (X 0) mem = Some (X n, mem') \<and>
     (\<forall>j < n. frame_word pm mem' b (i + j) = new j) \<and>
     (\<forall>b' j. frame_ok A pm b' \<and> j < frame_words A \<and> (b' \<noteq> b \<or> j \<notin> {i ..< i + n}) \<longrightarrow>
        frame_word pm mem' b' j = frame_word pm mem b' j)"
  using assms(4,5)
proof (induction n arbitrary: i X new mem)
  case (Suc n)
  have i: "i < frame_words A" using Suc.prems(1) by simp
  obtain mem1 where w: "arch_write mem (frame_cell pm b i) (new 0) = Some mem1"
    "frame_word pm mem1 b i = new 0"
    "\<And>b' i'. frame_ok A pm b' \<Longrightarrow> i' < frame_words A \<Longrightarrow> b' \<noteq> b \<or> i' \<noteq> i \<Longrightarrow>
       frame_word pm mem1 b' i' = frame_word pm mem b' i'"
    using frame_write [OF P i, of mem "new 0"] by blast
  have s0: "step (X 0) (frame_word pm mem b i) = Some (new 0, X (Suc 0))" using Suc.prems(2) [of 0] by simp
  have sj: "step (X (Suc j)) (frame_word pm mem1 b (Suc i + j)) = Some (new (Suc j), X (Suc (Suc j)))"
    if "j < n" for j
    using Suc.prems(2) [of "Suc j"] w(3) [of b "Suc i + j"] P(3) Suc.prems(1) that by simp
  obtain mem' where m: "fill_loop step n (frame_cell pm b (Suc i)) (X (Suc 0)) mem1 = Some (X (Suc n), mem')"
    "\<And>j. j < n \<Longrightarrow> frame_word pm mem' b (Suc i + j) = new (Suc j)"
    "\<And>b' j. frame_ok A pm b' \<Longrightarrow> j < frame_words A \<Longrightarrow> b' \<noteq> b \<or> j \<notin> {Suc i ..< Suc i + n} \<Longrightarrow>
        frame_word pm mem' b' j = frame_word pm mem1 b' j"
    using Suc.IH [of "Suc i" "\<lambda>j. X (Suc j)" mem1 "\<lambda>j. new (Suc j)"] sj Suc.prems(1) by auto
  have run: "fill_loop step (Suc n) (frame_cell pm b i) (X 0) mem = Some (X (Suc n), mem')"
    using frame_read [OF P i] s0 w(1) frame_cell_next [OF P i] m(1) by simp
  have new: "frame_word pm mem' b (i + j) = new j" if "j < Suc n" for j
  proof (cases j)
    case 0
    then show ?thesis using m(3) [of b i] w(2) P(3) i by simp
  next
    case (Suc k)
    then show ?thesis using m(2) [of k] that by simp
  qed
  have other: "frame_word pm mem' b' j = frame_word pm mem b' j"
    if "frame_ok A pm b'" "j < frame_words A" "b' \<noteq> b \<or> j \<notin> {i ..< i + Suc n}" for b' j
    using m(3) [of b' j] w(3) [of b' j] that by auto
  show ?case using run new other by blast
qed simp

lemma fill_invalidate_ok:
  assumes "wf_flush f" "p + n * unat (page_BYTES S) < 2 ^ 64"
  obtains f' where "fill_invalidate S (of_nat p) n f = Some f'" "wf_flush f'"
    "\<And>ns. flush_covers f ns \<Longrightarrow> flush_covers f' (ns \<union> {p ..< p + n * unat (page_BYTES S)})"
proof -
  let ?b = "unat (page_BYTES S)"
  have n: "n \<le> n * ?b" by simp
  have un: "unat (of_nat n :: usize) = n" "unat (of_nat p :: usize) = p" "unat (of_nat (n * ?b) :: usize) = n * ?b"
    by (intro unat_of_nat_usize; use assms(2) n in linarith)+
  have mul: "usize_mul (of_nat n) (page_BYTES S) = Some (of_nat (n * ?b))"
    using assms(2) un by (simp only: usize_mul_eq_Some) linarith
  define r where "r = range_of (of_nat p) (of_nat (p + n * ?b))"
  have ue: "unat (of_nat (p + n * ?b) :: usize) = p + n * ?b" by (rule unat_of_nat_usize [OF assms(2)])
  have rng: "range_from_start_len (of_nat p) (of_nat (n * ?b)) = Some r"
    using assms(2) un ue by (simp only: range_from_start_len_eq_Some r_def range_of_def) simp
  have nat: "range_nat r = {p ..< p + n * ?b}"
    using un(2) ue by (simp add: range_nat_def r_def range_of_def del: of_nat_add)
  show thesis
    by (rule flush_invalidate_covers [OF assms(1), of r])
      (use that mul rng nat in \<open>simp add: fill_invalidate_def del: of_nat_mult unat_page_BYTES\<close>)
qed

section \<open>Leaf entries\<close>

lemma pte_address_aligned: "4096 dvd unat (pte_address e)" "unat (pte_address e) < 2 ^ 56"
proof -
  have "take_bit 12 (pte_address e) = 0"
    by (rule bit_eqI) (simp add: bit_take_bit_iff pte_address_bit)
  then have "take_bit 12 (unat (pte_address e)) = 0" by (metis unsigned_take_bit_eq unsigned_0)
  then show "4096 dvd unat (pte_address e)" by (simp add: take_bit_eq_mod mod_eq_0_iff_dvd)
  have "take_bit 56 (pte_address e) = pte_address e"
    by (rule bit_eqI) (auto simp: bit_take_bit_iff pte_address_bit)
  then show "unat (pte_address e) < 2 ^ 56" by (metis unsigned_take_bit_eq take_bit_nat_less_exp)
qed

text \<open>What the operations share: the paging mode, the map and the leaf depth of the page size.\<close>

definition op_setup :: "arch \<Rightarrow> PhysMap \<Rightarrow> PageSize \<Rightarrow> nat \<Rightarrow> bool" where
  "op_setup A pm S D \<longleftrightarrow> wf_arch A \<and> wf_physmap pm \<and> leaf_depth_of A S = Some D"

lemma op_setupD:
  assumes "op_setup A pm S D"
  shows "wf_arch A" "wf_physmap pm" "leaf_depth_of A S = Some D" "D < length (LEVELS A)"
    "lv_span (LEVELS A ! D) = unat (page_BYTES S)" "lv_entries (LEVELS A ! D) \<le> frame_words A"
    "\<And>d i. d \<le> D \<Longrightarrow> i < lv_entries (LEVELS A ! d) \<Longrightarrow> i < frame_words A"
proof -
  show *: "wf_arch A" "wf_physmap pm" "leaf_depth_of A S = Some D" using assms by (simp_all add: op_setup_def)
  show D: "D < length (LEVELS A)" "lv_span (LEVELS A ! D) = unat (page_BYTES S)"
    using leaf_depth_of_span [OF *(1,3)] by simp_all
  show "lv_entries (LEVELS A ! D) \<le> frame_words A" using lv_entries_words [OF *(1)] D(1) by simp
  show "i < frame_words A" if "d \<le> D" "i < lv_entries (LEVELS A ! d)" for d i
    using less_le_trans [OF that(2) lv_entries_words [OF *(1)]] that(1) D(1) by simp
qed

lemma pages_4096: "4096 dvd unat (page_BYTES S)"
  using page_SHIFT_bounds(1) [of S] by (simp add: le_imp_power_dvd [of 12 _ "2 :: nat", simplified])

lemma new_leaf_ok:
  assumes "op_setup A pm S D" "x < 2 ^ 56" "unat (page_BYTES S) dvd x" "allows_access at"
  obtains e where "pte_new_leaf (of_nat x) at = Some e" "pte_is_leaf e" "pte_address e = of_nat x"
    "pte_attributes e = Some (at\<lparr>attr_KIND := Normal\<rparr>)" "leaf_ok (LEVELS A ! D) e"
proof -
  have u: "unat (of_nat x :: usize) = x" by (rule unat_of_nat_usize) (use assms(2) in simp)
  obtain e where e: "pte_new_leaf (of_nat x) at = Some e"
    using pte_new_leaf_eq_None [of "of_nat x" at] u assms(2) by (metis not_le option.exhaust)
  have "4096 dvd x" by (rule dvd_trans [OF pages_4096 assms(3)])
  then have a: "unat (pte_address e) = x" using pte_new_leaf_address [OF e] u by simp
  then have "pte_address e = of_nat x" using u by (metis usize_eqI)
  moreover have "leaf_ok (LEVELS A ! D) e"
    using a assms(3) op_setupD(5) [OF assms(1)] pte_new_leaf_attributes [OF e] by (simp add: leaf_ok_def)
  ultimately show thesis
    using that [OF e] pte_new_leaf_is_leaf [OF e] assms(4) pte_new_leaf_attributes [OF e] by simp
qed

lemma leaf_attributes:
  assumes "pte_is_leaf e" "leaf_ok lv e"
  obtains at where "pte_attributes e = Some at" "allows_access at"
proof -
  obtain at where at: "pte_attributes e = Some at" using assms by (auto simp: leaf_ok_def)
  then have "allows_access at"
    using assms(1) by (auto simp: pte_attributes_def pte_is_leaf_def allows_access_def allows_read_def
      allows_write_def allows_execution_def bind_eq_Some_conv split: bool.splits prod.splits)
  then show thesis using that at by blast
qed

section \<open>Flushes\<close>

text \<open>A flush that covers what it did before and the part of the range walked so far.\<close>

definition covers_from :: "Flush \<Rightarrow> nat \<Rightarrow> nat \<Rightarrow> Flush \<Rightarrow> bool" where
  "covers_from f0 s p f \<longleftrightarrow>
     s \<le> p \<and> wf_flush f \<and> (\<forall>ns. flush_covers f0 ns \<longrightarrow> flush_covers f (ns \<union> {s ..< p}))"

lemma covers_from_refl: "wf_flush f \<Longrightarrow> covers_from f s s f"
  by (simp add: covers_from_def)

lemma covers_from_all: "s \<le> p \<Longrightarrow> covers_from f0 s p (flush_invalidate_all f)"
  by (simp add: covers_from_def flush_invalidate_all_def)

lemma covers_from_fill:
  assumes "covers_from f0 s p f" "p + n * unat (page_BYTES S) < 2 ^ 64"
  obtains f' where "fill_invalidate S (of_nat p) n f = Some f'" "covers_from f0 s (p + n * unat (page_BYTES S)) f'"
proof -
  let ?q = "p + n * unat (page_BYTES S)"
  have c: "s \<le> p" "wf_flush f" using assms(1) by (simp_all add: covers_from_def)
  obtain f' where f': "fill_invalidate S (of_nat p) n f = Some f'" "wf_flush f'"
    "\<And>ns. flush_covers f ns \<Longrightarrow> flush_covers f' (ns \<union> {p ..< ?q})"
    using fill_invalidate_ok [OF c(2) assms(2)] by blast
  have "flush_covers f' (ns \<union> {s ..< ?q})" if "flush_covers f0 ns" for ns
  proof -
    have "flush_covers f' (ns \<union> {s ..< p} \<union> {p ..< ?q})"
      using assms(1) that f'(3) by (simp add: covers_from_def)
    moreover have "{s ..< ?q} = {s ..< p} \<union> {p ..< ?q}" using c(1) by auto
    ultimately show ?thesis by (simp add: Un_assoc)
  qed
  then show thesis using that f' c(1) by (simp add: covers_from_def)
qed

section \<open>Descending and ascending\<close>

lemma default_descend_table:
  assumes "op_setup A pm S D" "d < D" "frame_ok A pm b" "i < lv_entries (LEVELS A ! d)"
    "pte_is_table (frame_word pm mem b i)"
  shows "default_descend pm \<lparr>tb_base = b, tb_depth = d\<rparr> i (mem, vs) =
           Some (Inr (Some (pte_address (frame_word pm mem b i))), (mem, vs))"
proof -
  note o = op_setupD [OF assms(1)]
  have "i < frame_words A" using o(7) [of d i] assms(2,4) by simp
  then show ?thesis
    using table_get_ok [OF o(1,2) assms(3), of i d mem] assms(5) pte_not_vacant_cases [of "frame_word pm mem b i"]
    by (simp add: default_descend_def)
qed

lemma default_ascend_ok: "default_ascend t i c d st = Some (Inr (), st)"
  by (simp add: default_ascend_def act_ok_def)

lemma visitor_fill:
  assumes "op_setup A pm S D" "frame_ok A pm b" "0 < n" "i + n \<le> lv_entries (LEVELS A ! D)"
    "p + n * lv_span (LEVELS A ! D) < 2 ^ 64" "covers_from f0 s p f"
    "\<And>j. j < n \<Longrightarrow> step (X j) (frame_word pm mem b (i + j)) = Some (new j, X (Suc j))"
  obtains mem' f' where
    "table_entry_address \<lparr>tb_base = b, tb_depth = D\<rparr> i pm = Some (frame_cell pm b i)"
    "fill_loop step n (frame_cell pm b i) (X 0) mem = Some (X n, mem')"
    "fill_invalidate S (of_nat p) n f = Some f'" "covers_from f0 s (p + n * lv_span (LEVELS A ! D)) f'"
    "\<forall>j < n. frame_word pm mem' b (i + j) = new j"
    "\<forall>b' j. frame_ok A pm b' \<and> j < frame_words A \<and> (b' \<noteq> b \<or> j \<notin> {i ..< i + n}) \<longrightarrow>
       frame_word pm mem' b' j = frame_word pm mem b' j"
proof -
  note o = op_setupD [OF assms(1)]
  have n: "i + n \<le> frame_words A" using assms(4) o(6) by linarith
  then have i: "i < frame_words A" using assms(3) by linarith
  obtain mem' where m: "fill_loop step n (frame_cell pm b i) (X 0) mem = Some (X n, mem')"
    "\<forall>j < n. frame_word pm mem' b (i + j) = new j"
    "\<forall>b' j. frame_ok A pm b' \<and> j < frame_words A \<and> (b' \<noteq> b \<or> j \<notin> {i ..< i + n}) \<longrightarrow>
       frame_word pm mem' b' j = frame_word pm mem b' j"
    using fill_loop_correct [OF o(1,2) assms(2) n, of step X mem new] assms(7) by blast
  obtain f' where "fill_invalidate S (of_nat p) n f = Some f'" "covers_from f0 s (p + n * lv_span (LEVELS A ! D)) f'"
    using covers_from_fill [OF assms(6), of n S] assms(5) unfolding o(5) by blast
  then show thesis using that m table_entry_address_ok [OF o(1,2) assms(2) i] by blast
qed

section \<open>Changing attributes\<close>

definition sa_inv ::
  "arch \<Rightarrow> PhysMap \<Rightarrow> PageSize \<Rightarrow> nat \<Rightarrow> paddr set \<Rightarrow> MemoryAttributes \<Rightarrow> Flush \<Rightarrow> nat \<Rightarrow> nat \<Rightarrow>
     SetAttributesVisitor \<Rightarrow> bool" where
  "sa_inv A pm S D fs at f0 s p vs \<longleftrightarrow>
     op_setup A pm S D \<and> (\<forall>f \<in> fs. frame_ok A pm f) \<and> sv_attributes vs = at \<and> covers_from f0 s p (sv_flush vs)"

definition sa_ok :: "arch \<Rightarrow> nat \<Rightarrow> MemoryAttributes \<Rightarrow> nat \<Rightarrow> pte \<Rightarrow> bool" where
  "sa_ok A D at p e \<longleftrightarrow> pte_is_leaf e \<and> leaf_ok (LEVELS A ! D) e \<and> allows_access at"

definition sa_upd :: "MemoryAttributes \<Rightarrow> nat \<Rightarrow> pte \<Rightarrow> pte" where
  "sa_upd at p e = the (pte_new_leaf (pte_address e) at)"

lemma sa_upd_ok:
  assumes "sa_ok A D at p e"
  shows "pte_new_leaf (pte_address e) at = Some (sa_upd at p e)" "pte_is_leaf (sa_upd at p e)"
    "pte_address (sa_upd at p e) = pte_address e" "pte_attributes (sa_upd at p e) = Some (at\<lparr>attr_KIND := Normal\<rparr>)"
    "leaf_ok (LEVELS A ! D) (sa_upd at p e)"
proof -
  obtain l where l: "pte_new_leaf (pte_address e) at = Some l"
    using pte_new_leaf_eq_None [of "pte_address e" at] pte_address_aligned(2) [of e] by (metis not_le option.exhaust)
  show *: "pte_new_leaf (pte_address e) at = Some (sa_upd at p e)" by (simp add: sa_upd_def l)
  show "pte_is_leaf (sa_upd at p e)" using pte_new_leaf_is_leaf [OF *] assms by (simp add: sa_ok_def)
  show **: "pte_attributes (sa_upd at p e) = Some (at\<lparr>attr_KIND := Normal\<rparr>)" by (rule pte_new_leaf_attributes [OF *])
  show a: "pte_address (sa_upd at p e) = pte_address e"
    using pte_new_leaf_address [OF *] pte_address_aligned(1) [of e] by (intro usize_eqI) simp
  show "leaf_ok (LEVELS A ! D) (sa_upd at p e)"
    using assms a ** by (simp add: sa_ok_def leaf_ok_def)
qed

interpretation set_attr: table_visitor A pm D "set_attributes_visitor pm S :: (mem \<times> SetAttributesVisitor, 'e) visitor"
  "sa_inv A pm S D fs at f0 s" "\<lambda>_. fs" "sa_ok A D at" "sa_upd at"
proof (unfold_locales, goal_cases)
  case (1 p vs)
  then show ?case using op_setupD(1,2,4) by (auto simp: sa_inv_def)
next
  case (2 p vs f)
  then show ?case by (simp add: sa_inv_def)
next
  case (3 p e)
  then show ?case using sa_upd_ok [OF 3] pte_leaf_not_table by (simp add: sa_ok_def)
next
  case (4 p e e')
  then show ?case by (simp add: sa_ok_def pte_is_leaf_def pte_is_vacant_def)
next
  case (5 p vs b n i mem)
  have o: "op_setup A pm S D" and c: "covers_from f0 s p (sv_flush vs)" and at: "sv_attributes vs = at"
    using 5(1) by (simp_all add: sa_inv_def)
  have st: "set_attributes_step at () (frame_word pm mem b (i + j)) =
      Some (sa_upd at (p + j * lv_span (LEVELS A ! D)) (frame_word pm mem b (i + j)), ())" if "j < n" for j
    using sa_upd_ok(1) [OF 5(6) [OF that]] 5(6) [OF that] by (simp add: set_attributes_step_def sa_ok_def)
  show ?case
    by (rule visitor_fill [OF o 5(2-5) c, of "set_attributes_step at" "\<lambda>_. ()" mem
          "\<lambda>j. sa_upd at (p + j * lv_span (LEVELS A ! D)) (frame_word pm mem b (i + j))"])
      (use st 5(1) at in \<open>simp_all add: set_attributes_visitor_def set_attributes_fill_def sa_inv_def\<close>)
next
  case (6 p vs d b i mem)
  then show ?case
    using default_descend_table [of A pm S D d b i mem vs] by (simp add: set_attributes_visitor_def sa_inv_def)
next
  case (7 p vs d b i mem q)
  then show ?case by (simp add: sa_ok_def pte_is_leaf_def pte_is_vacant_def)
next
  case (8 p vs d b c i mem)
  then show ?case by (simp add: set_attributes_visitor_def default_ascend_ok)
qed

section \<open>Mapping to a block of physical memory\<close>

text \<open>The page at \<open>p\<close> of the range from \<open>s\<close> to \<open>e\<close> goes to its place in the block at \<open>phys\<close>.\<close>

definition block_ok :: "arch \<Rightarrow> PhysMap \<Rightarrow> PageSize \<Rightarrow> nat \<Rightarrow> nat \<Rightarrow> nat \<Rightarrow> nat \<Rightarrow> nat \<Rightarrow> bool" where
  "block_ok A pm S D phys s e p \<longleftrightarrow>
     op_setup A pm S D \<and> unat (page_BYTES S) dvd s \<and> unat (page_BYTES S) dvd phys \<and> unat (page_BYTES S) dvd p \<and>
     s \<le> p \<and> p < e \<and> phys + (e - s) \<le> 2 ^ 56"

lemma block_leaf:
  assumes "block_ok A pm S D phys s e p" "allows_access at"
  obtains l where "pte_new_leaf (of_nat (phys + (p - s))) at = Some l" "pte_is_leaf l"
    "pte_address l = of_nat (phys + (p - s))" "pte_attributes l = Some (at\<lparr>attr_KIND := Normal\<rparr>)"
    "leaf_ok (LEVELS A ! D) l"
proof -
  have b: "op_setup A pm S D" "phys + (p - s) < 2 ^ 56" "unat (page_BYTES S) dvd phys + (p - s)"
    using assms(1) by (auto simp: block_ok_def intro!: dvd_add dvd_diff_nat simp del: unat_page_BYTES)
  then show thesis using new_leaf_ok [OF b assms(2)] that by blast
qed

lemma block_step:
  assumes "block_ok A pm S D phys s e p"
  shows "addr_add (of_nat (phys + (p - s))) (page_BYTES S) =
     Some (of_nat (phys + (p + lv_span (LEVELS A ! D) - s)))"
proof -
  have o: "op_setup A pm S D" and x: "phys + (p - s) < 2 ^ 56" "s \<le> p" using assms by (auto simp: block_ok_def)
  have sp: "lv_span (LEVELS A ! D) = unat (page_BYTES S)" by (rule op_setupD(5) [OF o])
  have "(2::nat) ^ page_SHIFT S \<le> 2 ^ 48" by (rule power_increasing) (use page_SHIFT_bounds(2) in simp_all)
  then have lt: "phys + (p - s) + unat (page_BYTES S) < 2 ^ 64" using x by simp
  have u: "unat (of_nat (phys + (p - s)) :: usize) = phys + (p - s)"
    "unat (of_nat (phys + (p + unat (page_BYTES S) - s)) :: usize) = phys + (p - s) + unat (page_BYTES S)"
  proof -
    show "unat (of_nat (phys + (p - s)) :: usize) = phys + (p - s)"
      by (rule unat_of_nat_usize) (use lt in linarith)
    have "phys + (p + unat (page_BYTES S) - s) = phys + (p - s) + unat (page_BYTES S)" using x(2) by linarith
    then show "unat (of_nat (phys + (p + unat (page_BYTES S) - s)) :: usize) = phys + (p - s) + unat (page_BYTES S)"
      using lt by (metis unat_of_nat_usize)
  qed
  show ?thesis unfolding sp addr_add_eq_Some u using lt by simp
qed

definition rm_inv ::
  "arch \<Rightarrow> PhysMap \<Rightarrow> PageSize \<Rightarrow> nat \<Rightarrow> paddr set \<Rightarrow> nat \<Rightarrow> Flush \<Rightarrow> nat \<Rightarrow> nat \<Rightarrow> RemapVisitor \<Rightarrow> bool" where
  "rm_inv A pm S D fs phys f0 s p vs \<longleftrightarrow>
     op_setup A pm S D \<and> (\<forall>f \<in> fs. frame_ok A pm f) \<and> rv_phys vs = of_nat (phys + (p - s)) \<and>
     covers_from f0 s p (rv_flush vs)"

definition rm_ok :: "arch \<Rightarrow> PhysMap \<Rightarrow> PageSize \<Rightarrow> nat \<Rightarrow> nat \<Rightarrow> nat \<Rightarrow> nat \<Rightarrow> nat \<Rightarrow> pte \<Rightarrow> bool" where
  "rm_ok A pm S D phys s e p en \<longleftrightarrow> block_ok A pm S D phys s e p \<and> pte_is_leaf en \<and> leaf_ok (LEVELS A ! D) en"

definition rm_upd :: "nat \<Rightarrow> nat \<Rightarrow> nat \<Rightarrow> pte \<Rightarrow> pte" where
  "rm_upd phys s p en = the (pte_new_leaf (of_nat (phys + (p - s))) (the (pte_attributes en)))"

lemma rm_upd_ok:
  assumes "rm_ok A pm S D phys s e p en"
  obtains at where "pte_attributes en = Some at"
    "pte_new_leaf (of_nat (phys + (p - s))) at = Some (rm_upd phys s p en)" "pte_is_leaf (rm_upd phys s p en)"
    "pte_address (rm_upd phys s p en) = of_nat (phys + (p - s))"
    "pte_attributes (rm_upd phys s p en) = Some (at\<lparr>attr_KIND := Normal\<rparr>)"
    "leaf_ok (LEVELS A ! D) (rm_upd phys s p en)"
proof -
  obtain at where at: "pte_attributes en = Some at" "allows_access at"
    using leaf_attributes assms unfolding rm_ok_def by blast
  have b: "block_ok A pm S D phys s e p" using assms by (simp add: rm_ok_def)
  obtain l where l: "pte_new_leaf (of_nat (phys + (p - s))) at = Some l" "pte_is_leaf l"
    "pte_address l = of_nat (phys + (p - s))" "pte_attributes l = Some (at\<lparr>attr_KIND := Normal\<rparr>)"
    "leaf_ok (LEVELS A ! D) l"
    by (rule block_leaf [OF b at(2)])
  have "rm_upd phys s p en = l" using at(1) l(1) by (simp add: rm_upd_def del: of_nat_add)
  then show thesis using that at(1) l by blast
qed

interpretation remap: table_visitor A pm D "remap_visitor pm S :: (mem \<times> RemapVisitor, 'e) visitor"
  "rm_inv A pm S D fs phys f0 s" "\<lambda>_. fs" "rm_ok A pm S D phys s e" "rm_upd phys s"
proof (unfold_locales, goal_cases)
  case (1 p vs)
  then show ?case using op_setupD(1,2,4) by (auto simp: rm_inv_def)
next
  case (2 p vs f)
  then show ?case by (simp add: rm_inv_def)
next
  case (3 p en)
  then show ?case by (rule rm_upd_ok) (use 3 pte_leaf_not_table in \<open>auto simp: rm_ok_def\<close>)
next
  case (4 p en en')
  then show ?case by (simp add: rm_ok_def pte_is_leaf_def pte_is_vacant_def)
next
  case (5 p vs b n i mem)
  have o: "op_setup A pm S D" and c: "covers_from f0 s p (rv_flush vs)" and ph: "rv_phys vs = of_nat (phys + (p - s))"
    using 5(1) by (simp_all add: rm_inv_def)
  let ?X = "\<lambda>j. of_nat (phys + (p + j * lv_span (LEVELS A ! D) - s)) :: paddr"
  have st: "remap_step S (?X j) (frame_word pm mem b (i + j)) =
      Some (rm_upd phys s (p + j * lv_span (LEVELS A ! D)) (frame_word pm mem b (i + j)), ?X (Suc j))" if "j < n" for j
  proof -
    note okj = 5(6) [OF that]
    have blk: "block_ok A pm S D phys s e (p + j * lv_span (LEVELS A ! D))" and lf: "pte_is_leaf (frame_word pm mem b (i + j))"
      using okj by (simp_all add: rm_ok_def)
    have "p + Suc j * lv_span (LEVELS A ! D) = p + j * lv_span (LEVELS A ! D) + lv_span (LEVELS A ! D)" by simp
    then have nx: "addr_add (?X j) (page_BYTES S) = Some (?X (Suc j))" using block_step [OF blk] by (simp only:)
    obtain at where "pte_attributes (frame_word pm mem b (i + j)) = Some at"
      "pte_new_leaf (?X j) at = Some (rm_upd phys s (p + j * lv_span (LEVELS A ! D)) (frame_word pm mem b (i + j)))"
      by (rule rm_upd_ok [OF okj])
    then show ?thesis using lf nx by (simp add: remap_step_def del: of_nat_add of_nat_diff mult_Suc)
  qed
  show ?case
    by (rule visitor_fill [OF o 5(2-5) c, of "remap_step S" ?X mem
          "\<lambda>j. rm_upd phys s (p + j * lv_span (LEVELS A ! D)) (frame_word pm mem b (i + j))"])
      (use st 5(1) ph in \<open>simp_all add: remap_visitor_def remap_fill_def rm_inv_def del: of_nat_add\<close>)
next
  case (6 p vs d b i mem)
  then show ?case
    using default_descend_table [of A pm S D d b i mem vs] by (simp add: remap_visitor_def rm_inv_def)
next
  case (7 p vs d b i mem q)
  then show ?case by (simp add: rm_ok_def pte_is_leaf_def pte_is_vacant_def)
next
  case (8 p vs d b c i mem)
  then show ?case by (simp add: remap_visitor_def default_ascend_ok)
qed

end
