(* ===== verification/Alloc_Visitors.thy ===== *)
theory Alloc_Visitors
  imports Space_Visitors
begin

text \<open>
  The visitors of \<open>map_contiguous\<close> and \<open>unmap\<close>, which allocate and free page tables. They keep the
  contract of the walk for every frame allocator that keeps the contract of table allocation.
\<close>

section \<open>Mapping\<close>

definition mp_inv ::
  "('a \<Rightarrow> bool) \<Rightarrow> arch \<Rightarrow> PhysMap \<Rightarrow> PageSize \<Rightarrow> nat \<Rightarrow> MemoryAttributes \<Rightarrow> nat \<Rightarrow> Flush \<Rightarrow> nat \<Rightarrow> nat \<Rightarrow>
     'a MapVisitor \<Rightarrow> bool" where
  "mp_inv fa_inv A pm S D at phys f0 s p vs \<longleftrightarrow>
     op_setup A pm S D \<and> fa_inv (mv_frame_allocator vs) \<and> mv_attributes vs = at \<and>
     mv_phys vs = of_nat (phys + (p - s)) \<and> covers_from f0 s p (mv_flush vs)"

definition mp_ok ::
  "arch \<Rightarrow> PhysMap \<Rightarrow> PageSize \<Rightarrow> nat \<Rightarrow> MemoryAttributes \<Rightarrow> nat \<Rightarrow> nat \<Rightarrow> nat \<Rightarrow> nat \<Rightarrow> pte \<Rightarrow> bool" where
  "mp_ok A pm S D at phys s e p en \<longleftrightarrow> block_ok A pm S D phys s e p \<and> pte_is_vacant en \<and> allows_access at"

definition mp_upd :: "MemoryAttributes \<Rightarrow> nat \<Rightarrow> nat \<Rightarrow> nat \<Rightarrow> pte \<Rightarrow> pte" where
  "mp_upd at phys s p en = the (pte_new_leaf (of_nat (phys + (p - s))) at)"

lemma mp_upd_ok:
  assumes "mp_ok A pm S D at phys s e p en"
  shows "pte_new_leaf (of_nat (phys + (p - s))) at = Some (mp_upd at phys s p en)" "pte_is_leaf (mp_upd at phys s p en)"
    "pte_address (mp_upd at phys s p en) = of_nat (phys + (p - s))"
    "pte_attributes (mp_upd at phys s p en) = Some (at\<lparr>attr_KIND := Normal\<rparr>)"
    "leaf_ok (LEVELS A ! D) (mp_upd at phys s p en)"
proof -
  have b: "block_ok A pm S D phys s e p" "allows_access at" using assms by (simp_all add: mp_ok_def)
  obtain l where l: "pte_new_leaf (of_nat (phys + (p - s))) at = Some l" "pte_is_leaf l"
    "pte_address l = of_nat (phys + (p - s))" "pte_attributes l = Some (at\<lparr>attr_KIND := Normal\<rparr>)"
    "leaf_ok (LEVELS A ! D) l"
    by (rule block_leaf [OF b])
  have "mp_upd at phys s p en = l" using l(1) by (simp add: mp_upd_def del: of_nat_add)
  then show "pte_new_leaf (of_nat (phys + (p - s))) at = Some (mp_upd at phys s p en)" "pte_is_leaf (mp_upd at phys s p en)"
    "pte_address (mp_upd at phys s p en) = of_nat (phys + (p - s))"
    "pte_attributes (mp_upd at phys s p en) = Some (at\<lparr>attr_KIND := Normal\<rparr>)"
    "leaf_ok (LEVELS A ! D) (mp_upd at phys s p en)"
    using l by blast+
qed

lemma map_fill_ok:
  assumes inv: "mp_inv fa_inv A pm S D at phys f0 s p vs" and b: "frame_ok A pm b" and n: "0 < n"
    and i: "i + n \<le> lv_entries (LEVELS A ! D)" and lt: "p + n * lv_span (LEVELS A ! D) < 2 ^ 64"
    and ok: "\<And>j. j < n \<Longrightarrow> mp_ok A pm S D at phys s e (p + j * lv_span (LEVELS A ! D)) (frame_word pm mem b (i + j))"
  shows "\<exists>mem' vs'. map_fill A pm S \<lparr>tb_base = b, tb_depth = D\<rparr> i n (of_nat p) (mem, vs) = Some (Inr (), (mem', vs')) \<and>
        mp_inv fa_inv A pm S D at phys f0 s (p + n * lv_span (LEVELS A ! D)) vs' \<and>
        mv_frame_allocator vs' = mv_frame_allocator vs \<and>
        (\<forall>j < n. frame_word pm mem' b (i + j) =
           mp_upd at phys s (p + j * lv_span (LEVELS A ! D)) (frame_word pm mem b (i + j))) \<and>
        (\<forall>b' j. frame_ok A pm b' \<and> j < frame_words A \<and> (b' \<noteq> b \<or> j \<notin> {i ..< i + n}) \<longrightarrow>
           frame_word pm mem' b' j = frame_word pm mem b' j)"
proof -
  have o: "op_setup A pm S D" and c: "covers_from f0 s p (mv_flush vs)" and ph: "mv_phys vs = of_nat (phys + (p - s))"
    and at: "mv_attributes vs = at"
    using inv by (simp_all add: mp_inv_def)
  let ?X = "\<lambda>j. of_nat (phys + (p + j * lv_span (LEVELS A ! D) - s)) :: paddr"
  have st: "map_step S at (?X j) (frame_word pm mem b (i + j)) =
      Some (mp_upd at phys s (p + j * lv_span (LEVELS A ! D)) (frame_word pm mem b (i + j)), ?X (Suc j))" if "j < n" for j
  proof -
    note okj = ok [OF that]
    have blk: "block_ok A pm S D phys s e (p + j * lv_span (LEVELS A ! D))" and lf: "pte_is_vacant (frame_word pm mem b (i + j))"
      using okj by (simp_all add: mp_ok_def)
    have "p + Suc j * lv_span (LEVELS A ! D) = p + j * lv_span (LEVELS A ! D) + lv_span (LEVELS A ! D)" by simp
    then have nx: "addr_add (?X j) (page_BYTES S) = Some (?X (Suc j))" using block_step [OF blk] by (simp only:)
    show ?thesis using lf nx mp_upd_ok(1) [OF okj] by (simp add: map_step_def del: of_nat_add of_nat_diff mult_Suc)
  qed
  show ?thesis
    by (rule visitor_fill [OF o b n i lt c, of "map_step S at" ?X mem
          "\<lambda>j. mp_upd at phys s (p + j * lv_span (LEVELS A ! D)) (frame_word pm mem b (i + j))"])
      (use st inv ph at i op_setupD(4) [OF o] in
        \<open>simp_all add: map_fill_def mp_inv_def level_at_Some del: of_nat_add\<close>)
qed

lemma map_descend_table:
  assumes "op_setup A pm S D" "d < D" "frame_ok A pm b" "i < lv_entries (LEVELS A ! d)"
    "pte_is_table (frame_word pm mem b i)"
  shows "map_descend fa A pm \<lparr>tb_base = b, tb_depth = d\<rparr> i (mem, vs) =
           Some (Inr (Some (pte_address (frame_word pm mem b i))), (mem, vs))"
proof -
  note o = op_setupD [OF assms(1)]
  have "i < frame_words A" using o(7) [of d i] assms(2,4) by simp
  then show ?thesis
    using table_get_ok [OF o(1,2) assms(3), of i d mem] assms(5) by (simp add: map_descend_def)
qed

context granule_allocator
begin

lemma map_descend_vacant:
  assumes o: "op_setup A pm S D" and inv: "fa_inv (mv_frame_allocator vs)" and d: "d < D"
    and b: "b \<in> fa_owned (mv_frame_allocator vs)" and i: "i < lv_entries (LEVELS A ! d)"
    and vac: "pte_is_vacant (frame_word pm mem b i)"
  obtains (err) e al where
    "map_descend fa A pm \<lparr>tb_base = b, tb_depth = d\<rparr> i (mem, vs) = Some (Inl e, (mem, vs\<lparr>mv_frame_allocator := al\<rparr>))"
    "fa_inv al" "fa_owned al = fa_owned (mv_frame_allocator vs)"
  | (ok) c al mem' where
    "map_descend fa A pm \<lparr>tb_base = b, tb_depth = d\<rparr> i (mem, vs) =
       Some (Inr (Some c), (mem', vs\<lparr>mv_frame_allocator := al, mv_flush := flush_invalidate_all (mv_flush vs)\<rparr>))"
    "fa_inv al" "frame_ok A pm c" "c \<notin> fa_owned (mv_frame_allocator vs)"
    "fa_owned al = insert c (fa_owned (mv_frame_allocator vs))"
    "pte_is_table (frame_word pm mem' b i)" "pte_address (frame_word pm mem' b i) = c"
    "\<And>j. j < frame_words A \<Longrightarrow> frame_word pm mem' c j = 0"
    "\<And>b' j. frame_ok A pm b' \<Longrightarrow> j < frame_words A \<Longrightarrow> b' \<noteq> c \<Longrightarrow> b' \<noteq> b \<or> j \<noteq> i \<Longrightarrow>
       frame_word pm mem' b' j = frame_word pm mem b' j"
proof -
  note P = op_setupD [OF o]
  have fb: "frame_ok A pm b" by (rule owned_frame_ok [OF inv b])
  have iw: "i < frame_words A" using P(7) [of d i] d i by simp
  note get = table_get_ok [OF P(1,2) fb iw, of d mem]
  have nt: "\<not> pte_is_table (frame_word pm mem b i)" using vac pte_not_vacant_cases by blast
  have vac': "pte_is_vacant (frame_word pm mem b i) = True" using vac by simp
  show thesis
  proof (cases rule: alloc_zeroed_granule [OF P(1,2) inv, of mem, case_names Err Ok])
    case (Err e s')
    then show thesis
      using err [of e s'] get nt vac by (simp add: map_descend_def)
  next
    case (Ok c mem1 s')
    have cb: "c \<noteq> b" using Ok(4) b by auto
    have c56: "unat c < 2 ^ 56" and c4: "4096 dvd unat c"
      using Ok(3) GRANULE_SIZE_words(2) [OF P(1)] dvd_trans by (auto simp: frame_ok_def)
    obtain t where t: "pte_new_table c = Some t"
      using pte_new_table_eq_None [of c] c56 by (metis not_le option.exhaust)
    have ta: "pte_is_table t" "pte_address t = c"
      using pte_new_table_is_table [OF t] pte_new_table_address [OF t] c4 by (auto intro: usize_eqI)
    have dl: "d < length (LEVELS A)" using d P(4) by simp
    obtain mem2 where set: "table_set A \<lparr>tb_base = b, tb_depth = d\<rparr> i t pm mem1 = Some mem2"
      "frame_word pm mem2 b i = t"
      "\<And>b' i'. frame_ok A pm b' \<Longrightarrow> i' < frame_words A \<Longrightarrow> b' \<noteq> b \<or> i' \<noteq> i \<Longrightarrow>
         frame_word pm mem2 b' i' = frame_word pm mem1 b' i'"
      using table_set_ok [OF P(1,2) fb i dl, of t mem1] by blast
    show thesis
    proof (rule ok [of c mem2 s'])
      show "map_descend fa A pm \<lparr>tb_base = b, tb_depth = d\<rparr> i (mem, vs) =
         Some (Inr (Some c), (mem2, vs\<lparr>mv_frame_allocator := s', mv_flush := flush_invalidate_all (mv_flush vs)\<rparr>))"
        using get nt vac Ok(1) t set(1) by (simp add: map_descend_def)
      show "frame_word pm mem2 c j = 0" if "j < frame_words A" for j
        using set(3) [of c j] Ok(3,6) cb that by simp
      show "frame_word pm mem2 b' j = frame_word pm mem b' j"
        if "frame_ok A pm b'" "j < frame_words A" "b' \<noteq> c" "b' \<noteq> b \<or> j \<noteq> i" for b' j
        using set(3) [of b' j] Ok(7) that by simp
    qed (use Ok ta set(2) in simp_all)
  qed
qed

end

sublocale granule_allocator \<subseteq> mapv: table_visitor A pm D "map_visitor fa A pm S"
  "mp_inv fa_inv A pm S D at phys f0 s" "\<lambda>vs. fa_owned (mv_frame_allocator vs)"
  "mp_ok A pm S D at phys s e" "mp_upd at phys s" for S D at phys f0 s e
proof (unfold_locales, goal_cases)
  case (1 p vs)
  then show ?case using op_setupD(1,2,4) by (auto simp: mp_inv_def)
next
  case (2 p vs f)
  then show ?case by (intro owned_frame_ok [of "mv_frame_allocator vs"]) (simp_all add: mp_inv_def)
next
  case (3 p en)
  then show ?case using mp_upd_ok(2,5) [OF 3] by (simp add: mp_ok_def pte_state_defs)
next
  case (4 p en en')
  then show ?case by (simp add: mp_ok_def mp_upd_def)
next
  case (5 p vs b n i mem)
  then show ?case using map_fill_ok [OF 5(1-6)] by (auto simp: map_visitor_def)
next
  case (6 p vs d b i mem)
  then show ?case
    using map_descend_table [of A pm S D d b i mem fa vs] by (simp add: map_visitor_def mp_inv_def)
next
  case (7 p vs d b i mem q)
  have inv: "op_setup A pm S D" "fa_inv (mv_frame_allocator vs)" and c: "s \<le> p"
    using 7(1) by (simp_all add: mp_inv_def covers_from_def)
  show ?case
    by (cases rule: map_descend_vacant [OF inv 7(2-5), case_names err ok])
      (use 7(1) c in \<open>auto simp: map_visitor_def mp_inv_def covers_from_all\<close>)
next
  case (8 p vs d b c i mem)
  then show ?case by (simp add: map_visitor_def default_ascend_ok)
qed

section \<open>Unmapping\<close>

definition um_inv ::
  "('a \<Rightarrow> bool) \<Rightarrow> arch \<Rightarrow> PhysMap \<Rightarrow> PageSize \<Rightarrow> nat \<Rightarrow> Flush \<Rightarrow> nat \<Rightarrow> nat \<Rightarrow> 'a UnmapVisitor \<Rightarrow> bool" where
  "um_inv fa_inv A pm S D f0 s p vs \<longleftrightarrow>
     op_setup A pm S D \<and> fa_inv (uv_frame_allocator vs) \<and> covers_from f0 s p (uv_flush vs)"

definition um_ok :: "nat \<Rightarrow> pte \<Rightarrow> bool" where
  "um_ok p e \<longleftrightarrow> pte_is_leaf e"

definition um_upd :: "nat \<Rightarrow> pte \<Rightarrow> pte" where
  "um_upd p e = pte_VACANT"

lemma table_all_vacant_ok:
  assumes "wf_arch A" "wf_physmap pm" "frame_ok A pm c" "\<forall>i \<in> set is. i < frame_words A"
  shows "table_all_vacant \<lparr>tb_base = c, tb_depth = d\<rparr> is pm mem =
           Some (\<forall>i \<in> set is. pte_is_vacant (frame_word pm mem c i))"
  using assms(4) by (induction "is") (simp_all add: table_get_ok [OF assms(1-3)])

lemma table_is_empty_ok:
  assumes "wf_arch A" "wf_physmap pm" "frame_ok A pm c" "d < length (LEVELS A)"
  shows "table_is_empty A \<lparr>tb_base = c, tb_depth = d\<rparr> pm mem =
           Some (\<forall>j < lv_entries (LEVELS A ! d). pte_is_vacant (frame_word pm mem c j))"
proof -
  have "lv_entries (LEVELS A ! d) \<le> frame_words A" using lv_entries_words [OF assms(1)] assms(4) by simp
  then show ?thesis
    using table_all_vacant_ok [OF assms(1-3), of "[0 ..< lv_entries (LEVELS A ! d)]" d mem] assms(4)
    by (auto simp: table_is_empty_def level_at_Some)
qed

lemma unmap_fill_ok:
  assumes inv: "um_inv fa_inv A pm S D f0 s p vs" and b: "frame_ok A pm b" and n: "0 < n"
    and i: "i + n \<le> lv_entries (LEVELS A ! D)" and lt: "p + n * lv_span (LEVELS A ! D) < 2 ^ 64"
    and ok: "\<And>j. j < n \<Longrightarrow> um_ok (p + j * lv_span (LEVELS A ! D)) (frame_word pm mem b (i + j))"
  shows "\<exists>mem' vs'. unmap_fill pm S \<lparr>tb_base = b, tb_depth = D\<rparr> i n (of_nat p) (mem, vs) = Some (Inr () :: AllocError + unit, (mem', vs')) \<and>
        um_inv fa_inv A pm S D f0 s (p + n * lv_span (LEVELS A ! D)) vs' \<and>
        uv_frame_allocator vs' = uv_frame_allocator vs \<and>
        (\<forall>j < n. frame_word pm mem' b (i + j) =
           um_upd (p + j * lv_span (LEVELS A ! D)) (frame_word pm mem b (i + j))) \<and>
        (\<forall>b' j. frame_ok A pm b' \<and> j < frame_words A \<and> (b' \<noteq> b \<or> j \<notin> {i ..< i + n}) \<longrightarrow>
           frame_word pm mem' b' j = frame_word pm mem b' j)"
proof -
  have o: "op_setup A pm S D" and c: "covers_from f0 s p (uv_flush vs)" using inv by (simp_all add: um_inv_def)
  show ?thesis
    by (rule visitor_fill [OF o b n i lt c, of unmap_step "\<lambda>_. ()" mem "\<lambda>_. pte_VACANT"])
      (use ok inv in \<open>simp_all add: unmap_fill_def um_inv_def unmap_step_def um_ok_def um_upd_def\<close>)
qed

context granule_deallocator
begin

lemma unmap_ascend_ok:
  assumes inv: "um_inv fa_inv A pm S D f0 s p vs" and d: "d < D"
    and bc: "b \<in> fa_owned (uv_frame_allocator vs)" "c \<in> fa_owned (uv_frame_allocator vs)"
    and i: "i < lv_entries (LEVELS A ! d)"
  shows "\<exists>mem' vs'. unmap_ascend fa A pm \<lparr>tb_base = b, tb_depth = d\<rparr> i c (Suc d) (mem, vs) = Some (Inr () :: AllocError + unit, (mem', vs')) \<and>
        um_inv fa_inv A pm S D f0 s p vs' \<and>
        (mem' = mem \<and> vs' = vs \<or>
         (\<forall>j < lv_entries (LEVELS A ! Suc d). pte_is_vacant (frame_word pm mem c j)) \<and>
         frame_word pm mem' b i = 0 \<and> fa_owned (uv_frame_allocator vs') = fa_owned (uv_frame_allocator vs) - {c} \<and>
         (\<forall>b' j. frame_ok A pm b' \<and> j < frame_words A \<and> (b' \<noteq> b \<or> j \<noteq> i) \<longrightarrow>
            frame_word pm mem' b' j = frame_word pm mem b' j))"
proof -
  have o: "op_setup A pm S D" and al: "fa_inv (uv_frame_allocator vs)" and sp: "s \<le> p"
    using inv by (simp_all add: um_inv_def covers_from_def)
  note P = op_setupD [OF o]
  have dl: "d < length (LEVELS A)" "Suc d < length (LEVELS A)" using d P(4) by simp_all
  have f: "frame_ok A pm b" "frame_ok A pm c" using owned_frame_ok [OF al] bc by blast+
  note em = table_is_empty_ok [OF P(1,2) f(2) dl(2), of mem]
  show ?thesis
  proof (cases "\<forall>j < lv_entries (LEVELS A ! Suc d). pte_is_vacant (frame_word pm mem c j)")
    case True
    obtain mem' where m: "table_set A \<lparr>tb_base = b, tb_depth = d\<rparr> i pte_VACANT pm mem = Some mem'"
      "frame_word pm mem' b i = pte_VACANT"
      "\<And>b' i'. frame_ok A pm b' \<Longrightarrow> i' < frame_words A \<Longrightarrow> b' \<noteq> b \<or> i' \<noteq> i \<Longrightarrow>
         frame_word pm mem' b' i' = frame_word pm mem b' i'"
      using table_set_ok [OF P(1,2) f(1) i dl(1), of pte_VACANT mem] by blast
    obtain al' where al': "fa_deallocate fa c (GRANULE_LAYOUT A) (uv_frame_allocator vs) = Some al'" "fa_inv al'"
      "fa_owned al' = fa_owned (uv_frame_allocator vs) - {c}"
      using dealloc_granule [OF al bc(2)] by blast
    let ?vs = "vs\<lparr>uv_frame_allocator := al', uv_flush := flush_invalidate_all (uv_flush vs)\<rparr>"
    have "unmap_ascend fa A pm \<lparr>tb_base = b, tb_depth = d\<rparr> i c (Suc d) (mem, vs) = Some (Inr () :: AllocError + unit, (mem', ?vs))"
      using em True m(1) al'(1) by (simp add: unmap_ascend_def table_from_raw_parts_def)
    moreover have "um_inv fa_inv A pm S D f0 s p ?vs" using o al'(2) sp by (simp add: um_inv_def covers_from_all)
    moreover have "frame_word pm mem' b i = 0" using m(2) by (simp add: pte_VACANT_def)
    ultimately show ?thesis using True m(3) al'(3) by (intro exI [of _ mem'] exI [of _ ?vs]) simp
  next
    case False
    then have "unmap_ascend fa A pm \<lparr>tb_base = b, tb_depth = d\<rparr> i c (Suc d) (mem, vs) = Some (Inr () :: AllocError + unit, (mem, vs))"
      using em by (auto simp: unmap_ascend_def table_from_raw_parts_def)
    then show ?thesis using inv by blast
  qed
qed

end

sublocale granule_deallocator \<subseteq> unmapv: table_visitor A pm D
  "unmap_visitor fa A pm S :: (mem \<times> 'a UnmapVisitor, AllocError) visitor"
  "um_inv fa_inv A pm S D f0 s" "\<lambda>vs. fa_owned (uv_frame_allocator vs)" um_ok um_upd for S D f0 s
proof (unfold_locales, goal_cases)
  case (1 p vs)
  then show ?case using op_setupD(1,2,4) by (auto simp: um_inv_def)
next
  case (2 p vs f)
  then show ?case by (intro owned_frame_ok [of "uv_frame_allocator vs"]) (simp_all add: um_inv_def)
next
  case (3 p en)
  then show ?case by (simp add: um_ok_def um_upd_def pte_VACANT_def pte_leaf_not_table leaf_ok_def)
next
  case (4 p en en')
  then show ?case by (simp add: um_ok_def pte_is_leaf_def pte_is_vacant_def)
next
  case (5 p vs b n i mem)
  then show ?case using unmap_fill_ok [OF 5(1-6)] by (auto simp: unmap_visitor_def)
next
  case (6 p vs d b i mem)
  then show ?case
    using default_descend_table [of A pm S D d b i mem vs] by (simp add: unmap_visitor_def um_inv_def)
next
  case (7 p vs d b i mem q)
  then show ?case by (simp add: um_ok_def pte_is_leaf_def pte_is_vacant_def)
next
  case (8 p vs d b c i mem)
  then show ?case using unmap_ascend_ok [OF 8(1-4,6), of mem] unfolding unmap_visitor_def visitor.simps by metis
qed

end
