(* ===== verification/Space_Operations.thy ===== *)
theory Space_Operations
  imports Alloc_Visitors
begin

text \<open>
  The operations of \<^verbatim>\<open>lib/mem-mmu/src/address_space.rs\<close> as changes of the translation: on a tree that
  keeps its invariant they return, change the translation of the range as documented, keep
  every other translation and the invariant, and record the range for flushing.
\<close>

section \<open>Ranges of pages\<close>

lemma pages_range:
  assumes "in_half A s e" "unat (page_BYTES S) dvd s" "unat (page_BYTES S) dvd e"
  shows "assert_pages S (range_nn s e) = Some ()" "assert_aligned S (range_end (range_nn s e)) = Some ()"
proof -
  have se: "s < e" using assms(1) by (simp add: in_half_def)
  note u = in_half_unat [OF assms(1)]
  have "s + unat (page_BYTES S) \<le> e" by (rule multiples_apart [OF assms(2,3) se])
  then have "page_BYTES S \<le> of_nat (e - s)" unfolding word_le_nat_alt u(3) by linarith
  moreover have "addr_is_aligned_to (of_nat s) (page_BYTES S) = Some True" "addr_is_aligned_to (of_nat e) (page_BYTES S) = Some True"
    using assms(2,3) u by (simp_all add: addr_is_aligned_to_eq_Some)
  ultimately show "assert_pages S (range_nn s e) = Some ()" "assert_aligned S (range_end (range_nn s e)) = Some ()"
    using range_len_nn [OF assms(1)]
    by (simp_all add: assert_pages_def assert_aligned_def range_of_def del: of_nat_diff)
qed

lemma assert_aligned_ok: "unat (page_BYTES S) dvd unat a \<Longrightarrow> assert_aligned S a = Some ()"
  using addr_is_aligned_to_eq_Some [of a "page_BYTES S" True] by (simp add: assert_aligned_def)

section \<open>Levels and leaves\<close>

lemma lv_span_decreasing:
  assumes "wf_levels lvs" "i < j" "j < length lvs"
  shows "lv_span (lvs ! j) < lv_span (lvs ! i)"
  using assms(2,3)
proof (induction j)
  case (Suc j)
  have wl: "wf_level (lvs ! Suc j)" using wf_levels_wf_level [OF assms(1)] Suc.prems(2) by simp
  have "2 \<le> lv_entries (lvs ! Suc j)"
  proof -
    have "(2::nat) ^ 1 \<le> 2 ^ ilog2 (lv_entries (lvs ! Suc j))"
      by (rule power_increasing) (use wl in \<open>simp_all add: wf_level_def\<close>)
    then show ?thesis using wl by (simp add: wf_level_def)
  qed
  then have "1 * lv_span (lvs ! Suc j) < lv_entries (lvs ! Suc j) * lv_span (lvs ! Suc j)"
    by (intro mult_strict_right_mono) simp_all
  then have "lv_span (lvs ! Suc j) < lv_span (lvs ! j)"
    using wf_levels_nth [OF assms(1) Suc.prems(2)] by simp
  then show ?case using Suc.IH Suc.prems by (cases "i = j") auto
qed simp

lemma levels_distinct:
  assumes "wf_arch A" "i < length (LEVELS A)" "j < length (LEVELS A)" "LEVELS A ! i = LEVELS A ! j"
  shows "i = j"
  using lv_span_decreasing [OF wf_arch_levels(1) [OF assms(1)], of i j]
    lv_span_decreasing [OF wf_arch_levels(1) [OF assms(1)], of j i] assms(2-4)
  by (metis less_irrefl nat_neq_iff)

lemma attributes_kind: "pte_attributes e = Some a \<Longrightarrow> a\<lparr>attr_KIND := Normal\<rparr> = a"
  by (auto simp: pte_attributes_def attrs_new_def bind_eq_Some_conv)

text \<open>The offset in the page is joined to the address of the leaf.\<close>

lemma or_offset:
  assumes "unat (page_BYTES S) dvd x" "x + v mod unat (page_BYTES S) < 2 ^ 64"
  shows "of_nat x OR (of_nat v AND (page_BYTES S - 1)) = (of_nat (x + v mod unat (page_BYTES S)) :: usize)"
proof -
  let ?k = "page_SHIFT S"
  have k: "?k < 64" using page_SHIFT_bounds(2) [of S] by simp
  have pb: "page_BYTES S - 1 = mask ?k" by (simp add: page_BYTES_pow2 mask_eq_exp_minus_1)
  have tv: "of_nat v AND mask ?k = (of_nat (v mod 2 ^ ?k) :: usize)"
    by (metis take_bit_eq_mask take_bit_of_nat take_bit_eq_mod)
  have "take_bit ?k x = 0" using assms(1) by (simp add: take_bit_eq_mod)
  then have z: "take_bit ?k (of_nat x :: usize) = 0" by (simp add: take_bit_of_nat)
  have "(of_nat x :: usize) AND take_bit ?k (of_nat v) = 0"
  proof (rule bit_eqI)
    fix n
    have "\<not> bit (take_bit ?k (of_nat x :: usize)) n" unfolding z by simp
    then show "bit ((of_nat x :: usize) AND take_bit ?k (of_nat v)) n = bit (0 :: usize) n"
      by (simp add: bit_and_iff bit_take_bit_iff)
  qed
  then have "of_nat x OR (of_nat v AND mask ?k) = (of_nat x + (of_nat v AND mask ?k) :: usize)"
    by (simp add: take_bit_eq_mask disjunctive_add_eq_or)
  then show ?thesis using tv pb by simp
qed

lemma leaf_translation:
  assumes o: "op_setup A pm S D" and l: "pte_is_leaf l" "pte_address l = of_nat x" "pte_attributes l = Some a"
    and x: "unat (page_BYTES S) dvd x" "x < 2 ^ 56"
  shows "translation A (of_nat v) (l, D) =
     Some (of_nat (x + v mod unat (page_BYTES S)), a, LEVELS A ! D)"
proof -
  note P = op_setupD [OF o]
  have "level_page_size (LEVELS A ! D) = page_BYTES S"
    using P(5) level_page_size_nat wf_arch_levels(3) [OF P(1)] P(4) by (metis nth_mem usize_eqI)
  moreover have "v mod unat (page_BYTES S) < 2 ^ 48"
  proof -
    have "(2::nat) ^ page_SHIFT S \<le> 2 ^ 48" by (rule power_increasing) (use page_SHIFT_bounds(2) in simp_all)
    moreover have "v mod unat (page_BYTES S) < 2 ^ page_SHIFT S" by simp
    ultimately show ?thesis by linarith
  qed
  ultimately show ?thesis
    using or_offset [OF x(1), of v] x(2) l by (simp add: translation_def del: unat_page_BYTES of_nat_add)
qed

lemma page_split:
  assumes "d dvd s" "s \<le> v" "0 < (d :: nat)"
  shows "phys + (round_down v d - s) + v mod d = phys + (v - s)" "s \<le> round_down v d" "round_down v d \<le> v"
    "d dvd round_down v d"
proof -
  show a: "s \<le> round_down v d" by (rule round_down_greatest [OF assms(1,2)])
  show "round_down v d \<le> v" by (rule round_down_le)
  have "v = round_down v d + v mod d" by (simp add: round_down_def)
  then show "phys + (round_down v d - s) + v mod d = phys + (v - s)" using a by linarith
qed simp

text \<open>A leaf found by \<open>lookup\<close> at the leaf depth of the page size.\<close>

lemma lookup_leaf:
  assumes "wf_space pm mem sp" "op_setup (as_arch sp) pm S D" "v < 2 ^ 64"
    "lookup sp pm mem (of_nat v) = Some (Some (p, a, LEVELS (as_arch sp) ! D))"
  obtains e where "space_walk pm mem sp v = (e, D)" "pte_is_leaf e" "leaf_ok (LEVELS (as_arch sp) ! D) e"
    "pte_attributes e = Some a"
    "p = pte_address e OR (of_nat v AND (level_page_size (LEVELS (as_arch sp) ! D) - 1))"
proof -
  let ?A = "as_arch sp"
  note P = op_setupD [OF assms(2)]
  obtain e n where w: "space_walk pm mem sp v = (e, n)" by (cases "space_walk pm mem sp v")
  have u: "unat (of_nat v :: usize) = v" by (rule unat_of_nat_usize [OF assms(3)])
  have t: "translation ?A (of_nat v) (e, n) = Some (p, a, LEVELS ?A ! D)"
    using lookup_walk [OF assms(1), of "of_nat v"] assms(4) w u by simp
  have wf: "pt_wf ?A pm mem (LEVELS ?A) (tb_base (as_root_page_table sp))" using assms(1) by (simp add: wf_space_def)
  have L: "sub_levels ?A (LEVELS ?A)" using sub_levels_drop [OF P(1), of 0] by simp
  have n: "n < length (LEVELS ?A)" and lk: "leaf_ok (LEVELS ?A ! n) e"
    using pt_walk_end [OF wf L, of v] w by (simp_all add: space_walk_def)
  have leaf: "pte_is_leaf e" using t by (simp add: translation_def split: if_splits)
  then have "LEVELS ?A ! n = LEVELS ?A ! D" using t by (simp add: translation_def)
  then have nD: "n = D" using levels_distinct [OF P(1) n P(4)] by simp
  obtain a' where a': "pte_attributes e = Some a'" using lk leaf by (auto simp: leaf_ok_def)
  show thesis
    by (rule that [of e]) (use w nD leaf lk t a' in \<open>auto simp: translation_def\<close>)
qed

lemma in_half_less: "in_half A s e \<Longrightarrow> v < e \<Longrightarrow> v < 2 ^ 64"
  by (simp add: in_half_def)

text \<open>The range is mapped with leaves of the page size.\<close>

definition mapped_at :: "PhysMap \<Rightarrow> mem \<Rightarrow> HardwareAddressSpace \<Rightarrow> nat \<Rightarrow> nat \<Rightarrow> nat \<Rightarrow> bool" where
  "mapped_at pm mem sp D s e \<longleftrightarrow>
     (\<forall>v. s \<le> v \<and> v < e \<longrightarrow>
        (\<exists>p a. lookup sp pm mem (of_nat v) = Some (Some (p, a, LEVELS (as_arch sp) ! D))))"

lemma mapped_leaf:
  assumes "wf_space pm mem sp" "op_setup (as_arch sp) pm S D" "in_half (as_arch sp) s e"
    "mapped_at pm mem sp D s e" "s \<le> v" "v < e"
  obtains en a where "space_walk pm mem sp v = (en, D)" "pte_is_leaf en" "leaf_ok (LEVELS (as_arch sp) ! D) en"
    "pte_attributes en = Some a" "unat (of_nat v :: usize) = v"
    "lookup sp pm mem (of_nat v) =
       Some (Some (pte_address en OR (of_nat v AND (level_page_size (LEVELS (as_arch sp) ! D) - 1)), a, LEVELS (as_arch sp) ! D))"
proof -
  have lt: "v < 2 ^ 64" by (rule in_half_less [OF assms(3,6)])
  obtain p a where l: "lookup sp pm mem (of_nat v) = Some (Some (p, a, LEVELS (as_arch sp) ! D))"
    using assms(4-6) unfolding mapped_at_def by blast
  show thesis
    by (rule lookup_leaf [OF assms(1,2) lt l]) (use that l unat_of_nat_usize [OF lt] in auto)
qed

section \<open>Changing the attributes of a range\<close>

lemma sa_not_fails: "\<not> may_fail (sa_ok A D at)"
  by (simp add: may_fail_def sa_ok_def pte_is_leaf_def pte_is_vacant_def)

lemma set_attributes_ok:
  assumes wf: "wf_space pm mem sp" and o: "op_setup (as_arch sp) pm S D" and half: "in_half (as_arch sp) s e"
    and dvd: "unat (page_BYTES S) dvd s" "unat (page_BYTES S) dvd e"
    and at: "allows_access at" and f: "wf_flush f" and mapped: "mapped_at pm mem sp D s e"
  obtains mem' f' where "set_attributes pm S sp (range_nn s e) at (mem, f) = Some (Inr (), (mem', f'))"
    "wf_space pm mem' sp" "space_frames pm mem' sp \<subseteq> space_frames pm mem sp"
    "\<And>v p a lv. s \<le> v \<Longrightarrow> v < e \<Longrightarrow> lookup sp pm mem (of_nat v) = Some (Some (p, a, lv)) \<Longrightarrow>
       lookup sp pm mem' (of_nat v) = Some (Some (p, at\<lparr>attr_KIND := Normal\<rparr>, lv))"
    "\<And>v. canonical (as_arch sp) v \<Longrightarrow> v \<notin> {s ..< e} \<Longrightarrow> lookup sp pm mem' (of_nat v) = lookup sp pm mem (of_nat v)"
    "covers_from f s e f'"
proof -
  note P = op_setupD [OF o]
  let ?A = "as_arch sp" and ?fs = "space_frames pm mem sp" and ?vs = "\<lparr>sv_attributes = at, sv_flush = f\<rparr>"
  have fs: "\<forall>fr \<in> ?fs. frame_ok ?A pm fr"
    using pt_wf_frame_ok wf by (auto simp: space_frames_def wf_space_def)
  have inv: "sa_inv ?A pm S D ?fs at f s s ?vs"
    using o fs covers_from_refl [OF f] by (simp add: sa_inv_def)
  have pre: "walk_pre (sa_ok ?A D at q) D (space_walk pm mem sp x)" if "s \<le> x" "x < e" for x q
    by (rule mapped_leaf [OF wf o half mapped that]) (simp add: walk_pre_def sa_ok_def at)
  show thesis
  proof (rule set_attr.space_visit [where ?'e = AllocError, OF refl wf P(3) inv order_refl half dvd pre])
    fix r :: "AllocError + unit" and mem' vs'
    assume run: "table_visit ?A S D (set_attributes_visitor pm S) (as_root_page_table sp) (range_nn s e) (mem, ?vs) = Some (r, (mem', vs'))"
      and wf': "wf_space pm mem' sp" and fr: "space_frames pm mem' sp \<subseteq> ?fs"
      and out: "\<And>x. canonical ?A x \<Longrightarrow> x \<notin> {s ..< e} \<Longrightarrow> lookup sp pm mem' (of_nat x) = lookup sp pm mem (of_nat x)"
      and res: "r = Inr () \<and> sa_inv ?A pm S D ?fs at f s e vs' \<and> (\<forall>x. s \<le> x \<and> x < e \<longrightarrow>
         walk_done (sa_upd at (round_down x (unat (page_BYTES S)))) D (space_walk pm mem sp x) (space_walk pm mem' sp x)) \<or>
       (\<exists>err. r = Inl err) \<and> may_fail (sa_ok ?A D at) \<and> (\<exists>p. sa_inv ?A pm S D ?fs at f s p vs') \<and> (\<forall>x. s \<le> x \<and> x < e \<longrightarrow>
         walk_done (sa_upd at (round_down x (unat (page_BYTES S)))) D (space_walk pm mem sp x) (space_walk pm mem' sp x) \<or>
         walk_keeps D (space_walk pm mem sp x) (space_walk pm mem' sp x))"
    have r: "r = Inr ()" and inv': "sa_inv ?A pm S D ?fs at f s e vs'"
      and fin: "\<And>x. s \<le> x \<Longrightarrow> x < e \<Longrightarrow> walk_done (sa_upd at (round_down x (unat (page_BYTES S)))) D
        (space_walk pm mem sp x) (space_walk pm mem' sp x)"
      using res sa_not_fails by blast+
    show thesis
    proof (rule that [of mem' "sv_flush vs'"])
      show "set_attributes pm S sp (range_nn s e) at (mem, f) = Some (Inr (), (mem', sv_flush vs'))"
        using run r P(3) pages_range [OF half dvd] by (simp add: set_attributes_def)
      show "covers_from f s e (sv_flush vs')" using inv' by (simp add: sa_inv_def)
      show "lookup sp pm mem' (of_nat v) = Some (Some (p, at\<lparr>attr_KIND := Normal\<rparr>, lv))"
        if v: "s \<le> v" "v < e" and l: "lookup sp pm mem (of_nat v) = Some (Some (p, a, lv))" for v p a lv
      proof -
        obtain en a' where en: "space_walk pm mem sp v = (en, D)" "pte_is_leaf en" "leaf_ok (LEVELS ?A ! D) en"
          "pte_attributes en = Some a'" "unat (of_nat v :: usize) = v"
          "lookup sp pm mem (of_nat v) =
             Some (Some (pte_address en OR (of_nat v AND (level_page_size (LEVELS ?A ! D) - 1)), a', LEVELS ?A ! D))"
          by (rule mapped_leaf [OF wf o half mapped v])
        let ?q = "round_down v (unat (page_BYTES S))"
        have ok: "sa_ok ?A D at ?q en" using en(2,3) at by (simp add: sa_ok_def)
        note up = sa_upd_ok [OF ok]
        have "space_walk pm mem' sp v = (sa_upd at ?q en, D)"
          using fin [OF v] en(1) up(2) by (auto simp: walk_done_def pte_is_leaf_def pte_is_vacant_def)
        then show ?thesis
          using lookup_walk [OF wf', of "of_nat v"] en(5,6) l up by (simp add: translation_def)
      qed
    qed (use wf' fr out in blast)+
  qed
qed

section \<open>Mapping to a block of physical memory\<close>

lemma block_okI:
  assumes "op_setup A pm S D" "unat (page_BYTES S) dvd s" "unat (page_BYTES S) dvd e"
    "unat (page_BYTES S) dvd phys" "phys + (e - s) \<le> 2 ^ 56" "s \<le> v" "v < e"
  shows "block_ok A pm S D phys s e (round_down v (unat (page_BYTES S)))"
  using page_split(2-4) [OF assms(2,6)] assms by (simp add: block_ok_def)

text \<open>A leaf for the page of an address translates the address to its place in the block.\<close>

lemma block_translation:
  assumes o: "op_setup A pm S D" and s: "unat (page_BYTES S) dvd s" "unat (page_BYTES S) dvd phys"
    and v: "s \<le> v" "v < e" and b: "phys + (e - s) \<le> 2 ^ 56"
    and l: "pte_is_leaf l" "pte_address l = of_nat (phys + (round_down v (unat (page_BYTES S)) - s))" "pte_attributes l = Some a"
  shows "translation A (of_nat v) (l, D) = Some (of_nat (phys + (v - s)), a, LEVELS A ! D)"
proof -
  let ?d = "unat (page_BYTES S)"
  have p: "phys + (round_down v ?d - s) + v mod ?d = phys + (v - s)" "s \<le> round_down v ?d" "round_down v ?d \<le> v" "?d dvd round_down v ?d"
    using page_split(1) [OF s(1) v(1), of phys] page_split(2-4) [OF s(1) v(1)] by simp_all
  have "?d dvd phys + (round_down v ?d - s)" using s p(4) by (intro dvd_add dvd_diff_nat)
  moreover have "phys + (round_down v ?d - s) < 2 ^ 56" using p(2,3) v b by linarith
  ultimately show ?thesis
    using leaf_translation [OF o l, of v] unfolding p(1) by blast
qed

lemma rm_not_fails: "\<not> may_fail (rm_ok A pm S D phys s e)"
  by (simp add: may_fail_def rm_ok_def pte_is_leaf_def pte_is_vacant_def)

lemma remap_contiguous_ok:
  assumes wf: "wf_space pm mem sp" and o: "op_setup (as_arch sp) pm S D" and half: "in_half (as_arch sp) s e"
    and dvd: "unat (page_BYTES S) dvd s" "unat (page_BYTES S) dvd e"
    and ph: "unat (page_BYTES S) dvd phys" "phys + (e - s) \<le> 2 ^ 56"
    and f: "wf_flush f" and mapped: "mapped_at pm mem sp D s e"
  obtains mem' f' where "remap_contiguous pm S sp (range_nn s e) (of_nat phys) (mem, f) = Some (Inr (), (mem', f'))"
    "wf_space pm mem' sp" "space_frames pm mem' sp \<subseteq> space_frames pm mem sp"
    "\<And>v p a lv. s \<le> v \<Longrightarrow> v < e \<Longrightarrow> lookup sp pm mem (of_nat v) = Some (Some (p, a, lv)) \<Longrightarrow>
       lookup sp pm mem' (of_nat v) = Some (Some (of_nat (phys + (v - s)), a, lv))"
    "\<And>v. canonical (as_arch sp) v \<Longrightarrow> v \<notin> {s ..< e} \<Longrightarrow> lookup sp pm mem' (of_nat v) = lookup sp pm mem (of_nat v)"
    "covers_from f s e f'"
proof -
  note P = op_setupD [OF o]
  let ?A = "as_arch sp" and ?fs = "space_frames pm mem sp" and ?vs = "\<lparr>rv_phys = of_nat phys, rv_flush = f\<rparr>"
  let ?ok = "rm_ok ?A pm S D phys s e"
  have se: "s < e" using half by (simp add: in_half_def)
  have up: "unat (of_nat phys :: paddr) = phys"
    by (rule unat_of_nat_usize) (use ph(2) in simp)
  have fs: "\<forall>fr \<in> ?fs. frame_ok ?A pm fr"
    using pt_wf_frame_ok wf by (auto simp: space_frames_def wf_space_def)
  have inv: "rm_inv ?A pm S D ?fs phys f s s ?vs"
    using o fs covers_from_refl [OF f] by (simp add: rm_inv_def)
  have pre: "walk_pre (?ok (round_down x (unat (page_BYTES S)))) D (space_walk pm mem sp x)" if "s \<le> x" "x < e" for x
    by (rule mapped_leaf [OF wf o half mapped that])
      (use block_okI [OF o dvd ph that] in \<open>simp add: walk_pre_def rm_ok_def\<close>)
  show thesis
  proof (rule remap.space_visit [where ?'e = AllocError and e = e, OF refl wf P(3) inv order_refl half dvd pre])
    fix r :: "AllocError + unit" and mem' vs'
    assume run: "table_visit ?A S D (remap_visitor pm S) (as_root_page_table sp) (range_nn s e) (mem, ?vs) = Some (r, (mem', vs'))"
      and wf': "wf_space pm mem' sp" and fr: "space_frames pm mem' sp \<subseteq> ?fs"
      and out: "\<And>x. canonical ?A x \<Longrightarrow> x \<notin> {s ..< e} \<Longrightarrow> lookup sp pm mem' (of_nat x) = lookup sp pm mem (of_nat x)"
      and res: "r = Inr () \<and> rm_inv ?A pm S D ?fs phys f s e vs' \<and> (\<forall>x. s \<le> x \<and> x < e \<longrightarrow>
         walk_done (rm_upd phys s (round_down x (unat (page_BYTES S)))) D (space_walk pm mem sp x) (space_walk pm mem' sp x)) \<or>
       (\<exists>err. r = Inl err) \<and> may_fail ?ok \<and> (\<exists>p. rm_inv ?A pm S D ?fs phys f s p vs') \<and> (\<forall>x. s \<le> x \<and> x < e \<longrightarrow>
         walk_done (rm_upd phys s (round_down x (unat (page_BYTES S)))) D (space_walk pm mem sp x) (space_walk pm mem' sp x) \<or>
         walk_keeps D (space_walk pm mem sp x) (space_walk pm mem' sp x))"
    have r: "r = Inr ()" and inv': "rm_inv ?A pm S D ?fs phys f s e vs'"
      and fin: "\<And>x. s \<le> x \<Longrightarrow> x < e \<Longrightarrow> walk_done (rm_upd phys s (round_down x (unat (page_BYTES S)))) D
        (space_walk pm mem sp x) (space_walk pm mem' sp x)"
      using res rm_not_fails by blast+
    show thesis
    proof (rule that [of mem' "rv_flush vs'"])
      show "remap_contiguous pm S sp (range_nn s e) (of_nat phys) (mem, f) = Some (Inr (), (mem', rv_flush vs'))"
        using run r P(3) pages_range [OF half dvd] assert_aligned_ok [of S "of_nat phys"] ph(1) up
        by (simp add: remap_contiguous_def)
      show "covers_from f s e (rv_flush vs')" using inv' by (simp add: rm_inv_def)
      show "lookup sp pm mem' (of_nat v) = Some (Some (of_nat (phys + (v - s)), a, lv))"
        if v: "s \<le> v" "v < e" and l: "lookup sp pm mem (of_nat v) = Some (Some (p, a, lv))" for v p a lv
      proof -
        obtain en a' where en: "space_walk pm mem sp v = (en, D)" "pte_is_leaf en" "leaf_ok (LEVELS ?A ! D) en"
          "pte_attributes en = Some a'" "unat (of_nat v :: usize) = v"
          "lookup sp pm mem (of_nat v) =
             Some (Some (pte_address en OR (of_nat v AND (level_page_size (LEVELS ?A ! D) - 1)), a', LEVELS ?A ! D))"
          by (rule mapped_leaf [OF wf o half mapped v])
        let ?q = "round_down v (unat (page_BYTES S))"
        have ok: "?ok ?q en" using en(2,3) block_okI [OF o dvd ph v] by (simp add: rm_ok_def)
        obtain at where up: "pte_attributes en = Some at" "pte_is_leaf (rm_upd phys s ?q en)"
          "pte_address (rm_upd phys s ?q en) = of_nat (phys + (?q - s))"
          "pte_attributes (rm_upd phys s ?q en) = Some (at\<lparr>attr_KIND := Normal\<rparr>)"
          by (rule rm_upd_ok [OF ok])
        have "space_walk pm mem' sp v = (rm_upd phys s ?q en, D)"
          using fin [OF v] en(1) up(2) by (auto simp: walk_done_def pte_is_leaf_def pte_is_vacant_def)
        then show ?thesis
          using lookup_walk [OF wf', of "of_nat v"] block_translation [OF o dvd(1) ph(1) v ph(2) up(2,3,4)]
            en(4,5,6) l up(1) attributes_kind [OF up(1)] by simp
      qed
    qed (use wf' fr out in blast)+
  qed
qed

section \<open>Mapping and unmapping\<close>

text \<open>
  The range is unmapped, and no page table below the leaf level of the page size is in the way.
\<close>

definition unmapped_for :: "PhysMap \<Rightarrow> mem \<Rightarrow> HardwareAddressSpace \<Rightarrow> nat \<Rightarrow> nat \<Rightarrow> nat \<Rightarrow> bool" where
  "unmapped_for pm mem sp D s e \<longleftrightarrow>
     (\<forall>v. s \<le> v \<and> v < e \<longrightarrow>
        pte_is_vacant (fst (space_walk pm mem sp v)) \<and> snd (space_walk pm mem sp v) \<le> D)"

lemma vacant_lookup:
  assumes "wf_space pm mem sp" "v < 2 ^ 64" "pte_is_vacant (fst (space_walk pm mem sp v))"
  shows "lookup sp pm mem (of_nat v) = Some None"
  using lookup_walk [OF assms(1), of "of_nat v"] unat_of_nat_usize [OF assms(2)] assms(3)
  by (auto simp: translation_def pte_is_leaf_def pte_is_vacant_def split: prod.splits)

context granule_allocator
begin

lemma map_contiguous_ok:
  assumes wf: "wf_space pm mem sp" and sp: "A = as_arch sp" and o: "op_setup A pm S D" and half: "in_half A s e"
    and dvd: "unat (page_BYTES S) dvd s" "unat (page_BYTES S) dvd e"
    and ph: "unat (page_BYTES S) dvd phys" "phys + (e - s) \<le> 2 ^ 56" and at: "allows_access at"
    and f: "wf_flush f" and al: "fa_inv al" "space_frames pm mem sp \<subseteq> fa_owned al"
    and free: "unmapped_for pm mem sp D s e"
  obtains r mem' al' f' where
    "map_contiguous fa pm S sp (range_nn s e) (of_nat phys) at (mem, al, f) = Some (r, (mem', al', f'))"
    "wf_space pm mem' sp" "fa_inv al'" "space_frames pm mem' sp \<subseteq> fa_owned al'"
    "\<And>v. canonical A v \<Longrightarrow> v \<notin> {s ..< e} \<Longrightarrow> lookup sp pm mem' (of_nat v) = lookup sp pm mem (of_nat v)"
    "\<And>v. s \<le> v \<Longrightarrow> v < e \<Longrightarrow>
       lookup sp pm mem' (of_nat v) = Some (Some (of_nat (phys + (v - s)), at\<lparr>attr_KIND := Normal\<rparr>, LEVELS A ! D)) \<or>
       (\<exists>err. r = Inl err) \<and> lookup sp pm mem' (of_nat v) = Some None"
    "r = Inr () \<and> covers_from f s e f' \<or> (\<exists>err. r = Inl err) \<and> (\<exists>p. covers_from f s p f')"
    "\<And>v. canonical A v \<Longrightarrow> v \<notin> {s ..< e} \<Longrightarrow> walk_keeps D (space_walk pm mem sp v) (space_walk pm mem' sp v)"
proof -
  note P = op_setupD [OF o]
  let ?vs = "\<lparr>mv_phys = of_nat phys, mv_attributes = at, mv_frame_allocator = al, mv_flush = f\<rparr>"
  let ?ok = "mp_ok A pm S D at phys s e" and ?d = "unat (page_BYTES S)"
  have up: "unat (of_nat phys :: paddr) = phys"
    by (rule unat_of_nat_usize) (use ph(2) in simp)
  have inv: "mp_inv fa_inv A pm S D at phys f s s ?vs"
    using o al(1) covers_from_refl [OF f] by (simp add: mp_inv_def)
  have pre: "walk_pre (?ok (round_down x ?d)) D (space_walk pm mem sp x)" if "s \<le> x" "x < e" for x
    using free that block_okI [OF o dvd ph that] at by (auto simp: unmapped_for_def walk_pre_def mp_ok_def)
  have fs: "space_frames pm mem sp \<subseteq> fa_owned (mv_frame_allocator ?vs)" using al(2) by simp
  show thesis
  proof (rule mapv.space_visit [OF sp wf P(3) inv fs half dvd pre])
    fix r mem' vs'
    assume run: "table_visit A S D (map_visitor fa A pm S) (as_root_page_table sp) (range_nn s e) (mem, ?vs) = Some (r, (mem', vs'))"
      and wf': "wf_space pm mem' sp" and fr: "space_frames pm mem' sp \<subseteq> fa_owned (mv_frame_allocator vs')"
      and out: "\<And>x. canonical A x \<Longrightarrow> x \<notin> {s ..< e} \<Longrightarrow> lookup sp pm mem' (of_nat x) = lookup sp pm mem (of_nat x)"
      and res: "r = Inr () \<and> mp_inv fa_inv A pm S D at phys f s e vs' \<and> (\<forall>x. s \<le> x \<and> x < e \<longrightarrow>
         walk_done (mp_upd at phys s (round_down x ?d)) D (space_walk pm mem sp x) (space_walk pm mem' sp x)) \<or>
       (\<exists>err. r = Inl err) \<and> may_fail ?ok \<and> (\<exists>p. mp_inv fa_inv A pm S D at phys f s p vs') \<and> (\<forall>x. s \<le> x \<and> x < e \<longrightarrow>
         walk_done (mp_upd at phys s (round_down x ?d)) D (space_walk pm mem sp x) (space_walk pm mem' sp x) \<or>
         walk_keeps D (space_walk pm mem sp x) (space_walk pm mem' sp x))"
      and keeps: "\<And>x. canonical A x \<Longrightarrow> x \<notin> {s ..< e} \<Longrightarrow> walk_keeps D (space_walk pm mem sp x) (space_walk pm mem' sp x)"
    have fin: "lookup sp pm mem' (of_nat v) = Some (Some (of_nat (phys + (v - s)), at\<lparr>attr_KIND := Normal\<rparr>, LEVELS A ! D))"
      if v: "s \<le> v" "v < e"
        and w: "walk_done (mp_upd at phys s (round_down v ?d)) D (space_walk pm mem sp v) (space_walk pm mem' sp v)" for v
    proof -
      let ?en = "fst (space_walk pm mem sp v)" and ?q = "round_down v ?d"
      have ok: "?ok ?q ?en" using pre [OF v] by (simp add: walk_pre_def)
      note up = mp_upd_ok [OF ok]
      have "space_walk pm mem' sp v = (mp_upd at phys s ?q ?en, D)"
        using w up(2) by (auto simp: walk_done_def pte_is_leaf_def pte_is_vacant_def)
      then show ?thesis
        using lookup_walk [OF wf', of "of_nat v"] unat_of_nat_usize [OF in_half_less [OF half v(2)]]
          block_translation [OF o dvd(1) ph(1) v ph(2) up(2,3,4)] sp by simp
    qed
    have keep: "lookup sp pm mem' (of_nat v) = Some None"
      if v: "s \<le> v" "v < e" and w: "walk_keeps D (space_walk pm mem sp v) (space_walk pm mem' sp v)" for v
      by (rule vacant_lookup [OF wf' in_half_less [OF half v(2)]])
        (use free v w in \<open>auto simp: unmapped_for_def walk_keeps_def\<close>)
    have inv': "\<exists>p. mp_inv fa_inv A pm S D at phys f s p vs'" using res by blast
    show thesis
    proof (rule that [of r mem' "mv_frame_allocator vs'" "mv_flush vs'"])
      show "map_contiguous fa pm S sp (range_nn s e) (of_nat phys) at (mem, al, f) =
          Some (r, (mem', mv_frame_allocator vs', mv_flush vs'))"
        using run P(3) pages_range [OF half dvd] assert_aligned_ok [of S "of_nat phys"] ph(1) up sp
        by (simp add: map_contiguous_def)
      show "fa_inv (mv_frame_allocator vs')" using inv' by (auto simp: mp_inv_def)
      show "r = Inr () \<and> covers_from f s e (mv_flush vs') \<or>
          (\<exists>err. r = Inl err) \<and> (\<exists>p. covers_from f s p (mv_flush vs'))"
        using res by (auto simp: mp_inv_def)
      show "lookup sp pm mem' (of_nat v) = Some (Some (of_nat (phys + (v - s)), at\<lparr>attr_KIND := Normal\<rparr>, LEVELS A ! D)) \<or>
         (\<exists>err. r = Inl err) \<and> lookup sp pm mem' (of_nat v) = Some None" if "s \<le> v" "v < e" for v
        using res fin [OF that] keep [OF that] that by blast
    qed (use wf' fr out keeps in blast)+
  qed
qed

lemma address_space_new_ok:
  assumes "wf_arch A" "wf_physmap pm" "fa_inv al"
  obtains (err) err al' where "address_space_new fa A pm (mem, al) = Some (Inl err, (mem, al'))"
    "fa_inv al'" "fa_owned al' = fa_owned al"
  | (ok) sp mem' al' where "address_space_new fa A pm (mem, al) = Some (Inr sp, (mem', al'))"
    "as_arch sp = A" "wf_space pm mem' sp" "fa_inv al'" "space_frames pm mem' sp = {tb_base (as_root_page_table sp)}"
    "fa_owned al' = insert (tb_base (as_root_page_table sp)) (fa_owned al)" "tb_base (as_root_page_table sp) \<notin> fa_owned al"
    "\<And>v. lookup sp pm mem' v = Some None" "\<And>D s e. unmapped_for pm mem' sp D s e"
proof (cases rule: alloc_zeroed_granule [OF assms, of mem, case_names Err Ok])
  case (Err e s')
  then show thesis using err [of e s'] by (simp add: address_space_new_def table_allocate_def)
next
  case (Ok p mem' s')
  let ?sp = "\<lparr>as_arch = A, as_root_page_table = \<lparr>tb_base = p, tb_depth = 0\<rparr>\<rparr>"
  have L: "LEVELS A \<noteq> []" "sub_levels A (LEVELS A)"
    using wf_arch_levels(2) [OF assms(1)] sub_levels_drop [OF assms(1), of 0] by simp_all
  note z = pt_zero_table [OF L Ok(3,6)]
  have wf: "wf_space pm mem' ?sp" using assms(1,2) z(1) by (simp add: wf_space_def)
  have w: "space_walk pm mem' ?sp v = (0, 0)" for v using z(3) by (simp add: space_walk_def)
  have lk: "lookup ?sp pm mem' v = Some None" for v
    using lookup_walk [OF wf, of v] w by (simp add: translation_def)
  show thesis
    by (rule ok [of ?sp mem' s'])
      (use Ok wf w lk z(2) in \<open>simp_all add: address_space_new_def table_allocate_def act_ok_def
        space_frames_def unmapped_for_def\<close>)
qed

end

context granule_deallocator
begin

lemma unmap_ok:
  assumes wf: "wf_space pm mem sp" and sp: "A = as_arch sp" and o: "op_setup A pm S D" and half: "in_half A s e"
    and dvd: "unat (page_BYTES S) dvd s" "unat (page_BYTES S) dvd e"
    and f: "wf_flush f" and al: "fa_inv al" "space_frames pm mem sp \<subseteq> fa_owned al"
    and mapped: "mapped_at pm mem sp D s e"
  obtains mem' al' f' where
    "unmap fa pm S sp (range_nn s e) (mem, al, f) = Some (Inr (), (mem', al', f'))"
    "wf_space pm mem' sp" "fa_inv al'" "space_frames pm mem' sp \<subseteq> fa_owned al'"
    "\<And>v. canonical A v \<Longrightarrow> v \<notin> {s ..< e} \<Longrightarrow> lookup sp pm mem' (of_nat v) = lookup sp pm mem (of_nat v)"
    "\<And>v. s \<le> v \<Longrightarrow> v < e \<Longrightarrow> lookup sp pm mem' (of_nat v) = Some None"
    "unmapped_for pm mem' sp D s e" "covers_from f s e f'"
proof -
  note P = op_setupD [OF o]
  let ?vs = "\<lparr>uv_frame_allocator = al, uv_flush = f\<rparr>" and ?d = "unat (page_BYTES S)"
  have inv: "um_inv fa_inv A pm S D f s s ?vs"
    using o al(1) covers_from_refl [OF f] by (simp add: um_inv_def)
  have pre: "walk_pre (um_ok q) D (space_walk pm mem sp x)" if "s \<le> x" "x < e" for x q
    by (rule mapped_leaf [OF wf o [unfolded sp] half [unfolded sp] mapped that]) (simp add: walk_pre_def um_ok_def)
  have fs: "space_frames pm mem sp \<subseteq> fa_owned (uv_frame_allocator ?vs)" using al(2) by simp
  have nf: "\<not> may_fail um_ok" by (simp add: may_fail_def um_ok_def pte_is_leaf_def pte_is_vacant_def)
  show thesis
  proof (rule unmapv.space_visit [OF sp wf P(3) inv fs half dvd pre])
    fix r :: "AllocError + unit" and mem' vs'
    assume run: "table_visit A S D (unmap_visitor fa A pm S) (as_root_page_table sp) (range_nn s e) (mem, ?vs) = Some (r, (mem', vs'))"
      and wf': "wf_space pm mem' sp" and fr: "space_frames pm mem' sp \<subseteq> fa_owned (uv_frame_allocator vs')"
      and out: "\<And>x. canonical A x \<Longrightarrow> x \<notin> {s ..< e} \<Longrightarrow> lookup sp pm mem' (of_nat x) = lookup sp pm mem (of_nat x)"
      and res: "r = Inr () \<and> um_inv fa_inv A pm S D f s e vs' \<and> (\<forall>x. s \<le> x \<and> x < e \<longrightarrow>
         walk_done (um_upd (round_down x ?d)) D (space_walk pm mem sp x) (space_walk pm mem' sp x)) \<or>
       (\<exists>err. r = Inl err) \<and> may_fail um_ok \<and> (\<exists>p. um_inv fa_inv A pm S D f s p vs') \<and> (\<forall>x. s \<le> x \<and> x < e \<longrightarrow>
         walk_done (um_upd (round_down x ?d)) D (space_walk pm mem sp x) (space_walk pm mem' sp x) \<or>
         walk_keeps D (space_walk pm mem sp x) (space_walk pm mem' sp x))"
    have r: "r = Inr ()" and inv': "um_inv fa_inv A pm S D f s e vs'"
      and w: "\<And>x. s \<le> x \<Longrightarrow> x < e \<Longrightarrow>
        walk_done (um_upd (round_down x ?d)) D (space_walk pm mem sp x) (space_walk pm mem' sp x)"
      using res nf by blast+
    have vac: "pte_is_vacant (fst (space_walk pm mem' sp v)) \<and> snd (space_walk pm mem' sp v) \<le> D"
      if "s \<le> v" "v < e" for v
      using w [OF that] by (simp add: walk_done_def um_upd_def pte_VACANT_def)
    show thesis
    proof (rule that [of mem' "uv_frame_allocator vs'" "uv_flush vs'"])
      show "unmap fa pm S sp (range_nn s e) (mem, al, f) = Some (Inr (), (mem', uv_frame_allocator vs', uv_flush vs'))"
        using run r P(3) pages_range [OF half dvd] sp by (simp add: unmap_def)
      show "fa_inv (uv_frame_allocator vs')" "covers_from f s e (uv_flush vs')" using inv' by (simp_all add: um_inv_def)
      show "lookup sp pm mem' (of_nat v) = Some None" if "s \<le> v" "v < e" for v
        by (rule vacant_lookup [OF wf' in_half_less [OF half that(2)]]) (use vac [OF that] in simp)
      show "unmapped_for pm mem' sp D s e" using vac by (simp add: unmapped_for_def)
    qed (use wf' fr out in blast)+
  qed
qed

end

end
