(* ===== verification/Space_Blocks.thy ===== *)
theory Space_Blocks
  imports Space_Operations
begin

text \<open>
  The operations of \<^verbatim>\<open>lib/mem-mmu/src/address_space.rs\<close> that take several physical blocks: \<open>map\<close> and
  \<open>remap\<close> lay the blocks out one after the other, \<open>map_identity\<close> maps a block to its own addresses.
\<close>

section \<open>Blocks one after the other\<close>

fun blocks_len :: "addr_range list \<Rightarrow> nat" where
  "blocks_len [] = 0"
| "blocks_len (b # bs) = (unat (range_end b) - unat (range_start b)) + blocks_len bs"

text \<open>The physical address at an offset into the blocks.\<close>

fun block_at :: "addr_range list \<Rightarrow> nat \<Rightarrow> nat" where
  "block_at [] off = 0"
| "block_at (b # bs) off =
     (let n = unat (range_end b) - unat (range_start b)
      in if off < n then unat (range_start b) + off else block_at bs (off - n))"

lemma block_at_cons:
  "(\<lambda>off. if off < s + (unat (range_end b) - unat (range_start b)) - s then unat (range_start b) + off
     else block_at bs (off - (s + (unat (range_end b) - unat (range_start b)) - s))) = block_at (b # bs)"
  by (rule ext) simp

text \<open>A non-empty block of whole pages that entries can address.\<close>

definition block_pages :: "PageSize \<Rightarrow> addr_range \<Rightarrow> bool" where
  "block_pages S b \<longleftrightarrow> unat (range_start b) < unat (range_end b) \<and> unat (range_end b) \<le> 2 ^ 56 \<and>
     unat (page_BYTES S) dvd unat (range_start b) \<and> unat (page_BYTES S) dvd unat (range_end b)"

lemma word_of_nat_unat: "of_nat (unat (a :: usize)) = a"
  by simp

lemma covers_from_trans: "covers_from f s m f1 \<Longrightarrow> covers_from f1 m p f2 \<Longrightarrow> covers_from f s p f2"
proof -
  assume *: "covers_from f s m f1" "covers_from f1 m p f2"
  then have sp: "s \<le> m" "m \<le> p" by (simp_all add: covers_from_def)
  have "flush_covers f2 (ns \<union> {s ..< p})" if "flush_covers f ns" for ns
  proof -
    have "flush_covers f2 ((ns \<union> {s ..< m}) \<union> {m ..< p})" using * that by (simp only: covers_from_def)
    moreover have "(ns \<union> {s ..< m}) \<union> {m ..< p} = ns \<union> {s ..< p}" using sp by auto
    ultimately show ?thesis by metis
  qed
  then show ?thesis using * sp by (simp add: covers_from_def)
qed

lemma in_half_part: "in_half A s e \<Longrightarrow> s \<le> a \<Longrightarrow> a < b \<Longrightarrow> b \<le> e \<Longrightarrow> in_half A a b"
  by (auto simp: in_half_def)

text \<open>The step of both loops: the next block gives the next piece of the virtual range.\<close>

lemma blocks_step:
  assumes "s < e" "e < 2 ^ 64" "n = unat (range_end b) - unat (range_start b)" "s + n \<le> e"
  shows "(do {
      debug_assert (\<not> range_is_empty (range_nn s e));
      n \<leftarrow> range_len b;
      r \<leftarrow> range_from_start_len (range_start (range_nn s e)) n;
      start' \<leftarrow> addr_add (range_start (range_nn s e)) n;
      Some (r, start')
    }) = Some (range_nn s (s + n), of_nat (s + n))"
    "(range_nn s e)\<lparr>range_start := of_nat (s + n)\<rparr> = range_nn (s + n) e"
proof -
  obtain l where l: "range_len b = Some l" "unat l = n" using range_len_Some range_len_nat assms(3) by metis
  have u: "unat (of_nat s :: usize) = s" "unat (of_nat e :: usize) = e" "unat (of_nat (s + n) :: usize) = s + n"
    using assms by (intro unat_of_nat_usize; linarith)+
  have "\<not> range_is_empty (range_nn s e)"
    using u assms(1) by (simp add: range_is_empty_nat range_nat_def range_of_def del: of_nat_add)
  moreover have "range_from_start_len (range_start (range_nn s e)) l = Some (range_nn s (s + n))"
    unfolding range_from_start_len_eq_Some using u l(2) assms by (simp add: range_of_def del: of_nat_add)
  moreover have "addr_add (range_start (range_nn s e)) l = Some (of_nat (s + n))"
    unfolding addr_add_eq_Some using u l(2) assms by (simp add: range_of_def del: of_nat_add)
  ultimately show "(do {
      debug_assert (\<not> range_is_empty (range_nn s e));
      n \<leftarrow> range_len b;
      r \<leftarrow> range_from_start_len (range_start (range_nn s e)) n;
      start' \<leftarrow> addr_add (range_start (range_nn s e)) n;
      Some (r, start')
    }) = Some (range_nn s (s + n), of_nat (s + n))"
    using l(1) by (simp del: of_nat_add)
  show "(range_nn s e)\<lparr>range_start := of_nat (s + n)\<rparr> = range_nn (s + n) e"
    by (simp add: range_of_def)
qed

text \<open>The first block and the rest, as ranges of pages.\<close>

lemma blocks_cons:
  assumes "\<forall>c \<in> set (b # bs). block_pages S c" "in_half A s (s + blocks_len (b # bs))" "unat (page_BYTES S) dvd s"
    "n = unat (range_end b) - unat (range_start b)"
  shows "0 < n" "unat (range_start b) + n \<le> 2 ^ 56" "unat (page_BYTES S) dvd unat (range_start b)"
    "in_half A s (s + n)" "bs \<noteq> [] \<Longrightarrow> in_half A (s + n) (s + blocks_len (b # bs))" "unat (page_BYTES S) dvd s + n"
proof -
  show b: "0 < n" "unat (range_start b) + n \<le> 2 ^ 56" "unat (page_BYTES S) dvd unat (range_start b)"
    using assms(1,4) by (auto simp: block_pages_def)
  have "unat (page_BYTES S) dvd n" using assms(1,4) by (auto simp: block_pages_def intro: dvd_diff_nat)
  then show "unat (page_BYTES S) dvd s + n" using assms(3) by (intro dvd_add)
  show "in_half A s (s + n)" by (rule in_half_part [OF assms(2)]) (use b assms(4) in simp_all)
  show "in_half A (s + n) (s + blocks_len (b # bs))" if "bs \<noteq> []"
  proof (rule in_half_part [OF assms(2)])
    have "0 < blocks_len bs" using that assms(1) by (cases bs) (auto simp: block_pages_def)
    then show "s + n < s + blocks_len (b # bs)" using assms(4) by simp
  qed simp_all
qed

section \<open>\<open>map\<close>\<close>

text \<open>What mapping a range to physical addresses leaves: every address mapped, or on an error mapped or still unmapped.\<close>

definition mapped_to ::
  "PhysMap \<Rightarrow> HardwareAddressSpace \<Rightarrow> nat \<Rightarrow> MemoryAttributes \<Rightarrow> (nat \<Rightarrow> nat) \<Rightarrow> nat \<Rightarrow> nat \<Rightarrow> mem \<Rightarrow> mem \<Rightarrow>
     AllocError + unit \<Rightarrow> bool" where
  "mapped_to pm sp D at phys s e mem mem' r \<longleftrightarrow>
     (\<forall>v. canonical (as_arch sp) v \<and> v \<notin> {s ..< e} \<longrightarrow> lookup sp pm mem' (of_nat v) = lookup sp pm mem (of_nat v)) \<and>
     (\<forall>v. s \<le> v \<and> v < e \<longrightarrow>
        lookup sp pm mem' (of_nat v) =
          Some (Some (of_nat (phys (v - s)), at\<lparr>attr_KIND := Normal\<rparr>, LEVELS (as_arch sp) ! D)) \<or>
        (\<exists>err. r = Inl err) \<and> lookup sp pm mem' (of_nat v) = Some None)"

lemma mapped_to_append:
  assumes "mapped_to pm sp D at p s m mem mem1 (Inr ())" "mapped_to pm sp D at q m e mem1 mem2 r" "wf_arch (as_arch sp)"
    "in_half (as_arch sp) s m" "in_half (as_arch sp) m e \<or> e = m"
  shows "mapped_to pm sp D at (\<lambda>off. if off < m - s then p off else q (off - (m - s))) s e mem mem2 r"
proof -
  have "s < m" using assms(4) by (simp add: in_half_def)
  moreover have "m \<le> e" using assms(5) by (auto simp: in_half_def)
  moreover have "canonical (as_arch sp) v" if "s \<le> v" "v < m" for v
    using in_half_bounds(1) [OF assms(3,4) that] .
  ultimately show ?thesis
    using assms(1,2) unfolding mapped_to_def by (auto simp: not_less)
qed

context granule_allocator
begin

lemma map_contiguous_mapped_to:
  assumes wf: "wf_space pm mem sp" and sp: "A = as_arch sp" and o: "op_setup A pm S D" and half: "in_half A s e"
    and dvd: "unat (page_BYTES S) dvd s" "unat (page_BYTES S) dvd e"
    and ph: "unat (page_BYTES S) dvd phys" "phys + (e - s) \<le> 2 ^ 56" and at: "allows_access at"
    and f: "wf_flush f" and al: "fa_inv al" "space_frames pm mem sp \<subseteq> fa_owned al"
    and free: "unmapped_for pm mem sp D s e"
  shows "\<exists>r mem' al' f'. map_contiguous fa pm S sp (range_nn s e) (of_nat phys) at (mem, al, f) = Some (r, (mem', al', f')) \<and>
    wf_space pm mem' sp \<and> fa_inv al' \<and> space_frames pm mem' sp \<subseteq> fa_owned al' \<and>
    mapped_to pm sp D at (\<lambda>off. phys + off) s e mem mem' r \<and>
    (r = Inr () \<and> covers_from f s e f' \<or> (\<exists>err. r = Inl err) \<and> (\<exists>p. covers_from f s p f')) \<and>
    (\<forall>v. canonical A v \<and> v \<notin> {s ..< e} \<longrightarrow> walk_keeps D (space_walk pm mem sp v) (space_walk pm mem' sp v))"
proof (rule map_contiguous_ok [OF assms], goal_cases)
  case (1 r mem' al' f')
  have "mapped_to pm sp D at (\<lambda>off. phys + off) s e mem mem' r"
    unfolding mapped_to_def sp [symmetric]
  proof (intro conjI allI impI, goal_cases)
    case (1 v)
    then show ?case using \<open>\<And>v. canonical A v \<Longrightarrow> v \<notin> {s ..< e} \<Longrightarrow> lookup sp pm mem' (of_nat v) = lookup sp pm mem (of_nat v)\<close> by simp
  next
    case (2 v)
    then show ?case using 1(6) by simp
  qed
  moreover have "\<forall>v. canonical A v \<and> v \<notin> {s ..< e} \<longrightarrow> walk_keeps D (space_walk pm mem sp v) (space_walk pm mem' sp v)"
    using 1(8) by simp
  ultimately show ?case
    using 1(1-4,7) by (intro exI [of _ r] exI [of _ mem'] exI [of _ al'] exI [of _ f'] conjI)
qed

lemma map_blocks_ok:
  assumes sp: "A = as_arch sp" and o: "op_setup A pm S D" and at: "allows_access at"
    and bs: "\<forall>b \<in> set bs. block_pages S b" and wf: "wf_space pm mem sp" and half: "bs \<noteq> [] \<Longrightarrow> in_half A s (s + blocks_len bs)"
    and e: "s + blocks_len bs \<le> e" "e < 2 ^ 64" and dvd: "unat (page_BYTES S) dvd s"
    and f: "wf_flush f" and al: "fa_inv al" "space_frames pm mem sp \<subseteq> fa_owned al"
    and free: "unmapped_for pm mem sp D s (s + blocks_len bs)"
  shows "\<exists>r mem' al' f'. map_blocks fa pm S sp (range_nn s e) bs at (mem, al, f) = Some (r, (mem', al', f')) \<and>
    wf_space pm mem' sp \<and> fa_inv al' \<and> space_frames pm mem' sp \<subseteq> fa_owned al' \<and>
    mapped_to pm sp D at (block_at bs) s (s + blocks_len bs) mem mem' r \<and>
    (r = Inr () \<and> covers_from f s (s + blocks_len bs) f' \<or> (\<exists>err. r = Inl err) \<and> (\<exists>p. covers_from f s p f'))"
  using bs wf half e dvd f al free
proof (induction bs arbitrary: mem al f s)
  case Nil
  then show ?case
    by (intro exI [of _ "Inr ()"] exI [of _ mem] exI [of _ al] exI [of _ f])
      (auto simp: act_ok_def mapped_to_def covers_from_refl)
next
  case (Cons b bs)
  let ?n = "unat (range_end b) - unat (range_start b)" and ?E = "s + blocks_len (b # bs)"
  let ?m = "s + ?n"
  have A: "wf_arch A" using o by (simp add: op_setup_def)
  have E: "?m \<le> ?E" "?E = ?m + blocks_len bs" by simp_all
  have halfE: "in_half A s ?E" using Cons.prems(3) by simp
  note first = blocks_cons [OF Cons.prems(1) halfE Cons.prems(6) refl]
  note b = first(1-3) and half1 = first(4) and half2 = first(5) and d1 = first(6)
  have free1: "unmapped_for pm mem sp D s ?m" using Cons.prems(10) E(1) by (auto simp: unmapped_for_def)
  have "\<exists>r mem' al' f'. map_contiguous fa pm S sp (range_nn s ?m) (of_nat (unat (range_start b))) at (mem, al, f) = Some (r, (mem', al', f')) \<and>
    wf_space pm mem' sp \<and> fa_inv al' \<and> space_frames pm mem' sp \<subseteq> fa_owned al' \<and>
    mapped_to pm sp D at (\<lambda>off. unat (range_start b) + off) s ?m mem mem' r \<and>
    (r = Inr () \<and> covers_from f s ?m f' \<or> (\<exists>err. r = Inl err) \<and> (\<exists>p. covers_from f s p f')) \<and>
    (\<forall>v. canonical A v \<and> v \<notin> {s ..< ?m} \<longrightarrow> walk_keeps D (space_walk pm mem sp v) (space_walk pm mem' sp v))"
    by (rule map_contiguous_mapped_to [OF Cons.prems(2) sp o half1 Cons.prems(6) d1 b(3) _ at Cons.prems(7-9) free1])
      (use b(2) in simp)
  then obtain r mem1 al1 f1 where
    one: "map_contiguous fa pm S sp (range_nn s ?m) (range_start b) at (mem, al, f) = Some (r, (mem1, al1, f1))"
      "wf_space pm mem1 sp" "fa_inv al1" "space_frames pm mem1 sp \<subseteq> fa_owned al1"
      "mapped_to pm sp D at (\<lambda>off. unat (range_start b) + off) s ?m mem mem1 r"
      "r = Inr () \<and> covers_from f s ?m f1 \<or> (\<exists>err. r = Inl err) \<and> (\<exists>p. covers_from f s p f1)"
      "\<forall>v. canonical A v \<and> v \<notin> {s ..< ?m} \<longrightarrow> walk_keeps D (space_walk pm mem sp v) (space_walk pm mem1 sp v)"
    unfolding word_of_nat_unat by blast
  have keep: "pte_is_vacant (fst (space_walk pm mem1 sp v)) \<and> snd (space_walk pm mem1 sp v) \<le> D" if v: "?m \<le> v" "v < ?E" for v
  proof -
    have "canonical A v" using in_half_bounds(1) [OF A halfE _ v(2)] v(1) by simp
    then have "walk_keeps D (space_walk pm mem sp v) (space_walk pm mem1 sp v)" using one(7) v(1) by simp
    moreover have "pte_is_vacant (fst (space_walk pm mem sp v))" "snd (space_walk pm mem sp v) \<le> D"
      using Cons.prems(10) v by (simp_all add: unmapped_for_def)
    ultimately show ?thesis by (auto simp: walk_keeps_def)
  qed
  have se: "s < e" using halfE Cons.prems(4) unfolding in_half_def by linarith
  note step = blocks_step [OF se Cons.prems(5) refl, of b]
  have run: "map_blocks fa pm S sp (range_nn s e) (b # bs) at (mem, al, f) =
    act_bind (map_contiguous fa pm S sp (range_nn s ?m) (range_start b) at)
      (\<lambda>_. map_blocks fa pm S sp (range_nn ?m e) bs at) (mem, al, f)"
    using step Cons.prems(4) E(1) by (simp del: of_nat_add)
  show ?case
  proof (cases r)
    case (Inl err)
    have none: "lookup sp pm mem1 (of_nat v) = Some None" if v: "?m \<le> v" "v < ?E" for v
      by (rule vacant_lookup [OF one(2) in_half_less [OF halfE v(2)]]) (use keep [OF v] in blast)
    have "mapped_to pm sp D at (block_at (b # bs)) s ?E mem mem1 r"
      using one(5) none Inl E(1) unfolding mapped_to_def by (auto simp: not_less)
    moreover have "map_blocks fa pm S sp (range_nn s e) (b # bs) at (mem, al, f) = Some (r, (mem1, al1, f1))"
      unfolding run using one(1) Inl by simp
    moreover have "(\<exists>err. r = Inl err) \<and> (\<exists>p. covers_from f s p f1)" using one(6) Inl by simp
    ultimately show ?thesis using one(2-4) by blast
  next
    case (Inr u)
    have c1: "covers_from f s ?m f1" using one(6) Inr by simp
    have "\<exists>r mem' al' f'. map_blocks fa pm S sp (range_nn ?m e) bs at (mem1, al1, f1) = Some (r, (mem', al', f')) \<and>
      wf_space pm mem' sp \<and> fa_inv al' \<and> space_frames pm mem' sp \<subseteq> fa_owned al' \<and>
      mapped_to pm sp D at (block_at bs) ?m (?m + blocks_len bs) mem1 mem' r \<and>
      (r = Inr () \<and> covers_from f1 ?m (?m + blocks_len bs) f' \<or> (\<exists>err. r = Inl err) \<and> (\<exists>p. covers_from f1 ?m p f'))"
    proof (rule Cons.IH [OF _ one(2) _ _ Cons.prems(5) d1 _ one(3,4)])
      show "\<forall>b \<in> set bs. block_pages S b" using Cons.prems(1) by simp
      show "in_half A ?m (?m + blocks_len bs)" if "bs \<noteq> []" using half2 [OF that] unfolding E(2) .
      show "?m + blocks_len bs \<le> e" using Cons.prems(4) by simp
      show "wf_flush f1" using c1 by (simp add: covers_from_def)
      show "unmapped_for pm mem1 sp D ?m (?m + blocks_len bs)" using keep by (simp add: unmapped_for_def add.assoc)
    qed
    then obtain r2 mem2 al2 f2 where two: "map_blocks fa pm S sp (range_nn ?m e) bs at (mem1, al1, f1) = Some (r2, (mem2, al2, f2))"
      "wf_space pm mem2 sp" "fa_inv al2" "space_frames pm mem2 sp \<subseteq> fa_owned al2"
      "mapped_to pm sp D at (block_at bs) ?m ?E mem1 mem2 r2"
      "r2 = Inr () \<and> covers_from f1 ?m ?E f2 \<or> (\<exists>err. r2 = Inl err) \<and> (\<exists>p. covers_from f1 ?m p f2)"
      unfolding E(2) by blast
    have one5: "mapped_to pm sp D at (\<lambda>off. unat (range_start b) + off) s ?m mem mem1 (Inr ())" using one(5) Inr by simp
    have e': "in_half A ?m ?E \<or> ?E = ?m"
    proof (cases "bs = []")
      case False
      then show ?thesis using half2 by blast
    qed simp
    have "mapped_to pm sp D at (\<lambda>off. if off < ?m - s then unat (range_start b) + off else block_at bs (off - (?m - s))) s ?E mem mem2 r2"
      by (rule mapped_to_append [OF one5 two(5), folded sp, OF A half1 e'])
    then have "mapped_to pm sp D at (block_at (b # bs)) s ?E mem mem2 r2" unfolding block_at_cons .
    moreover have "r2 = Inr () \<and> covers_from f s ?E f2 \<or> (\<exists>err. r2 = Inl err) \<and> (\<exists>p. covers_from f s p f2)"
      using two(6) covers_from_trans [OF c1] by blast
    moreover have "map_blocks fa pm S sp (range_nn s e) (b # bs) at (mem, al, f) = Some (r2, (mem2, al2, f2))"
      unfolding run using one(1) Inr two(1) by simp
    ultimately show ?thesis using two(2-4) by blast
  qed
qed

end

section \<open>\<open>remap\<close>\<close>

text \<open>What remapping leaves: new physical addresses under the old attributes, nothing else changed.\<close>

definition remapped_to ::
  "PhysMap \<Rightarrow> HardwareAddressSpace \<Rightarrow> (nat \<Rightarrow> nat) \<Rightarrow> nat \<Rightarrow> nat \<Rightarrow> mem \<Rightarrow> mem \<Rightarrow> bool" where
  "remapped_to pm sp phys s e mem mem' \<longleftrightarrow>
     (\<forall>v. canonical (as_arch sp) v \<and> v \<notin> {s ..< e} \<longrightarrow> lookup sp pm mem' (of_nat v) = lookup sp pm mem (of_nat v)) \<and>
     (\<forall>v p a lv. s \<le> v \<and> v < e \<and> lookup sp pm mem (of_nat v) = Some (Some (p, a, lv)) \<longrightarrow>
        lookup sp pm mem' (of_nat v) = Some (Some (of_nat (phys (v - s)), a, lv)))"

lemma remapped_toD:
  assumes "remapped_to pm sp phys s e mem mem'"
  shows "canonical (as_arch sp) v \<Longrightarrow> v \<notin> {s ..< e} \<Longrightarrow> lookup sp pm mem' (of_nat v) = lookup sp pm mem (of_nat v)"
    "s \<le> v \<Longrightarrow> v < e \<Longrightarrow> lookup sp pm mem (of_nat v) = Some (Some (p, a, lv)) \<Longrightarrow>
       lookup sp pm mem' (of_nat v) = Some (Some (of_nat (phys (v - s)), a, lv))"
  using assms [unfolded remapped_to_def, THEN conjunct1, rule_format, of v]
    assms [unfolded remapped_to_def, THEN conjunct2, rule_format, of v p a lv] by simp_all

lemma remapped_to_append:
  assumes one: "remapped_to pm sp p s m mem mem1" and two: "remapped_to pm sp q m e mem1 mem2" and A: "wf_arch (as_arch sp)"
    and half: "in_half (as_arch sp) s e" and m: "s < m" "m \<le> e"
  shows "remapped_to pm sp (\<lambda>off. if off < m - s then p off else q (off - (m - s))) s e mem mem2"
  unfolding remapped_to_def
proof (intro conjI allI impI, goal_cases)
  case (1 v)
  then have "v \<notin> {s ..< m}" "v \<notin> {m ..< e}" using m by auto
  then show ?case using remapped_toD(1) [OF one] remapped_toD(1) [OF two] 1 by presburger
next
  case (2 v p' a lv)
  then have v: "s \<le> v" "v < e" "lookup sp pm mem (of_nat v) = Some (Some (p', a, lv))" by blast+
  have c: "canonical (as_arch sp) v" by (rule in_half_bounds(1) [OF A half v(1,2)])
  show ?case
  proof (cases "v < m")
    case True
    then have "v \<notin> {m ..< e}" "v - s < m - s" using v(1) by auto
    then show ?thesis
      using remapped_toD(2) [OF one v(1) True v(3)] remapped_toD(1) [OF two c] by presburger
  next
    case False
    then have "v \<notin> {s ..< m}" "m \<le> v" "\<not> v - s < m - s" "v - s - (m - s) = v - m" using m by auto
    then show ?thesis
      using remapped_toD(2) [OF two _ v(2)] remapped_toD(1) [OF one c] v(3) by presburger
  qed
qed

lemma remap_contiguous_remapped_to:
  assumes wf: "wf_space pm mem sp" and o: "op_setup (as_arch sp) pm S D" and half: "in_half (as_arch sp) s e"
    and dvd: "unat (page_BYTES S) dvd s" "unat (page_BYTES S) dvd e"
    and ph: "unat (page_BYTES S) dvd phys" "phys + (e - s) \<le> 2 ^ 56"
    and f: "wf_flush f" and mapped: "mapped_at pm mem sp D s e"
  shows "\<exists>mem' f'. remap_contiguous pm S sp (range_nn s e) (of_nat phys) (mem, f) = Some (Inr (), (mem', f')) \<and>
    wf_space pm mem' sp \<and> space_frames pm mem' sp \<subseteq> space_frames pm mem sp \<and>
    remapped_to pm sp (\<lambda>off. phys + off) s e mem mem' \<and> covers_from f s e f'"
proof (rule remap_contiguous_ok [OF assms], goal_cases)
  case (1 mem' f')
  have "remapped_to pm sp (\<lambda>off. phys + off) s e mem mem'" unfolding remapped_to_def using 1(4,5) by blast
  then show ?case using 1(1-3,6) by blast
qed

lemma remap_blocks_ok:
  assumes o: "op_setup (as_arch sp) pm S D" and bs: "\<forall>b \<in> set bs. block_pages S b"
    and wf: "wf_space pm mem sp" and half: "bs \<noteq> [] \<Longrightarrow> in_half (as_arch sp) s (s + blocks_len bs)"
    and e: "s + blocks_len bs \<le> e" "e < 2 ^ 64" and dvd: "unat (page_BYTES S) dvd s"
    and f: "wf_flush f" and mapped: "mapped_at pm mem sp D s (s + blocks_len bs)"
  shows "\<exists>mem' f'. remap_blocks pm S sp (range_nn s e) bs (mem, f) = Some (Inr (), (mem', f')) \<and>
    wf_space pm mem' sp \<and> space_frames pm mem' sp \<subseteq> space_frames pm mem sp \<and>
    remapped_to pm sp (block_at bs) s (s + blocks_len bs) mem mem' \<and> covers_from f s (s + blocks_len bs) f'"
  using bs wf half e dvd f mapped
proof (induction bs arbitrary: mem f s)
  case Nil
  have "remapped_to pm sp (\<lambda>_. 0) s s mem mem" by (auto simp: remapped_to_def)
  then show ?case
    using Nil(2) covers_from_refl [OF Nil(7)] by (intro exI [of _ mem] exI [of _ f]) (simp add: act_ok_def)
next
  case (Cons b bs)
  let ?n = "unat (range_end b) - unat (range_start b)" and ?E = "s + blocks_len (b # bs)"
  let ?m = "s + ?n"
  have A: "wf_arch (as_arch sp)" using o by (simp add: op_setup_def)
  have E: "?m \<le> ?E" "?E = ?m + blocks_len bs" by simp_all
  have halfE: "in_half (as_arch sp) s ?E" using Cons.prems(3) by simp
  note first = blocks_cons [OF Cons.prems(1) halfE Cons.prems(6) refl]
  note b = first(1-3) and half1 = first(4) and half2 = first(5) and d1 = first(6)
  have m1: "mapped_at pm mem sp D s ?m" using Cons.prems(8) E(1) by (auto simp: mapped_at_def)
  have "\<exists>mem' f'. remap_contiguous pm S sp (range_nn s ?m) (of_nat (unat (range_start b))) (mem, f) = Some (Inr (), (mem', f')) \<and>
    wf_space pm mem' sp \<and> space_frames pm mem' sp \<subseteq> space_frames pm mem sp \<and>
    remapped_to pm sp (\<lambda>off. unat (range_start b) + off) s ?m mem mem' \<and> covers_from f s ?m f'"
    by (rule remap_contiguous_remapped_to [OF Cons.prems(2) o half1 Cons.prems(6) d1 b(3) _ Cons.prems(7) m1])
      (use b(2) in simp)
  then obtain mem1 f1 where
    one: "remap_contiguous pm S sp (range_nn s ?m) (range_start b) (mem, f) = Some (Inr (), (mem1, f1))"
      "wf_space pm mem1 sp" "space_frames pm mem1 sp \<subseteq> space_frames pm mem sp"
      "remapped_to pm sp (\<lambda>off. unat (range_start b) + off) s ?m mem mem1" "covers_from f s ?m f1"
    unfolding word_of_nat_unat by blast
  have "lookup sp pm mem1 (of_nat v) = lookup sp pm mem (of_nat v)" if v: "?m \<le> v" "v < ?E" for v
    using one(4) v in_half_bounds(1) [OF A halfE _ v(2)] by (simp add: remapped_to_def)
  then have m2: "mapped_at pm mem1 sp D ?m (?m + blocks_len bs)"
    using Cons.prems(8) by (simp add: mapped_at_def add.assoc)
  have f1: "wf_flush f1" using one(5) by (simp add: covers_from_def)
  have "\<exists>mem' f'. remap_blocks pm S sp (range_nn ?m e) bs (mem1, f1) = Some (Inr (), (mem', f')) \<and>
    wf_space pm mem' sp \<and> space_frames pm mem' sp \<subseteq> space_frames pm mem1 sp \<and>
    remapped_to pm sp (block_at bs) ?m (?m + blocks_len bs) mem1 mem' \<and> covers_from f1 ?m (?m + blocks_len bs) f'"
    by (rule Cons.IH [OF _ one(2) _ _ Cons.prems(5) d1 f1 m2]) (use Cons.prems(1,4) half2 in \<open>simp_all add: add.assoc\<close>)
  then obtain mem2 f2 where two: "remap_blocks pm S sp (range_nn ?m e) bs (mem1, f1) = Some (Inr (), (mem2, f2))"
    "wf_space pm mem2 sp" "space_frames pm mem2 sp \<subseteq> space_frames pm mem1 sp"
    "remapped_to pm sp (block_at bs) ?m ?E mem1 mem2" "covers_from f1 ?m ?E f2"
    unfolding E(2) by blast
  have se: "s < e" using halfE Cons.prems(4) unfolding in_half_def by linarith
  have "remap_blocks pm S sp (range_nn s e) (b # bs) (mem, f) = Some (Inr (), (mem2, f2))"
    using blocks_step [OF se Cons.prems(5) refl, of b] Cons.prems(4) one(1) two(1) by (simp del: of_nat_add)
  moreover have "remapped_to pm sp (\<lambda>off. if off < ?m - s then unat (range_start b) + off else block_at bs (off - (?m - s))) s ?E mem mem2"
    using b(1) by (intro remapped_to_append [OF one(4) two(4) A halfE]) simp_all
  then have "remapped_to pm sp (block_at (b # bs)) s ?E mem mem2" unfolding block_at_cons .
  ultimately show ?case
    using two(2,3) one(3) covers_from_trans [OF one(5) two(5)] by blast
qed

end
