(* ===== verification/Bump_Allocator.thy ===== *)
theory Bump_Allocator
  imports Frame_Allocator
begin

text \<open>
  \<^verbatim>\<open>sys/loader-flat/src/frame_alloc.rs\<close>: the bump allocator the loader takes physical memory from, with
  the memory regions of \<^verbatim>\<open>sys/loader-api/src/info.rs\<close>. The lock has no effect on one caller, so the
  guarded state is passed explicitly; the bounded vectors are lists whose length the operations
  check against the capacity \<open>MAX_REGIONS\<close>.
\<close>

section \<open>Memory regions\<close>

datatype MemoryRegionKind = Unusable | Usable | LoaderReclaimable | FirmwareTableReclaimable

definition kind_is_usable :: "MemoryRegionKind \<Rightarrow> bool" where
  "kind_is_usable k = (case k of Usable \<Rightarrow> True | _ \<Rightarrow> False)"

record MemoryRegion =
  mr_range :: addr_range
  mr_kind :: MemoryRegionKind

section \<open>Arenas\<close>

definition round_up_to :: "usize \<Rightarrow> usize \<Rightarrow> usize option option" where
  "round_up_to n divisor =
     do {
       debug_assert (divisor > 0);
       debug_assert (is_power_of_two divisor);
       Some (if unat n + unat (divisor - 1) < 2 ^ 64
             then Some ((n + (divisor - 1)) AND NOT (divisor - 1)) else None)
     }"

definition round_up_to_unchecked :: "usize \<Rightarrow> usize \<Rightarrow> usize option" where
  "round_up_to_unchecked n divisor =
     do {
       r \<leftarrow> round_up_to n divisor;
       (case r of Some x \<Rightarrow> Some x | None \<Rightarrow> None)
     }"

record Arena =
  ar_region :: MemoryRegion
  ar_ptr :: paddr

definition arena_capacity :: "Arena \<Rightarrow> usize option" where
  "arena_capacity a = addr_offset_from_unsigned (ar_ptr a) (range_start (mr_range (ar_region a)))"

definition arena_has_capacity :: "Arena \<Rightarrow> bool option" where
  "arena_has_capacity a = do { c \<leftarrow> arena_capacity a; Some (c > 0) }"

definition arena_usage :: "Arena \<Rightarrow> usize option" where
  "arena_usage a = addr_offset_from_unsigned (range_end (mr_range (ar_region a))) (ar_ptr a)"

definition arena_used :: "Arena \<Rightarrow> addr_range" where
  "arena_used a = range_of (ar_ptr a) (range_end (mr_range (ar_region a)))"

definition arena_free :: "Arena \<Rightarrow> addr_range" where
  "arena_free a = range_of (range_start (mr_range (ar_region a))) (ar_ptr a)"

definition deallocate_if_last :: "addr_range \<Rightarrow> Arena \<Rightarrow> bool \<times> Arena" where
  "deallocate_if_last block a =
     (if ar_ptr a = range_start block then (True, a\<lparr>ar_ptr := range_end block\<rparr>) else (False, a))"

text \<open>The new bump pointer: the three branches of the comparison of the alignments.\<close>

definition arena_aligned_ptr :: "usize \<Rightarrow> Layout \<Rightarrow> Arena \<Rightarrow> paddr option option" where
  "arena_aligned_ptr min_align layout a =
     (if layout_align layout < min_align then do {
        r \<leftarrow> round_up_to (layout_size layout) min_align;
        (case r of
           None \<Rightarrow> Some None
         | Some aligned_size \<Rightarrow> do {
             c \<leftarrow> arena_capacity a;
             if c < aligned_size then Some None
             else Some (Some (addr_wrapping_sub (ar_ptr a) aligned_size))
           })
      } else if layout_align layout = min_align then do {
        aligned_size \<leftarrow> round_up_to_unchecked (layout_size layout) (layout_align layout);
        c \<leftarrow> arena_capacity a;
        if c < aligned_size then Some None
        else Some (Some (addr_wrapping_sub (ar_ptr a) aligned_size))
      } else do {
        aligned_size \<leftarrow> round_up_to_unchecked (layout_size layout) (layout_align layout);
        aligned_ptr \<leftarrow> addr_align_down (ar_ptr a) (layout_align layout);
        c \<leftarrow> addr_offset_from_unsigned aligned_ptr (range_start (mr_range (ar_region a)));
        if aligned_ptr < range_start (mr_range (ar_region a)) \<or> c < aligned_size then Some None
        else Some (Some (addr_wrapping_sub aligned_ptr aligned_size))
      })"

definition arena_allocate :: "usize \<Rightarrow> Layout \<Rightarrow> Arena \<Rightarrow> (paddr option \<times> Arena) option" where
  "arena_allocate min_align layout a =
     (if \<not> kind_is_usable (mr_kind (ar_region a)) then Some (None, a)
      else do {
        ok \<leftarrow> addr_is_aligned_to (ar_ptr a) min_align;
        debug_assert ok;
        r \<leftarrow> arena_aligned_ptr min_align layout a;
        (case r of
           None \<Rightarrow> Some (None, a)
         | Some aligned_ptr \<Rightarrow> do {
             ok1 \<leftarrow> addr_is_aligned_to aligned_ptr (layout_align layout);
             debug_assert ok1;
             ok2 \<leftarrow> addr_is_aligned_to aligned_ptr min_align;
             debug_assert ok2;
             debug_assert (range_contains (mr_range (ar_region a)) aligned_ptr);
             Some (Some aligned_ptr, a\<lparr>ar_ptr := aligned_ptr\<rparr>)
           })
      })"

section \<open>The allocator\<close>

abbreviation (input) DEFAULT_MAX_REGIONS :: nat where "DEFAULT_MAX_REGIONS \<equiv> 16"

record BumpAllocator =
  ba_arenas :: "Arena list"
  ba_current_arena_hint :: nat
  ba_min_align :: usize

text \<open>
  The check of neighbouring regions, and the loop that builds the arenas and finds the largest. The source sorts with
  \<open>sort_unstable_by_key\<close> and the model with the stable \<open>sort_key\<close>: the results differ only in the order of
  regions with the same start, of which two that are not empty overlap and make the constructor panic in either order.
\<close>

fun regions_disjoint :: "MemoryRegion list \<Rightarrow> bool" where
  "regions_disjoint (cur # nxt # rs) \<longleftrightarrow>
     \<not> range_overlaps (mr_range cur) (mr_range nxt) \<and> regions_disjoint (nxt # rs)"
| "regions_disjoint _ \<longleftrightarrow> True"

fun bump_arenas ::
  "arch \<Rightarrow> nat \<Rightarrow> MemoryRegion list \<Rightarrow> nat \<Rightarrow> usize \<Rightarrow> (Arena list \<times> nat) option" where
  "bump_arenas A i [] largest_idx largest_size = Some ([], largest_idx)"
| "bump_arenas A i (region # regions) largest_idx largest_size =
     do {
       range \<leftarrow> range_align_in (mr_range region) (GRANULE_SIZE A);
       n \<leftarrow> range_len range;
       let (idx, sz) = (if n > largest_size then (i, n) else (largest_idx, largest_size));
       (arenas, hint) \<leftarrow> bump_arenas A (Suc i) regions idx sz;
       Some (\<lparr>ar_region = region\<lparr>mr_range := range\<rparr>, ar_ptr = range_end range\<rparr> # arenas, hint)
     }"

definition bump_new :: "arch \<Rightarrow> nat \<Rightarrow> MemoryRegion list \<Rightarrow> BumpAllocator option" where
  "bump_new A MAX_REGIONS regions =
     do {
       let regions' = (if length regions > 1 then sort_key (\<lambda>r. range_start (mr_range r)) regions else regions);
       debug_assert (length regions > 1 \<longrightarrow> regions_disjoint regions');
       (arenas, hint) \<leftarrow> bump_arenas A 0 regions' 0 0;
       debug_assert (length arenas \<le> MAX_REGIONS);
       debug_assert (GRANULE_SIZE A \<noteq> 0);
       Some \<lparr>ba_arenas = arenas, ba_current_arena_hint = hint, ba_min_align = GRANULE_SIZE A\<rparr>
     }"

text \<open>Collecting into \<open>MemoryRegions\<close>, a vector of capacity 128, panics when it overflows.\<close>

definition bump_free_regions :: "BumpAllocator \<Rightarrow> MemoryRegion list option" where
  "bump_free_regions s =
     do {
       debug_assert (length (ba_arenas s) \<le> 128);
       Some (map (\<lambda>a. \<lparr>mr_range = arena_free a, mr_kind = Usable\<rparr>) (ba_arenas s))
     }"

definition bump_used_regions :: "BumpAllocator \<Rightarrow> MemoryRegion list option" where
  "bump_used_regions s =
     do {
       debug_assert (length (ba_arenas s) \<le> 128);
       Some (map (\<lambda>a. \<lparr>mr_range = arena_used a, mr_kind = Unusable\<rparr>) (ba_arenas s))
     }"

fun opt_map :: "('x \<Rightarrow> 'y option) \<Rightarrow> 'x list \<Rightarrow> 'y list option" where
  "opt_map f [] = Some []"
| "opt_map f (x # xs) = do { y \<leftarrow> f x; ys \<leftarrow> opt_map f xs; Some (y # ys) }"

fun usize_sum :: "usize list \<Rightarrow> usize \<Rightarrow> usize option" where
  "usize_sum [] acc = Some acc"
| "usize_sum (x # xs) acc = do { acc' \<leftarrow> usize_add acc x; usize_sum xs acc' }"

definition bump_capacities :: "BumpAllocator \<Rightarrow> usize list option" where
  "bump_capacities s = opt_map arena_capacity (ba_arenas s)"

definition bump_capacity :: "BumpAllocator \<Rightarrow> usize option" where
  "bump_capacity s = do { cs \<leftarrow> bump_capacities s; usize_sum cs 0 }"

definition bump_usages :: "BumpAllocator \<Rightarrow> usize list option" where
  "bump_usages s = opt_map arena_usage (ba_arenas s)"

definition bump_usage :: "BumpAllocator \<Rightarrow> usize option" where
  "bump_usage s = do { us \<leftarrow> bump_usages s; usize_sum us 0 }"

text \<open>Indexing \<open>self.arenas[i]\<close>, with its panic out of bounds, around an allocation.\<close>

definition allocate_in :: "nat \<Rightarrow> Layout \<Rightarrow> BumpAllocator \<Rightarrow> (paddr option \<times> BumpAllocator) option" where
  "allocate_in i layout s =
     do {
       debug_assert (i < length (ba_arenas s));
       (r, a) \<leftarrow> arena_allocate (ba_min_align s) layout (ba_arenas s ! i);
       Some (r, s\<lparr>ba_arenas := (ba_arenas s)[i := a]\<rparr>)
     }"

definition allocate_contiguous_fast :: "Layout \<Rightarrow> BumpAllocator \<Rightarrow> (paddr option \<times> BumpAllocator) option" where
  "allocate_contiguous_fast layout s = allocate_in (ba_current_arena_hint s) layout s"

fun contiguous_slow_loop ::
  "nat \<Rightarrow> Layout \<Rightarrow> nat list \<Rightarrow> BumpAllocator \<Rightarrow> (paddr option \<times> BumpAllocator) option" where
  "contiguous_slow_loop hint layout [] s = Some (None, s)"
| "contiguous_slow_loop hint layout (offset # offsets) s =
     do {
       let i = (hint + offset) mod length (ba_arenas s);
       debug_assert (i < length (ba_arenas s));
       has \<leftarrow> arena_has_capacity (ba_arenas s ! i);
       if has then do {
         (r, s') \<leftarrow> allocate_in i layout s;
         (case r of
            Some block \<Rightarrow> Some (Some block, s'\<lparr>ba_current_arena_hint := i\<rparr>)
          | None \<Rightarrow> contiguous_slow_loop hint layout offsets s')
       } else contiguous_slow_loop hint layout offsets s
     }"

definition allocate_contiguous_slow :: "Layout \<Rightarrow> BumpAllocator \<Rightarrow> (paddr option \<times> BumpAllocator) option" where
  "allocate_contiguous_slow layout s =
     contiguous_slow_loop (ba_current_arena_hint s) layout [1 ..< length (ba_arenas s)] s"

text \<open>
  The loop of \<open>allocate_slow\<close> over the arenas. It returns whether it allocated everything, the blocks and
  the new state; the clean-up loop gives the blocks back.
\<close>

fun slow_loop ::
  "nat \<Rightarrow> nat \<Rightarrow> Layout \<Rightarrow> nat list \<Rightarrow> usize \<Rightarrow> addr_range list \<Rightarrow> BumpAllocator \<Rightarrow>
     (bool \<times> addr_range list \<times> BumpAllocator) option" where
  "slow_loop cap hint layout [] remaining blocks s = Some (False, blocks, s)"
| "slow_loop cap hint layout (offset # offsets) remaining blocks s =
     do {
       let i = (hint + offset) mod length (ba_arenas s);
       debug_assert (i < length (ba_arenas s));
       has \<leftarrow> arena_has_capacity (ba_arenas s ! i);
       (remaining', blocks', s') \<leftarrow>
         (if has then do {
            c \<leftarrow> arena_capacity (ba_arenas s ! i);
            let requested_size = min remaining c;
            layout' \<leftarrow> layout_from_size_align requested_size (layout_align layout);
            (r, s') \<leftarrow> allocate_in i layout' s;
            (case r of
               None \<Rightarrow> Some (remaining, blocks, s')
             | Some block \<Rightarrow> do {
                 remaining' \<leftarrow> usize_sub remaining requested_size;
                 rng \<leftarrow> range_from_start_len block requested_size;
                 debug_assert (length blocks < cap);
                 Some (remaining', blocks @ [rng], s'\<lparr>ba_current_arena_hint := i\<rparr>)
               })
          } else Some (remaining, blocks, s));
       if remaining' = 0 then Some (True, blocks', s')
       else slow_loop cap hint layout offsets remaining' blocks' s'
     }"

fun free_block :: "addr_range \<Rightarrow> Arena list \<Rightarrow> Arena list option" where
  "free_block block [] = None"
| "free_block block (a # as) =
     (if range_overlaps (mr_range (ar_region a)) block then do {
        let (freed, a') = deallocate_if_last block a;
        debug_assert freed;
        Some (a' # as)
      } else map_option ((#) a) (free_block block as))"

fun cleanup :: "addr_range list \<Rightarrow> Arena list \<Rightarrow> Arena list option" where
  "cleanup [] as = Some as"
| "cleanup (block # blocks) as = do { as' \<leftarrow> free_block block as; cleanup blocks as' }"

definition allocate_slow ::
  "nat \<Rightarrow> Layout \<Rightarrow> BumpAllocator \<Rightarrow> (addr_range list option \<times> BumpAllocator) option" where
  "allocate_slow cap layout s =
     do {
       (complete, blocks, s') \<leftarrow> slow_loop cap (ba_current_arena_hint s) layout [0 ..< length (ba_arenas s)]
         (layout_size layout) [] s;
       if complete then Some (Some blocks, s')
       else do {
         as \<leftarrow> cleanup blocks (ba_arenas s');
         Some (None, s'\<lparr>ba_arenas := as\<rparr>)
       }
     }"

section \<open>The trait implementation\<close>

definition bump_allocate :: "nat \<Rightarrow> Layout \<Rightarrow> (BumpAllocator, AllocError, addr_range list) act" where
  "bump_allocate cap layout s =
     (if layout_size layout = 0 then Some (Inl AllocError, s)
      else do {
        (r, s1) \<leftarrow> allocate_contiguous_fast layout s;
        (case r of
           Some p \<Rightarrow> do {
             block \<leftarrow> range_from_start_len p (layout_size layout);
             Some (Inr [block], s1)
           }
         | None \<Rightarrow> do {
             (r', s2) \<leftarrow> allocate_slow cap layout s1;
             Some ((case r' of Some blocks \<Rightarrow> Inr blocks | None \<Rightarrow> Inl AllocError), s2)
           })
      })"

definition bump_allocate_contiguous :: "Layout \<Rightarrow> (BumpAllocator, AllocError, paddr) act" where
  "bump_allocate_contiguous layout s =
     (if layout_size layout = 0 then Some (Inl AllocError, s)
      else do {
        (r, s1) \<leftarrow> allocate_contiguous_fast layout s;
        (case r of
           Some p \<Rightarrow> Some (Inr p, s1)
         | None \<Rightarrow> do {
             (r', s2) \<leftarrow> allocate_contiguous_slow layout s1;
             Some ((case r' of Some p \<Rightarrow> Inr p | None \<Rightarrow> Inl AllocError), s2)
           })
      })"

definition bump_deallocate :: "paddr \<Rightarrow> Layout \<Rightarrow> BumpAllocator \<Rightarrow> BumpAllocator option" where
  "bump_deallocate block layout s = None"

definition bump_frame_allocator :: "nat \<Rightarrow> BumpAllocator frame_allocator" where
  "bump_frame_allocator cap =
     \<lparr>fa_allocate = bump_allocate cap, fa_allocate_contiguous = bump_allocate_contiguous,
      fa_deallocate = bump_deallocate\<rparr>"

end
