(* ===== verification/Bump_Correct.thy ===== *)
theory Bump_Correct
  imports Bump_Allocator
begin

text \<open>
  The lemmas on the bump allocator of \<^verbatim>\<open>sys/loader-flat/src/frame_alloc.rs\<close>: an arena as three natural
  numbers (its bounds and its pointer), what one arena allocation does in every branch, the contiguous
  search, the discontiguous search with its roll-back, and the contract \<open>granule_allocator\<close> of
  the page-table code.
\<close>

section \<open>Arenas as natural numbers\<close>

abbreviation arena_lo :: "Arena \<Rightarrow> nat" where
  "arena_lo a \<equiv> unat (range_start (mr_range (ar_region a)))"

abbreviation arena_hi :: "Arena \<Rightarrow> nat" where
  "arena_hi a \<equiv> unat (range_end (mr_range (ar_region a)))"

abbreviation arena_at :: "Arena \<Rightarrow> nat" where
  "arena_at a \<equiv> unat (ar_ptr a)"

abbreviation arena_usable :: "Arena \<Rightarrow> bool" where
  "arena_usable a \<equiv> kind_is_usable (mr_kind (ar_region a))"

definition arena_ok :: "nat \<Rightarrow> Arena \<Rightarrow> bool" where
  "arena_ok g a \<longleftrightarrow> g dvd arena_lo a \<and> g dvd arena_hi a \<and> g dvd arena_at a \<and>
     arena_lo a \<le> arena_at a \<and> arena_at a \<le> arena_hi a"

text \<open>The pointer rounded down, and the bytes an allocation takes below it.\<close>

definition arena_top :: "usize \<Rightarrow> Layout \<Rightarrow> Arena \<Rightarrow> nat" where
  "arena_top g l a = round_down (arena_at a) (unat (max g (layout_align l)))"

definition arena_need :: "usize \<Rightarrow> Layout \<Rightarrow> nat" where
  "arena_need g l = round_up (unat (layout_size l)) (unat (max g (layout_align l)))"

definition arena_fits :: "usize \<Rightarrow> Layout \<Rightarrow> Arena \<Rightarrow> bool" where
  "arena_fits g l a \<longleftrightarrow> arena_usable a \<and> arena_lo a + arena_need g l \<le> arena_top g l a"

definition arena_take :: "usize \<Rightarrow> Layout \<Rightarrow> Arena \<Rightarrow> paddr" where
  "arena_take g l a = of_nat (arena_top g l a - arena_need g l)"

text \<open>Rounding the pointer down to the alignment must not leave the region.\<close>

definition arena_headroom :: "usize \<Rightarrow> Layout \<Rightarrow> Arena \<Rightarrow> bool" where
  "arena_headroom g l a \<longleftrightarrow> arena_usable a \<longrightarrow> arena_lo a \<le> arena_top g l a"

definition min_align_ok :: "usize \<Rightarrow> bool" where
  "min_align_ok g \<longleftrightarrow> is_power_of_two g \<and> unat g \<le> 2 ^ 56"

lemma unat_of_nat_sub: "unat (of_nat (unat (a :: usize) - m) :: usize) = unat a - m"
  using usize_lt [of a] by (intro unat_of_nat_usize) linarith

lemma arena_capacity_ok: "arena_ok n a \<Longrightarrow> arena_capacity a = Some (of_nat (arena_at a - arena_lo a))"
  unfolding arena_capacity_def addr_offset_from_unsigned_eq_Some unat_of_nat_sub by (simp add: arena_ok_def)

lemma arena_usage_ok: "arena_ok n a \<Longrightarrow> arena_usage a = Some (of_nat (arena_hi a - arena_at a))"
  unfolding arena_usage_def addr_offset_from_unsigned_eq_Some unat_of_nat_sub by (simp add: arena_ok_def)

lemma arena_has_capacity_ok: "arena_ok n a \<Longrightarrow> arena_has_capacity a = Some (arena_lo a < arena_at a)"
  by (simp add: arena_has_capacity_def arena_capacity_ok word_less_nat_alt unat_of_nat_sub del: of_nat_diff)

lemma round_up_to_ok:
  assumes "is_power_of_two d" "round_up (unat n) (unat d) < 2 ^ 64"
  shows "round_up_to n d = Some (Some (of_nat (round_up (unat n) (unat d))))"
proof -
  obtain k where k: "k < 64" "d = 2 ^ k" using assms(1) is_power_of_two_cases by blast
  have "unat n + (2 ^ k - 1) < 2 ^ 64"
    using assms(2) round_up_overflow [OF k(1), of "unat n"] k by simp
  moreover have "n + (2 ^ k - 1) AND NOT (2 ^ k - 1) = of_nat (round_up (unat n) (2 ^ k))"
  proof (rule usize_eqI)
    have "NOT (2 ^ k - 1 :: usize) = 0 - 2 ^ k" by (simp add: not_eq_complement)
    then show "unat (n + (2 ^ k - 1) AND NOT (2 ^ k - 1)) = unat (of_nat (round_up (unat n) (2 ^ k)) :: usize)"
      using align_up_word [OF k(1), of n] assms(2) k by (simp only: unat_of_nat_usize unat_exp_usize if_True)
  qed
  ultimately show ?thesis
    using k assms(1) unat_pow2_minus_1 [OF k(1)]
    by (simp add: round_up_to_def word_less_nat_alt)
qed

section \<open>One arena\<close>

lemma unat_max: "unat (max a b :: usize) = max (unat a) (unat b)"
  by (simp add: max_def word_le_nat_alt)

lemma max_align:
  assumes "min_align_ok g" "wf_layout l"
  shows "is_power_of_two (max g (layout_align l))" "unat g dvd unat (max g (layout_align l))"
    "unat (layout_align l) dvd unat (max g (layout_align l))" "0 < unat (max g (layout_align l))"
    "arena_need g l < 2 ^ 64"
proof -
  obtain i where i: "i < 64" "g = 2 ^ i"
    using assms(1) is_power_of_two_cases unfolding min_align_ok_def by blast
  obtain j where j: "j < 64" "layout_align l = 2 ^ j"
    using assms(2) is_power_of_two_cases unfolding wf_layout_def by blast
  have m: "max g (layout_align l) = 2 ^ max i j"
    unfolding i(2) j(2) by (rule usize_eqI, unfold unat_max) (use i j in \<open>auto simp: max_def\<close>)
  show "is_power_of_two (max g (layout_align l))" unfolding m using i j by (intro is_power_of_two_pow2) simp
  show "unat g dvd unat (max g (layout_align l))" "unat (layout_align l) dvd unat (max g (layout_align l))"
    unfolding m using i j by (simp_all add: le_imp_power_dvd)
  show pos: "0 < unat (max g (layout_align l))" unfolding m using i j by simp
  have "arena_need g l < unat (layout_size l) + unat (max g (layout_align l))"
    unfolding arena_need_def by (rule round_up_lt [OF pos])
  moreover have "unat (max g (layout_align l)) \<le> 2 ^ 56 + unat (layout_align l)"
    using assms(1) by (simp add: unat_max min_align_ok_def)
  moreover have "unat (layout_size l) + (unat (layout_align l) - 1) < 2 ^ 63"
    using assms(2) by (simp add: wf_layout_def)
  moreover have "(2::nat) ^ 56 + 2 ^ 63 < 2 ^ 64" by simp
  ultimately show "arena_need g l < 2 ^ 64" by linarith
qed

lemma arena_top_bounds:
  assumes "arena_ok (unat g) a" "min_align_ok g" "wf_layout l"
  shows "arena_top g l a \<le> arena_at a" "arena_top g l a \<le> arena_hi a" "arena_top g l a < 2 ^ 64"
    "layout_align l \<le> g \<Longrightarrow> arena_top g l a = arena_at a"
proof -
  show le: "arena_top g l a \<le> arena_at a" unfolding arena_top_def by (rule round_down_le)
  then show "arena_top g l a \<le> arena_hi a" using assms(1) by (auto simp: arena_ok_def)
  show "arena_top g l a < 2 ^ 64" using le usize_lt by (rule le_less_trans)
  show "arena_top g l a = arena_at a" if "layout_align l \<le> g"
    using that assms(1) by (simp add: arena_top_def arena_ok_def max_def)
qed

lemma arena_headroom_small:
  "arena_ok (unat g) a \<Longrightarrow> min_align_ok g \<Longrightarrow> wf_layout l \<Longrightarrow> layout_align l \<le> g \<Longrightarrow> arena_headroom g l a"
  using arena_top_bounds(4) by (simp add: arena_headroom_def arena_ok_def)

lemma arena_need_pos:
  "min_align_ok g \<Longrightarrow> wf_layout l \<Longrightarrow> 0 < unat (layout_size l) \<Longrightarrow> unat (layout_size l) \<le> arena_need g l \<and> 0 < arena_need g l"
  unfolding arena_need_def using round_up_ge [OF max_align(4)] less_le_trans by blast

lemma arena_take_nat:
  assumes "arena_ok (unat g) a" "min_align_ok g" "wf_layout l" "0 < unat (layout_size l)" "arena_fits g l a"
  shows "unat (arena_take g l a) = arena_top g l a - arena_need g l"
    "unat g dvd unat (arena_take g l a)" "unat (layout_align l) dvd unat (arena_take g l a)"
    "arena_lo a \<le> unat (arena_take g l a)" "unat (arena_take g l a) < arena_hi a"
    "unat (arena_take g l a) + arena_need g l = arena_top g l a"
    "unat (arena_take g l a) + unat (layout_size l) \<le> arena_at a"
proof -
  note top = arena_top_bounds [OF assms(1-3)] and need = arena_need_pos [OF assms(2-4)]
  show nat: "unat (arena_take g l a) = arena_top g l a - arena_need g l"
    unfolding arena_take_def using top(3) by (intro unat_of_nat_usize) linarith
  have "unat (max g (layout_align l)) dvd arena_top g l a - arena_need g l"
    unfolding arena_top_def arena_need_def by (intro dvd_diff_nat) simp_all
  then show "unat g dvd unat (arena_take g l a)" "unat (layout_align l) dvd unat (arena_take g l a)"
    unfolding nat using max_align(2,3) [OF assms(2,3)] dvd_trans by blast+
  have fits: "arena_lo a + arena_need g l \<le> arena_top g l a" using assms(5) by (simp add: arena_fits_def)
  show "arena_lo a \<le> unat (arena_take g l a)" "unat (arena_take g l a) < arena_hi a"
    "unat (arena_take g l a) + arena_need g l = arena_top g l a"
    "unat (arena_take g l a) + unat (layout_size l) \<le> arena_at a"
    unfolding nat using fits top need by linarith+
qed

lemma arena_aligned_ptr_ok:
  assumes "arena_ok (unat g) a" "min_align_ok g" "wf_layout l" "arena_lo a \<le> arena_top g l a"
  shows "arena_aligned_ptr g l a =
    Some (if arena_lo a + arena_need g l \<le> arena_top g l a then Some (arena_take g l a) else None)"
proof -
  note top = arena_top_bounds [OF assms(1-3)] and m = max_align [OF assms(2,3)]
  let ?M = "max g (layout_align l)" and ?n = "of_nat (arena_need g l) :: usize"
  have up: "round_up_to (layout_size l) ?M = Some (Some ?n)"
    unfolding arena_need_def using m(5) by (intro round_up_to_ok m(1)) (simp add: arena_need_def)
  have n: "unat ?n = arena_need g l" by (rule unat_of_nat_usize [OF m(5)])
  have sub: "p - ?n = arena_take g l a" if "unat p = arena_top g l a" "arena_need g l \<le> arena_top g l a" for p :: usize
    using that n unfolding arena_take_def
    by (metis of_nat_diff of_nat_unat ucast_id)
  show ?thesis
  proof (cases "layout_align l \<le> g")
    case True
    then have M: "?M = g" by (simp add: max_def)
    have "unat (layout_align l) < unat g" if "layout_align l \<noteq> g"
      using True that by (simp flip: word_less_nat_alt)
    then show ?thesis
      using up n sub [of "ar_ptr a"] True top(4) [OF True] assms(1)
      by (cases "layout_align l = g")
        (auto simp: arena_aligned_ptr_def M round_up_to_unchecked_def arena_capacity_ok word_less_nat_alt unat_of_nat_sub
          addr_wrapping_sub_def arena_ok_def simp del: of_nat_diff)
  next
    case False
    then have M: "?M = layout_align l" "\<not> layout_align l < g" "layout_align l \<noteq> g" by (auto simp: max_def)
    have "arena_top g l a < 2 ^ 64" by (rule top(3))
    then have t: "unat (of_nat (arena_top g l a) :: usize) = arena_top g l a" by (rule unat_of_nat_usize)
    have down: "addr_align_down (ar_ptr a) (layout_align l) = Some (of_nat (arena_top g l a))"
      unfolding addr_align_down_eq_Some t using m(1) by (simp add: M arena_top_def)
    have c: "addr_offset_from_unsigned (of_nat (arena_top g l a)) (range_start (mr_range (ar_region a))) =
      Some (of_nat (arena_top g l a - arena_lo a))"
      unfolding addr_offset_from_unsigned_eq_Some t using assms(4) top(3)
      by (intro conjI unat_of_nat_usize) linarith+
    have "unat (of_nat (arena_top g l a - arena_lo a) :: usize) = arena_top g l a - arena_lo a"
      using top(3) by (intro unat_of_nat_usize) linarith
    then show ?thesis
      using up n sub [OF t] down c t M assms(4)
      by (auto simp: arena_aligned_ptr_def round_up_to_unchecked_def word_less_nat_alt addr_wrapping_sub_def
          simp del: of_nat_diff)
  qed
qed

lemma arena_allocate_ok:
  assumes "arena_ok (unat g) a" "min_align_ok g" "wf_layout l" "0 < unat (layout_size l)" "arena_headroom g l a"
  shows "arena_allocate g l a =
    Some (if arena_fits g l a then (Some (arena_take g l a), a\<lparr>ar_ptr := arena_take g l a\<rparr>) else (None, a))"
proof (cases "arena_usable a")
  case True
  then have ptr: "arena_aligned_ptr g l a =
    Some (if arena_lo a + arena_need g l \<le> arena_top g l a then Some (arena_take g l a) else None)"
    using assms arena_aligned_ptr_ok by (simp add: arena_headroom_def)
  have g: "is_power_of_two g" "is_power_of_two (layout_align l)" "unat g dvd arena_at a"
    using assms by (simp_all add: min_align_ok_def wf_layout_def arena_ok_def)
  have al: "addr_is_aligned_to x d = Some True" if "is_power_of_two d" "unat d dvd unat x" for x d
    using that by (simp add: addr_is_aligned_to_eq_Some)
  show ?thesis
  proof (cases "arena_fits g l a")
    case fits: True
    note t = arena_take_nat [OF assms(1-4) fits]
    have "range_contains (mr_range (ar_region a)) (arena_take g l a)"
      using t(4,5) by (simp add: range_contains_nat range_nat_def)
    then show ?thesis
      using True fits ptr al [OF g(1,3)] al [OF g(2) t(3)] al [OF g(1) t(2)]
      by (simp add: arena_allocate_def arena_fits_def)
  next
    case False
    then show ?thesis
      using True ptr al [OF g(1,3)] by (simp add: arena_allocate_def arena_fits_def)
  qed
qed (simp add: arena_allocate_def arena_fits_def)

text \<open>The other case: rounding the pointer down leaves the region, and the capacity computation panics.\<close>

lemma arena_allocate_panic:
  assumes "arena_ok (unat g) a" "min_align_ok g" "wf_layout l" "\<not> arena_headroom g l a"
  shows "arena_allocate g l a = None"
proof -
  note top = arena_top_bounds [OF assms(1-3)] and m = max_align [OF assms(2,3)]
  have u: "arena_usable a" "arena_top g l a < arena_lo a" using assms(4) by (auto simp: arena_headroom_def)
  then have "\<not> layout_align l \<le> g" using top(4) assms(1) by (auto simp: arena_ok_def)
  then have M: "max g (layout_align l) = layout_align l" "\<not> layout_align l < g" "layout_align l \<noteq> g"
    by (auto simp: max_def)
  have t: "unat (of_nat (arena_top g l a) :: usize) = arena_top g l a" by (rule unat_of_nat_usize [OF top(3)])
  have "addr_align_down (ar_ptr a) (layout_align l) = Some (of_nat (arena_top g l a))"
    unfolding addr_align_down_eq_Some t using m(1) by (simp add: M arena_top_def)
  moreover have "addr_offset_from_unsigned (of_nat (arena_top g l a)) (range_start (mr_range (ar_region a))) = None"
    using u(2) unfolding addr_offset_from_unsigned_eq_None t .
  ultimately have "arena_aligned_ptr g l a = None"
    using M by (cases "round_up_to_unchecked (layout_size l) (layout_align l)") (simp_all add: arena_aligned_ptr_def)
  then show ?thesis
    using u(1) by (cases "addr_is_aligned_to (ar_ptr a) g") (simp_all add: arena_allocate_def debug_assert_def)
qed

section \<open>The invariant of the allocator\<close>

text \<open>The arenas are in ascending order, disjoint, and their bounds and pointers are granule-aligned.\<close>

definition bump_ok :: "BumpAllocator \<Rightarrow> bool" where
  "bump_ok s \<longleftrightarrow> min_align_ok (ba_min_align s) \<and> ba_current_arena_hint s < length (ba_arenas s) \<and>
     (\<forall>a \<in> set (ba_arenas s). arena_ok (unat (ba_min_align s)) a) \<and>
     sorted_wrt (\<lambda>a b. arena_hi a \<le> arena_lo b) (ba_arenas s)"

definition bump_headroom :: "Layout \<Rightarrow> BumpAllocator \<Rightarrow> bool" where
  "bump_headroom l s \<longleftrightarrow> (\<forall>a \<in> set (ba_arenas s). arena_headroom (ba_min_align s) l a)"

text \<open>Moving the pointer of one arena down, and the whole step of an allocation from it.\<close>

definition bump_move :: "nat \<Rightarrow> paddr \<Rightarrow> BumpAllocator \<Rightarrow> BumpAllocator" where
  "bump_move i p s =
     s\<lparr>ba_arenas := (ba_arenas s)[i := (ba_arenas s ! i)\<lparr>ar_ptr := p\<rparr>], ba_current_arena_hint := i\<rparr>"

lemma bump_headroom_small:
  "bump_ok s \<Longrightarrow> wf_layout l \<Longrightarrow> layout_align l \<le> ba_min_align s \<Longrightarrow> bump_headroom l s"
  using arena_headroom_small by (simp add: bump_headroom_def bump_ok_def)

lemma bump_arena_ok:
  "bump_ok s \<Longrightarrow> i < length (ba_arenas s) \<Longrightarrow> arena_ok (unat (ba_min_align s)) (ba_arenas s ! i)"
  by (simp add: bump_ok_def)

lemma sorted_arenas_update:
  assumes "sorted_wrt (\<lambda>a b. arena_hi a \<le> arena_lo b) as" "ar_region a = ar_region (as ! i)"
  shows "sorted_wrt (\<lambda>a b. arena_hi a \<le> arena_lo b) (as[i := a])"
proof -
  have "ar_region (as[i := a] ! j) = ar_region (as ! j)" for j
    using assms(2) by (cases "i < length as") (auto simp: nth_list_update list_update_beyond)
  then show ?thesis using assms(1) by (simp add: sorted_wrt_iff_nth_less)
qed

lemma bump_ok_move:
  assumes "bump_ok s" "i < length (ba_arenas s)" "unat (ba_min_align s) dvd unat p"
    "arena_lo (ba_arenas s ! i) \<le> unat p" "unat p \<le> arena_hi (ba_arenas s ! i)"
  shows "bump_ok (bump_move i p s)"
proof -
  have "arena_ok (unat (ba_min_align s)) a"
    if "a \<in> set ((ba_arenas s)[i := (ba_arenas s ! i)\<lparr>ar_ptr := p\<rparr>])" for a
  proof -
    have "a = (ba_arenas s ! i)\<lparr>ar_ptr := p\<rparr> \<or> a \<in> set (ba_arenas s)"
      using set_update_subset_insert that by fast
    then show ?thesis
      using assms bump_arena_ok [OF assms(1,2)] by (auto simp: bump_ok_def arena_ok_def)
  qed
  then show ?thesis
    using assms by (auto simp: bump_ok_def bump_move_def intro!: sorted_arenas_update)
qed

lemma bump_move_simps [simp]:
  "length (ba_arenas (bump_move i p s)) = length (ba_arenas s)"
  "ba_min_align (bump_move i p s) = ba_min_align s"
  "ba_current_arena_hint (bump_move i p s) = i"
  "j \<noteq> i \<Longrightarrow> ba_arenas (bump_move i p s) ! j = ba_arenas s ! j"
  "i < length (ba_arenas s) \<Longrightarrow> ba_arenas (bump_move i p s) ! i = (ba_arenas s ! i)\<lparr>ar_ptr := p\<rparr>"
  by (simp_all add: bump_move_def)

section \<open>Contiguous allocation\<close>

lemma allocate_in_ok:
  assumes "bump_ok s" "wf_layout l" "0 < unat (layout_size l)" "bump_headroom l s" "i < length (ba_arenas s)"
  shows "allocate_in i l s =
    Some (if arena_fits (ba_min_align s) l (ba_arenas s ! i)
          then (Some (arena_take (ba_min_align s) l (ba_arenas s ! i)),
                (bump_move i (arena_take (ba_min_align s) l (ba_arenas s ! i)) s)
                  \<lparr>ba_current_arena_hint := ba_current_arena_hint s\<rparr>)
          else (None, s))"
  using arena_allocate_ok [of "ba_min_align s" "ba_arenas s ! i" l] assms
  by (auto simp: allocate_in_def bump_ok_def bump_headroom_def bump_move_def)

lemma bump_ok_take:
  assumes "bump_ok s" "wf_layout l" "0 < unat (layout_size l)" "i < length (ba_arenas s)"
    "arena_fits (ba_min_align s) l (ba_arenas s ! i)"
  shows "bump_ok (bump_move i (arena_take (ba_min_align s) l (ba_arenas s ! i)) s)"
proof -
  have "min_align_ok (ba_min_align s)" using assms(1) by (simp add: bump_ok_def)
  note t = arena_take_nat [OF bump_arena_ok [OF assms(1,4)] this assms(2,3,5)]
  show ?thesis by (rule bump_ok_move [OF assms(1,4) t(2,4)]) (use t(5) in simp)
qed

text \<open>Every index but the hint is tried.\<close>

lemma rotation_image:
  assumes "h < (n::nat)"
  shows "(\<lambda>d. (h + d) mod n) ` {0 ..< n} = {0 ..< n}" "inj_on (\<lambda>d. (h + d) mod n) {0 ..< n}"
proof -
  show inj: "inj_on (\<lambda>d. (h + d) mod n) {0 ..< n}"
  proof (rule inj_onI)
    fix d e assume *: "d \<in> {0 ..< n}" "e \<in> {0 ..< n}" "(h + d) mod n = (h + e) mod n"
    have "(h + x) mod n = (if h + x < n then h + x else h + x - n)" if "x < n" for x
      using that assms by (simp add: mod_if)
    then show "d = e" using * by (auto split: if_splits)
  qed
  have "(\<lambda>d. (h + d) mod n) ` {0 ..< n} \<subseteq> {0 ..< n}" using assms by auto
  then show "(\<lambda>d. (h + d) mod n) ` {0 ..< n} = {0 ..< n}"
    using card_image [OF inj] by (intro card_subset_eq) simp_all
qed

lemma contiguous_slow_loop_ok:
  assumes "bump_ok s" "wf_layout l" "0 < unat (layout_size l)" "bump_headroom l s"
  shows "(\<forall>d \<in> set ds. \<not> arena_fits (ba_min_align s) l (ba_arenas s ! ((h + d) mod length (ba_arenas s)))) \<and>
       contiguous_slow_loop h l ds s = Some (None, s) \<or>
     (\<exists>i < length (ba_arenas s). arena_fits (ba_min_align s) l (ba_arenas s ! i) \<and>
       contiguous_slow_loop h l ds s =
         Some (Some (arena_take (ba_min_align s) l (ba_arenas s ! i)),
               bump_move i (arena_take (ba_min_align s) l (ba_arenas s ! i)) s))"
proof (induction ds)
  case (Cons d ds)
  let ?i = "(h + d) mod length (ba_arenas s)"
  have i: "?i < length (ba_arenas s)" using assms(1) by (intro mod_less_divisor) (auto simp: bump_ok_def)
  have has: "arena_has_capacity (ba_arenas s ! ?i) = Some (arena_lo (ba_arenas s ! ?i) < arena_at (ba_arenas s ! ?i))"
    by (rule arena_has_capacity_ok [OF bump_arena_ok [OF assms(1) i]])
  have g: "min_align_ok (ba_min_align s)" using assms(1) by (simp add: bump_ok_def)
  have no: "\<not> arena_fits (ba_min_align s) l (ba_arenas s ! ?i)"
    if "\<not> arena_lo (ba_arenas s ! ?i) < arena_at (ba_arenas s ! ?i)"
    using that arena_top_bounds(1) [OF bump_arena_ok [OF assms(1) i] g assms(2)] arena_need_pos [OF g assms(2,3)]
    by (auto simp: arena_fits_def)
  show ?case
  proof (cases "arena_fits (ba_min_align s) l (ba_arenas s ! ?i)")
    case True
    then have "contiguous_slow_loop h l (d # ds) s =
      Some (Some (arena_take (ba_min_align s) l (ba_arenas s ! ?i)),
            bump_move ?i (arena_take (ba_min_align s) l (ba_arenas s ! ?i)) s)"
      using i has no allocate_in_ok [OF assms i] by (auto simp: bump_move_def)
    then show ?thesis using True i by blast
  next
    case False
    then have "contiguous_slow_loop h l (d # ds) s = contiguous_slow_loop h l ds s"
      using i has allocate_in_ok [OF assms i] by auto
    then show ?thesis using Cons.IH False by auto
  qed
qed simp

lemma bump_allocate_contiguous_ok:
  assumes "bump_ok s" "wf_layout l" "bump_headroom l s"
  obtains (Err) "bump_allocate_contiguous l s = Some (Inl AllocError, s)"
      "0 < unat (layout_size l) \<Longrightarrow> \<forall>a \<in> set (ba_arenas s). \<not> arena_fits (ba_min_align s) l a"
  | (Ok) i where "bump_allocate_contiguous l s =
        Some (Inr (arena_take (ba_min_align s) l (ba_arenas s ! i)),
              bump_move i (arena_take (ba_min_align s) l (ba_arenas s ! i)) s)"
      "i < length (ba_arenas s)" "0 < unat (layout_size l)" "arena_fits (ba_min_align s) l (ba_arenas s ! i)"
proof (cases "0 < unat (layout_size l)")
  case True
  then have sz: "layout_size l \<noteq> 0" by auto
  let ?h = "ba_current_arena_hint s" and ?n = "length (ba_arenas s)"
  have h: "?h < ?n" using assms(1) by (simp add: bump_ok_def)
  note fast = allocate_in_ok [OF assms(1,2) True assms(3) h]
  show ?thesis
  proof (cases "arena_fits (ba_min_align s) l (ba_arenas s ! ?h)")
    case fits: True
    show ?thesis
      by (rule Ok [of ?h]) (use fast fits sz h True in
        \<open>simp_all add: bump_allocate_contiguous_def allocate_contiguous_fast_def bump_move_def\<close>)
  next
    case False
    then have *: "bump_allocate_contiguous l s =
      (case contiguous_slow_loop ?h l [1 ..< ?n] s of None \<Rightarrow> None
       | Some (r, s2) \<Rightarrow> Some (case r of Some p \<Rightarrow> Inr p | None \<Rightarrow> Inl AllocError, s2))"
      using fast sz
      by (simp add: bump_allocate_contiguous_def allocate_contiguous_fast_def allocate_contiguous_slow_def
          split: option.split)
    have all: "\<forall>a \<in> set (ba_arenas s). \<not> arena_fits (ba_min_align s) l a"
      if "\<forall>d \<in> set [1 ..< ?n]. \<not> arena_fits (ba_min_align s) l (ba_arenas s ! ((?h + d) mod ?n))"
    proof
      fix a assume "a \<in> set (ba_arenas s)"
      then obtain j where j: "j < ?n" "a = ba_arenas s ! j" by (auto simp: in_set_conv_nth)
      then have "j \<in> (\<lambda>d. (?h + d) mod ?n) ` {0 ..< ?n}" unfolding rotation_image(1) [OF h] by simp
      then obtain d where d: "d < ?n" "j = (?h + d) mod ?n" by (elim imageE) simp
      show "\<not> arena_fits (ba_min_align s) l a"
      proof (cases "d = 0")
        case True
        then show ?thesis using False d j h by simp
      next
        case d0: False
        then have "d \<in> set [1 ..< ?n]" using d by simp
        then show ?thesis using that d(2) j(2) by blast
      qed
    qed
    consider "\<forall>d \<in> set [1 ..< ?n]. \<not> arena_fits (ba_min_align s) l (ba_arenas s ! ((?h + d) mod ?n))"
        "contiguous_slow_loop ?h l [1 ..< ?n] s = Some (None, s)"
      | i where "i < ?n" "arena_fits (ba_min_align s) l (ba_arenas s ! i)"
        "contiguous_slow_loop ?h l [1 ..< ?n] s =
           Some (Some (arena_take (ba_min_align s) l (ba_arenas s ! i)),
                 bump_move i (arena_take (ba_min_align s) l (ba_arenas s ! i)) s)"
      using contiguous_slow_loop_ok [OF assms(1,2) True assms(3), of "[1 ..< ?n]" ?h] by blast
    then show ?thesis
    proof cases
      case 1
      show ?thesis by (rule Err) (use * 1(2) all [OF 1(1)] in simp_all)
    next
      case 2
      show ?thesis by (rule Ok [of i]) (use * 2 True in simp_all)
    qed
  qed
qed (use Err in \<open>simp add: bump_allocate_contiguous_def unat_eq_0\<close>)

end
