(* ===== verification/Bump_Blocks.thy ===== *)
theory Bump_Blocks
  imports Bump_Correct
begin

text \<open>
  The discontiguous path of the bump allocator (\<open>allocate_slow\<close>): the blocks it takes from the arenas, the
  clean-up that gives them back when the request cannot be met, and that it gives up only when the
  usable memory does not suffice.
\<close>

section \<open>Taking blocks\<close>

abbreviation block_len :: "addr_range \<Rightarrow> nat" where
  "block_len b \<equiv> unat (range_end b) - unat (range_start b)"

definition block_in :: "nat \<Rightarrow> nat \<Rightarrow> Arena \<Rightarrow> addr_range \<Rightarrow> bool" where
  "block_in g al a b \<longleftrightarrow> arena_usable a \<and> g dvd unat (range_start b) \<and> al dvd unat (range_start b) \<and>
     arena_lo a \<le> unat (range_start b) \<and> unat (range_start b) < unat (range_end b) \<and>
     unat (range_end b) \<le> arena_at a"

definition block_whole :: "Arena \<Rightarrow> addr_range \<Rightarrow> bool" where
  "block_whole a b \<longleftrightarrow> range_start b = range_start (mr_range (ar_region a)) \<and> range_end b = ar_ptr a"

text \<open>The blocks, each from the arena with its index, were taken one after the other.\<close>

fun taken :: "(Arena \<Rightarrow> addr_range \<Rightarrow> bool) \<Rightarrow> (nat \<times> addr_range) list \<Rightarrow> Arena list \<Rightarrow> Arena list \<Rightarrow> bool" where
  "taken P [] as as' \<longleftrightarrow> as' = as"
| "taken P ((i, b) # tbs) as as' \<longleftrightarrow>
     i < length as \<and> P (as ! i) b \<and> taken P tbs (as[i := (as ! i)\<lparr>ar_ptr := range_start b\<rparr>]) as'"

lemma taken_mono: "taken P tbs as as' \<Longrightarrow> (\<And>a b. P a b \<Longrightarrow> Q a b) \<Longrightarrow> taken Q tbs as as'"
  by (induction P tbs as as' rule: taken.induct) auto

section \<open>Clean-up\<close>

lemma free_block_ok:
  assumes "sorted_wrt (\<lambda>a b. arena_hi a \<le> arena_lo b) as" "i < length as"
    "\<forall>a \<in> set as. arena_lo a \<le> arena_hi a"
    "arena_lo (as ! i) \<le> unat (range_start b)" "unat (range_start b) < unat (range_end b)"
    "unat (range_end b) \<le> arena_hi (as ! i)" "ar_ptr (as ! i) = range_start b"
  shows "free_block b as = Some (as[i := (as ! i)\<lparr>ar_ptr := range_end b\<rparr>])"
  using assms
proof (induction as arbitrary: i)
  case (Cons a as)
  show ?case
  proof (cases i)
    case 0
    then show ?thesis
      using Cons.prems by (auto simp: range_overlaps_def word_less_nat_alt deallocate_if_last_def)
  next
    case (Suc j)
    then have "as ! j \<in> set as" using Cons.prems(2) by simp
    then have "arena_hi a \<le> unat (range_start b)" using Cons.prems(1,4) Suc by fastforce
    then have "\<not> range_overlaps (mr_range (ar_region a)) b"
      by (auto simp: range_overlaps_def word_less_nat_alt)
    moreover have "free_block b as = Some (as[j := (as ! j)\<lparr>ar_ptr := range_end b\<rparr>])"
      using Cons.prems Suc by (intro Cons.IH) simp_all
    ultimately show ?thesis using Suc by simp
  qed
qed simp

lemma taken_skip:
  assumes "taken P tbs as as'" "i < length as" "\<And>b. \<not> P (as ! i) b"
  shows "as' ! i = as ! i \<and> length as' = length as \<and> taken P tbs (as[i := x]) (as'[i := x])"
  using assms
proof (induction P tbs as as' rule: taken.induct)
  case (2 P j b tbs as as')
  have "j \<noteq> i" using "2.prems" by auto
  then show ?case
    using "2.IH" "2.prems" by (auto simp: list_update_swap [of i j])
qed simp

lemma taken_regions:
  "taken P tbs as as' \<Longrightarrow> length as' = length as \<and> (\<forall>i < length as. ar_region (as' ! i) = ar_region (as ! i))"
  by (induction P tbs as as' rule: taken.induct) (auto simp: nth_list_update)

lemma cleanup_ok:
  assumes "taken (\<lambda>a b. block_in g al a b \<and> block_whole a b) tbs as as'"
    "sorted_wrt (\<lambda>a b. arena_hi a \<le> arena_lo b) as" "\<forall>a \<in> set as. arena_at a \<le> arena_hi a \<and> arena_lo a \<le> arena_hi a"
  shows "cleanup (map snd tbs) as' = Some as"
  using assms
proof (induction tbs arbitrary: as as')
  case (Cons t tbs)
  let ?P = "\<lambda>a b. block_in g al a b \<and> block_whole a b"
  obtain i b where t: "t = (i, b)" by force
  let ?a = "as ! i" and ?as1 = "as[i := (as ! i)\<lparr>ar_ptr := range_start b\<rparr>]"
  have i: "i < length as" "block_in g al ?a b" "block_whole ?a b" and rest: "taken ?P tbs ?as1 as'"
    using Cons.prems(1) t by simp_all
  have "\<not> ?P (?as1 ! i) b'" for b'
    using i by (auto simp: block_in_def block_whole_def)
  then have skip: "as' ! i = ?as1 ! i" "length as' = length as" "taken ?P tbs (?as1[i := ?a]) (as'[i := ?a])"
    using taken_skip [OF rest, of i ?a] i(1) by simp_all
  have "ar_region (as' ! j) = ar_region (as ! j)" if "j < length as" for j
    using taken_regions [OF Cons.prems(1)] that by simp
  then have "sorted_wrt (\<lambda>a b. arena_hi a \<le> arena_lo b) as'" "\<forall>a \<in> set as'. arena_lo a \<le> arena_hi a"
    using Cons.prems(2,3) skip(2) by (simp_all add: sorted_wrt_iff_nth_less all_set_conv_all_nth)
  then have "free_block b as' = Some (as'[i := (as' ! i)\<lparr>ar_ptr := range_end b\<rparr>])"
    using Cons.prems(3) i skip(1,2)
    by (intro free_block_ok) (auto simp: block_in_def block_whole_def)
  moreover have "(as' ! i)\<lparr>ar_ptr := range_end b\<rparr> = ?a"
    using skip(1) i by (simp add: block_whole_def)
  moreover have "cleanup (map snd tbs) (as'[i := ?a]) = Some as"
    using skip(3) i(1) by (intro Cons.IH Cons.prems(2,3)) simp_all
  ultimately show ?case using t by simp
qed simp

section \<open>The loop over the arenas\<close>

text \<open>The layout one iteration asks of an arena.\<close>

abbreviation slow_layout :: "Layout \<Rightarrow> usize \<Rightarrow> Arena \<Rightarrow> Layout" where
  "slow_layout l rem a \<equiv>
     \<lparr>layout_size = min rem (of_nat (arena_at a - arena_lo a)), layout_align = layout_align l\<rparr>"

lemma slow_layout_nat:
  "unat (layout_size (slow_layout l rem a)) = min (unat rem) (arena_at a - arena_lo a)"
  by (simp add: min_def word_le_nat_alt unat_of_nat_sub del: of_nat_diff)

lemma slow_layout_wf:
  "wf_layout l \<Longrightarrow> unat rem \<le> unat (layout_size l) \<Longrightarrow> wf_layout (slow_layout l rem a)"
  unfolding wf_layout_def slow_layout_nat by auto

lemma arena_top_align: "layout_align l = layout_align l' \<Longrightarrow> arena_top g l a = arena_top g l' a"
  by (simp add: arena_top_def)

lemma slow_block:
  assumes "bump_ok s" "wf_layout l" "bump_headroom l s" "0 < unat rem" "unat rem \<le> unat (layout_size l)"
    "i < length (ba_arenas s)" "a = ba_arenas s ! i" "arena_lo a < arena_at a" "l' = slow_layout l rem a"
    "g = ba_min_align s" "arena_fits g l' a"
  defines "p \<equiv> arena_take g l' a"
  obtains b where "range_from_start_len p (layout_size l') = Some b" "range_start b = p"
    "block_in (unat g) (unat (layout_align l)) a b" "block_len b = unat (layout_size l')"
    "layout_size l' \<noteq> rem \<longrightarrow> block_whole a b"
    "bump_ok (bump_move i p s)" "bump_headroom l (bump_move i p s)"
proof -
  have g: "min_align_ok g" "arena_ok (unat g) a" using assms bump_arena_ok by (auto simp: bump_ok_def)
  have wf: "wf_layout l'" unfolding assms(9) by (rule slow_layout_wf [OF assms(2,5)])
  have sz: "0 < unat (layout_size l')" unfolding assms(9) slow_layout_nat using assms(4,8) by simp
  note t = arena_take_nat [OF g(2,1) wf sz assms(11), folded p_def] and top = arena_top_bounds [OF g(2,1) wf]
  let ?b = "\<lparr>range_start = p, range_end = p + layout_size l'\<rparr>"
  have le: "unat p + unat (layout_size l') < 2 ^ 64" using t(7) usize_lt [of "ar_ptr a"] by linarith
  then have e: "unat (p + layout_size l') = unat p + unat (layout_size l')" by (rule unat_add_usize)
  have al: "layout_align l' = layout_align l" using assms(9) by simp
  have whole: "block_whole a ?b" if "layout_size l' \<noteq> rem"
  proof -
    have "layout_size l' = of_nat (arena_at a - arena_lo a)" 
      using that unfolding assms(9) by (simp add: min_def del: of_nat_diff split: if_splits)
    then have size': "unat (layout_size l') = arena_at a - arena_lo a" by (simp only: unat_of_nat_sub)
    have need: "unat (layout_size l') \<le> arena_need g l'" using arena_need_pos [OF g(1) wf sz] by simp
    have "arena_lo a + arena_need g l' \<le> arena_top g l' a" using assms(11) by (simp add: arena_fits_def)
    then have "unat p = arena_lo a" "unat p + unat (layout_size l') = arena_at a"
      using t(4,6) top(1) size' need assms(8) by linarith+
    then show ?thesis using e by (simp add: block_whole_def usize_eqI)
  qed
  have fit: "block_in (unat g) (unat (layout_align l)) a ?b"
    using t assms(11) sz al e by (simp add: block_in_def arena_fits_def)
  have ok: "bump_ok (bump_move i p s)"
    using bump_ok_take [OF assms(1) wf sz assms(6)] assms(7,10,11) by (simp add: p_def)
  have head: "bump_headroom l (bump_move i p s)"
  proof -
    have "unat (max g (layout_align l)) dvd unat p" using t(2,3) al by (simp add: max_def)
    then have "arena_headroom g l (a\<lparr>ar_ptr := p\<rparr>)"
      using t(4) by (simp add: arena_headroom_def arena_top_def)
    moreover have "x = a\<lparr>ar_ptr := p\<rparr> \<or> x \<in> set (ba_arenas s)" if "x \<in> set (ba_arenas (bump_move i p s))" for x
      using that set_update_subset_insert assms(7) by (fastforce simp: bump_move_def)
    ultimately show ?thesis using assms(3,10) by (auto simp: bump_headroom_def)
  qed
  show ?thesis
    by (rule that [of ?b])
      (use le e fit whole ok head in \<open>simp_all add: range_from_start_len_eq_Some\<close>)
qed

lemma small_align_fits:
  assumes "arena_ok (unat g) a" "min_align_ok g" "wf_layout l" "layout_align l \<le> g" "arena_usable a"
    "unat (layout_size l) \<le> arena_at a - arena_lo a"
  shows "arena_fits g l a"
proof -
  have "unat g dvd arena_at a - arena_lo a" using assms(1) by (intro dvd_diff_nat) (simp_all add: arena_ok_def)
  then have "arena_need g l \<le> arena_at a - arena_lo a"
    unfolding arena_need_def using assms max_align(4) [OF assms(2,3)]
    by (intro round_up_least) (simp_all add: max_def)
  moreover have "arena_lo a \<le> arena_at a" using assms(1) by (simp add: arena_ok_def)
  ultimately show ?thesis
    using assms(5) arena_top_bounds(4) [OF assms(1-4)] by (simp add: arena_fits_def)
qed

definition arena_room :: "Arena \<Rightarrow> nat" where
  "arena_room a = (if arena_usable a then arena_at a - arena_lo a else 0)"

lemma slow_loop_step:
  fixes h d :: nat
  assumes "bump_ok s" "wf_layout l" "bump_headroom l s" "0 < unat rem" "unat rem \<le> unat (layout_size l)"
    "length blocks < cap"
  defines "g \<equiv> ba_min_align s" and "i \<equiv> (h + d) mod length (ba_arenas s)"
  obtains (Skip) "slow_loop cap h l (d # ds) rem blocks s = slow_loop cap h l ds rem blocks s"
      "layout_align l \<le> g \<Longrightarrow> arena_room (ba_arenas s ! i) = 0"
  | (Done) b where "slow_loop cap h l (d # ds) rem blocks s = Some (True, blocks @ [b], bump_move i (range_start b) s)"
      "block_in (unat g) (unat (layout_align l)) (ba_arenas s ! i) b" "block_len b = unat rem"
      "bump_ok (bump_move i (range_start b) s)"
  | (More) b rem' where "slow_loop cap h l (d # ds) rem blocks s =
        slow_loop cap h l ds rem' (blocks @ [b]) (bump_move i (range_start b) s)"
      "block_in (unat g) (unat (layout_align l)) (ba_arenas s ! i) b" "block_whole (ba_arenas s ! i) b"
      "bump_ok (bump_move i (range_start b) s)" "bump_headroom l (bump_move i (range_start b) s)"
      "unat rem' = unat rem - block_len b" "0 < unat rem'" "block_len b = arena_room (ba_arenas s ! i)"
proof -
  let ?a = "ba_arenas s ! i"
  let ?l = "slow_layout l rem ?a"
  have i: "i < length (ba_arenas s)" unfolding i_def using assms(1) by (intro mod_less_divisor) (auto simp: bump_ok_def)
  note a = bump_arena_ok [OF assms(1) i, folded g_def]
  have g: "min_align_ok g" using assms(1) by (simp add: bump_ok_def g_def)
  have wf: "wf_layout ?l" by (rule slow_layout_wf [OF assms(2,5)])
  have rem0: "rem \<noteq> 0" using assms(4) by auto
  have has: "arena_has_capacity ?a = Some (arena_lo ?a < arena_at ?a)" by (rule arena_has_capacity_ok [OF a])
  show ?thesis
  proof (cases "arena_lo ?a < arena_at ?a")
    case False
    show ?thesis
      by (rule Skip) (use has False i rem0 in \<open>simp_all add: arena_room_def flip: i_def\<close>)
  next
    case True
    have sz: "0 < unat (layout_size ?l)" unfolding slow_layout_nat using True assms(4) by simp
    have head: "bump_headroom ?l s" using assms(3) by (simp add: bump_headroom_def arena_headroom_def arena_top_def)
    note alloc = allocate_in_ok [OF assms(1) wf sz head i, folded g_def]
    have lay: "layout_from_size_align (min rem (of_nat (arena_at ?a - arena_lo ?a))) (layout_align l) = Some ?l"
      using wf by (simp add: layout_from_size_align_def del: of_nat_diff)
    note step = has True i rem0 alloc lay arena_capacity_ok [OF a]
    show ?thesis
    proof (cases "arena_fits g ?l ?a")
      case False
      have "slow_loop cap h l (d # ds) rem blocks s = slow_loop cap h l ds rem blocks s"
        using step False by (simp del: of_nat_diff flip: i_def)
      moreover have "arena_room ?a = 0" if "layout_align l \<le> g"
        using small_align_fits [OF a g wf] that False slow_layout_nat [of rem ?a l]
        by (auto simp: arena_room_def)
      ultimately show ?thesis by (rule Skip)
    next
      case fits: True
      obtain b where b: "range_from_start_len (arena_take g ?l ?a) (layout_size ?l) = Some b"
        "range_start b = arena_take g ?l ?a"
        "block_in (unat g) (unat (layout_align l)) ?a b" "block_len b = unat (layout_size ?l)"
        "layout_size ?l \<noteq> rem \<longrightarrow> block_whole ?a b"
        "bump_ok (bump_move i (arena_take g ?l ?a) s)" "bump_headroom l (bump_move i (arena_take g ?l ?a) s)"
        by (rule slow_block [OF assms(1-5) i refl True refl refl, folded g_def, OF fits])
      have sub: "usize_sub rem (layout_size ?l) = Some (rem - layout_size ?l)"
        by (simp add: usize_sub_def del: of_nat_diff)
      have loop: "slow_loop cap h l (d # ds) rem blocks s =
        (if rem - layout_size ?l = 0 then Some (True, blocks @ [b], bump_move i (range_start b) s)
         else slow_loop cap h l ds (rem - layout_size ?l) (blocks @ [b]) (bump_move i (range_start b) s))"
        using step fits b(1,2) sub assms(6) by (simp add: bump_move_def del: of_nat_diff flip: i_def)
      have nat: "unat (rem - layout_size ?l) = unat rem - unat (layout_size ?l)"
        using sub usize_sub_eq_Some by blast
      show ?thesis
      proof (cases "layout_size ?l = rem")
        case True
        show ?thesis by (rule Done [of b]) (use loop True b in simp_all)
      next
        case False
        then have ne: "rem - layout_size ?l \<noteq> 0" by (metis eq_iff_diff_eq_0)
        then have pos: "0 < unat (rem - layout_size ?l)" by (simp add: unat_gt_0)
        have room: "block_len b = arena_room ?a"
          using b(5) [rule_format, OF False] b(3) by (auto simp: block_whole_def block_in_def arena_room_def)
        have more: "slow_loop cap h l (d # ds) rem blocks s =
          slow_loop cap h l ds (rem - layout_size ?l) (blocks @ [b]) (bump_move i (range_start b) s)"
          unfolding loop using ne by (rule if_not_P)
        have left: "unat (rem - layout_size ?l) = unat rem - block_len b" unfolding b(4) by (rule nat)
        show ?thesis
          by (rule More [OF more b(3) b(5) [rule_format, OF False] b(6,7) [folded b(2)] left pos room])
      qed
    qed
  qed
qed

text \<open>
  What the loop achieves from state \<open>s\<close> to \<open>s'\<close> with the blocks \<open>tbs\<close>: everything that remained, or else whole
  arenas only, and then \<open>room\<close>, the usable bytes of the arenas it saw, did not suffice.
\<close>

definition slow_result ::
  "Layout \<Rightarrow> BumpAllocator \<Rightarrow> nat \<Rightarrow> nat \<Rightarrow> bool \<Rightarrow> (nat \<times> addr_range) list \<Rightarrow> BumpAllocator \<Rightarrow> bool" where
  "slow_result l s rem room c tbs s' \<longleftrightarrow>
     bump_ok s' \<and> ba_min_align s' = ba_min_align s \<and>
     taken (block_in (unat (ba_min_align s)) (unat (layout_align l))) tbs (ba_arenas s) (ba_arenas s') \<and>
     (if c then sum_list (map (\<lambda>t. block_len (snd t)) tbs) = rem
      else taken (\<lambda>a b. block_in (unat (ba_min_align s)) (unat (layout_align l)) a b \<and> block_whole a b) tbs
             (ba_arenas s) (ba_arenas s') \<and>
           (layout_align l \<le> ba_min_align s \<longrightarrow> room < rem))"

lemma slow_result_cons:
  assumes "slow_result l (bump_move i (range_start b) s) rem' room' c tbs s'" "i < length (ba_arenas s)"
    "block_in (unat (ba_min_align s)) (unat (layout_align l)) (ba_arenas s ! i) b" "block_whole (ba_arenas s ! i) b"
    "rem' = rem - block_len b" "0 < rem'" "room = block_len b + room'"
  shows "slow_result l s rem room c ((i, b) # tbs) s'"
  using assms by (auto simp: slow_result_def bump_move_def split: if_splits)

lemma slow_loop_ok:
  assumes "wf_layout l" "bump_ok s" "bump_headroom l s" "0 < unat rem" "unat rem \<le> unat (layout_size l)"
    "distinct (map (\<lambda>d. (h + d) mod n) ds)" "n = length (ba_arenas s)" "length blocks + length ds \<le> cap"
  shows "\<exists>c tbs s'. slow_loop cap h l ds rem blocks s = Some (c, blocks @ map snd tbs, s') \<and>
    slow_result l s (unat rem) (\<Sum>d\<leftarrow>ds. arena_room (ba_arenas s ! ((h + d) mod n))) c tbs s'"
  using assms(2-)
proof (induction ds arbitrary: rem blocks s)
  case Nil
  then show ?case
    by (intro exI [of _ False] exI [of _ "[]"] exI [of _ s]) (simp add: slow_result_def)
next
  case (Cons d ds)
  let ?i = "(h + d) mod n" and ?g = "ba_min_align s"
  have i: "?i < length (ba_arenas s)"
    using Cons.prems(1,6) by (auto simp: bump_ok_def intro: mod_less_divisor)
  have len: "length blocks < cap" using Cons.prems(7) by simp
  have other: "(h + e) mod n \<noteq> ?i" if "e \<in> set ds" for e
    using Cons.prems(5) that by (auto simp: image_iff)
  consider (Skip) "slow_loop cap h l (d # ds) rem blocks s = slow_loop cap h l ds rem blocks s"
      "layout_align l \<le> ?g \<longrightarrow> arena_room (ba_arenas s ! ?i) = 0"
    | (Done) b where "slow_loop cap h l (d # ds) rem blocks s = Some (True, blocks @ [b], bump_move ?i (range_start b) s)"
      "block_in (unat ?g) (unat (layout_align l)) (ba_arenas s ! ?i) b" "block_len b = unat rem"
      "bump_ok (bump_move ?i (range_start b) s)"
    | (More) b rem' where "slow_loop cap h l (d # ds) rem blocks s =
        slow_loop cap h l ds rem' (blocks @ [b]) (bump_move ?i (range_start b) s)"
      "block_in (unat ?g) (unat (layout_align l)) (ba_arenas s ! ?i) b" "block_whole (ba_arenas s ! ?i) b"
      "bump_ok (bump_move ?i (range_start b) s)" "bump_headroom l (bump_move ?i (range_start b) s)"
      "unat rem' = unat rem - block_len b" "0 < unat rem'" "block_len b = arena_room (ba_arenas s ! ?i)"
    using slow_loop_step [OF Cons.prems(1) assms(1) Cons.prems(2-4) len, of h d ds] Cons.prems(6) by metis
  then show ?case
  proof cases
    case Skip
    obtain c tbs s' where *: "slow_loop cap h l ds rem blocks s = Some (c, blocks @ map snd tbs, s')"
      "slow_result l s (unat rem) (\<Sum>d\<leftarrow>ds. arena_room (ba_arenas s ! ((h + d) mod n))) c tbs s'"
      using Cons.IH [of s rem blocks] Cons.prems by fastforce
    then have "slow_result l s (unat rem) (\<Sum>d\<leftarrow>d # ds. arena_room (ba_arenas s ! ((h + d) mod n))) c tbs s'"
      using Skip(2) by (auto simp: slow_result_def)
    then show ?thesis using * Skip(1) by metis
  next
    case Done
    have "slow_result l s (unat rem) room True [(?i, b)] (bump_move ?i (range_start b) s)" for room
      using Done i by (simp add: slow_result_def bump_move_def)
    then show ?thesis
      using Done(1) by (intro exI [of _ True] exI [of _ "[(?i, b)]"] exI) auto
  next
    case More
    let ?s = "bump_move ?i (range_start b) s"
    have room: "(\<Sum>d\<leftarrow>ds. arena_room (ba_arenas ?s ! ((h + d) mod n))) = (\<Sum>d\<leftarrow>ds. arena_room (ba_arenas s ! ((h + d) mod n)))"
      using other by (intro arg_cong [of _ _ sum_list] map_cong) simp_all
    have "unat rem' \<le> unat (layout_size l)" using More(6) Cons.prems(4) by linarith
    then obtain c tbs s' where *: "slow_loop cap h l ds rem' (blocks @ [b]) ?s = Some (c, (blocks @ [b]) @ map snd tbs, s')"
      "slow_result l ?s (unat rem') (\<Sum>d\<leftarrow>ds. arena_room (ba_arenas s ! ((h + d) mod n))) c tbs s'"
      using Cons.IH [OF More(4,5,7), of "blocks @ [b]"] Cons.prems(5-7) room by auto
    have "slow_result l s (unat rem) (\<Sum>d\<leftarrow>d # ds. arena_room (ba_arenas s ! ((h + d) mod n))) c ((?i, b) # tbs) s'"
      by (rule slow_result_cons [OF *(2) i More(2,3,6,7)]) (simp add: More(8))
    then show ?thesis
      using *(1) More(1) by (intro exI [of _ c] exI [of _ "(?i, b) # tbs"] exI [of _ s']) simp
  qed
qed

end
