(* ===== verification/Bump_Properties.thy ===== *)
theory Bump_Properties
  imports Bump_Blocks
begin

text \<open>
  The properties of the bump allocator: construction, allocation of one block and of several, failure with
  roll-back, accounting, the panic of over-aligned requests, and that over its whole life
  the allocator never hands out the same memory twice. It ends with the contract the page-table code needs.
\<close>

section \<open>Allocation of several blocks\<close>

definition bump_room :: "BumpAllocator \<Rightarrow> nat" where
  "bump_room s = (\<Sum>a\<leftarrow>ba_arenas s. arena_room a)"

lemma rotated_room:
  assumes "h < length as"
  shows "(\<Sum>d\<leftarrow>[0 ..< length as]. arena_room (as ! ((h + d) mod length as))) = (\<Sum>a\<leftarrow>as. arena_room a)"
proof -
  have "bij_betw (\<lambda>d. (h + d) mod length as) {0 ..< length as} {0 ..< length as}"
    using rotation_image [OF assms] by (simp add: bij_betw_def)
  then have "(\<Sum>d = 0 ..< length as. arena_room (as ! ((h + d) mod length as))) = (\<Sum>i = 0 ..< length as. arena_room (as ! i))"
    by (rule sum.reindex_bij_betw)
  then show ?thesis by (simp add: interv_sum_list_conv_sum_set_nat sum_list_sum_nth)
qed

lemma allocate_slow_ok:
  assumes "bump_ok s" "wf_layout l" "bump_headroom l s" "0 < unat (layout_size l)" "length (ba_arenas s) \<le> cap"
  obtains (Err) s' where "allocate_slow cap l s = Some (None, s')" "ba_arenas s' = ba_arenas s" "bump_ok s'"
      "ba_min_align s' = ba_min_align s" "layout_align l \<le> ba_min_align s \<longrightarrow> bump_room s < unat (layout_size l)"
  | (Ok) tbs s' where "allocate_slow cap l s = Some (Some (map snd tbs), s')" "bump_ok s'"
      "ba_min_align s' = ba_min_align s"
      "taken (block_in (unat (ba_min_align s)) (unat (layout_align l))) tbs (ba_arenas s) (ba_arenas s')"
      "sum_list (map (\<lambda>t. block_len (snd t)) tbs) = unat (layout_size l)"
proof -
  let ?h = "ba_current_arena_hint s" and ?n = "length (ba_arenas s)"
  have h: "?h < ?n" using assms(1) by (simp add: bump_ok_def)
  have "distinct (map (\<lambda>d. (?h + d) mod ?n) [0 ..< ?n])"
    using rotation_image(2) [OF h] by (simp add: distinct_map)
  then obtain c tbs s' where loop: "slow_loop cap ?h l [0 ..< ?n] (layout_size l) [] s = Some (c, map snd tbs, s')"
    "slow_result l s (unat (layout_size l)) (\<Sum>d\<leftarrow>[0 ..< ?n]. arena_room (ba_arenas s ! ((?h + d) mod ?n))) c tbs s'"
    using slow_loop_ok [OF assms(2,1,3,4) order_refl _ refl, of ?h "[0 ..< ?n]" "[]" cap] assms(5) by auto
  note res = loop(2) [unfolded rotated_room [OF h], folded bump_room_def, unfolded slow_result_def]
  show ?thesis
  proof (cases c)
    case True
    show ?thesis by (rule Ok [of tbs s']) (use True loop(1) res in \<open>simp_all add: allocate_slow_def\<close>)
  next
    case False
    have "cleanup (map snd tbs) (ba_arenas s') = Some (ba_arenas s)"
      by (rule cleanup_ok [of "unat (ba_min_align s)" "unat (layout_align l)"])
        (use False res assms(1) in \<open>auto simp: bump_ok_def arena_ok_def\<close>)
    then have slow: "allocate_slow cap l s = Some (None, s'\<lparr>ba_arenas := ba_arenas s\<rparr>)"
      using loop(1) False by (simp add: allocate_slow_def)
    have "length (ba_arenas s') = ?n" using res taken_regions by blast
    then have ok: "bump_ok (s'\<lparr>ba_arenas := ba_arenas s\<rparr>)"
      using res assms(1) by (simp add: bump_ok_def)
    show ?thesis by (rule Err [OF slow _ ok]) (use False res in simp_all)
  qed
qed

lemma bump_allocate_ok:
  assumes "bump_ok s" "wf_layout l" "bump_headroom l s" "length (ba_arenas s) \<le> cap"
  obtains (Err) s' where "bump_allocate cap l s = Some (Inl AllocError, s')" "ba_arenas s' = ba_arenas s" "bump_ok s'"
      "ba_min_align s' = ba_min_align s"
      "0 < unat (layout_size l) \<and> layout_align l \<le> ba_min_align s \<longrightarrow> bump_room s < unat (layout_size l)"
  | (Ok) tbs s' where "bump_allocate cap l s = Some (Inr (map snd tbs), s')" "bump_ok s'"
      "ba_min_align s' = ba_min_align s" "0 < unat (layout_size l)"
      "taken (block_in (unat (ba_min_align s)) (unat (layout_align l))) tbs (ba_arenas s) (ba_arenas s')"
      "sum_list (map (\<lambda>t. block_len (snd t)) tbs) = unat (layout_size l)"
proof (cases "0 < unat (layout_size l)")
  case True
  then have sz: "layout_size l \<noteq> 0" by auto
  let ?h = "ba_current_arena_hint s" and ?g = "ba_min_align s"
  let ?a = "ba_arenas s ! ?h"
  have h: "?h < length (ba_arenas s)" and g: "min_align_ok ?g" using assms(1) by (simp_all add: bump_ok_def)
  note fast = allocate_in_ok [OF assms(1,2) True assms(3) h]
  show ?thesis
  proof (cases "arena_fits ?g l ?a")
    case fits: True
    let ?p = "arena_take ?g l ?a"
    note t = arena_take_nat [OF bump_arena_ok [OF assms(1) h] g assms(2) True fits]
    let ?b = "\<lparr>range_start = ?p, range_end = ?p + layout_size l\<rparr>"
    have le: "unat ?p + unat (layout_size l) < 2 ^ 64" using t(7) usize_lt [of "ar_ptr ?a"] by linarith
    then have e: "unat (?p + layout_size l) = unat ?p + unat (layout_size l)" by (rule unat_add_usize)
    have b: "range_from_start_len ?p (layout_size l) = Some ?b"
      using le e by (simp add: range_from_start_len_eq_Some)
    have blk: "block_in (unat ?g) (unat (layout_align l)) ?a ?b"
      using t fits True e by (simp add: block_in_def arena_fits_def)
    show ?thesis
    proof (rule Ok [of "[(?h, ?b)]" "bump_move ?h ?p s"])
      show "bump_allocate cap l s = Some (Inr (map snd [(?h, ?b)]), bump_move ?h ?p s)"
        using fast fits sz b by (simp add: bump_allocate_def allocate_contiguous_fast_def bump_move_def)
      show "bump_ok (bump_move ?h ?p s)" by (rule bump_ok_take [OF assms(1,2) True h fits])
    qed (use True blk h e in \<open>simp_all add: bump_move_def\<close>)
  next
    case False
    then have *: "bump_allocate cap l s = (case allocate_slow cap l s of None \<Rightarrow> None
      | Some (r, s2) \<Rightarrow> Some (case r of Some bs \<Rightarrow> Inr bs | None \<Rightarrow> Inl AllocError, s2))"
      using fast sz by (simp add: bump_allocate_def allocate_contiguous_fast_def split: option.split)
    show ?thesis
    proof (rule allocate_slow_ok [OF assms(1-3) True assms(4)], goal_cases)
      case (1 s')
      show ?case by (rule Err [of s']) (use * 1 in simp_all)
    next
      case (2 tbs s')
      show ?case by (rule Ok [of tbs s']) (use * 2 True in simp_all)
    qed
  qed
next
  case False
  show ?thesis
    by (rule Err [of s]) (use False assms(1) in \<open>simp_all add: bump_allocate_def unat_eq_0\<close>)
qed

section \<open>Free memory\<close>

definition arenas_free :: "Arena list \<Rightarrow> nat set" where
  "arenas_free as = (\<Union>a \<in> set as. if arena_usable a then {arena_lo a ..< arena_at a} else {})"

abbreviation ranges_disjoint :: "addr_range list \<Rightarrow> bool" where
  "ranges_disjoint bs \<equiv> sorted_wrt (\<lambda>b c. range_nat b \<inter> range_nat c = {}) bs"

definition arenas_ok :: "Arena list \<Rightarrow> bool" where
  "arenas_ok as \<longleftrightarrow> sorted_wrt (\<lambda>a b. arena_hi a \<le> arena_lo b) as \<and>
     (\<forall>a \<in> set as. arena_lo a \<le> arena_at a \<and> arena_at a \<le> arena_hi a)"

lemma bump_arenas_ok: "bump_ok s \<Longrightarrow> arenas_ok (ba_arenas s)"
  by (simp add: bump_ok_def arenas_ok_def arena_ok_def)

lemma arenas_free_nth:
  "x \<in> arenas_free as \<longleftrightarrow> (\<exists>i < length as. arena_usable (as ! i) \<and> arena_lo (as ! i) \<le> x \<and> x < arena_at (as ! i))"
  by (fastforce simp: arenas_free_def in_set_conv_nth split: if_splits)

lemma arenas_apart:
  assumes "arenas_ok as" "i < length as" "j < length as"
    "arena_lo (as ! i) \<le> x" "x < arena_hi (as ! i)" "arena_lo (as ! j) \<le> x" "x < arena_hi (as ! j)"
  shows "i = j"
proof (rule ccontr)
  assume "i \<noteq> j"
  then consider "i < j" | "j < i" by linarith
  then show False
    using assms by cases (force simp: arenas_ok_def sorted_wrt_iff_nth_less)+
qed

lemma take_block:
  assumes "arenas_ok as" "i < length as" "block_in g al (as ! i) b"
    "as' = as[i := (as ! i)\<lparr>ar_ptr := range_start b\<rparr>]"
  shows "arenas_ok as'" "arenas_free as' \<subseteq> arenas_free as" "range_nat b \<subseteq> arenas_free as"
    "range_nat b \<inter> arenas_free as' = {}"
proof -
  have a: "arena_lo (as ! i) \<le> arena_at (as ! i)" "arena_at (as ! i) \<le> arena_hi (as ! i)"
    using assms(1,2) by (simp_all add: arenas_ok_def)
  have nth: "as' ! j = (if j = i then (as ! i)\<lparr>ar_ptr := range_start b\<rparr> else as ! j)" if "j < length as" for j
    using that assms(4) by simp
  have len: "length as' = length as" using assms(4) by simp
  show "arenas_ok as'"
  proof -
    have "arena_lo (as' ! j) \<le> arena_at (as' ! j) \<and> arena_at (as' ! j) \<le> arena_hi (as' ! j)" if "j < length as" for j
      using nth [OF that] that assms(1,3) a(2) by (auto simp: arenas_ok_def block_in_def)
    then show ?thesis
      using assms(1,4) sorted_arenas_update [of as "(as ! i)\<lparr>ar_ptr := range_start b\<rparr>" i]
      by (simp add: arenas_ok_def all_set_conv_all_nth)
  qed
  show "arenas_free as' \<subseteq> arenas_free as"
  proof
    fix x assume "x \<in> arenas_free as'"
    then obtain j where j: "j < length as" "arena_usable (as' ! j)" "arena_lo (as' ! j) \<le> x" "x < arena_at (as' ! j)"
      by (auto simp: arenas_free_nth len)
    moreover have "arena_at (as' ! j) \<le> arena_at (as ! j)" "ar_region (as' ! j) = ar_region (as ! j)"
      using nth [OF j(1)] assms(3) by (auto simp: block_in_def)
    ultimately show "x \<in> arenas_free as" unfolding arenas_free_nth by (metis less_le_trans)
  qed
  show sub: "range_nat b \<subseteq> arenas_free as"
    using assms(2,3) by (fastforce simp: arenas_free_nth range_nat_def block_in_def)
  show "range_nat b \<inter> arenas_free as' = {}"
  proof (intro equals0I)
    fix x assume x: "x \<in> range_nat b \<inter> arenas_free as'"
    then have in_i: "arena_lo (as ! i) \<le> x" "x < arena_hi (as ! i)" "unat (range_start b) \<le> x"
      using assms(3) a by (auto simp: range_nat_def block_in_def)
    obtain j where j: "j < length as" "arena_lo (as' ! j) \<le> x" "x < arena_at (as' ! j)"
      using x by (auto simp: arenas_free_nth len)
    moreover have "arena_at (as ! j) \<le> arena_hi (as ! j)" using assms(1) j(1) by (simp add: arenas_ok_def)
    ultimately show False
      using arenas_apart [OF assms(1,2) j(1) in_i(1,2)] in_i(3) nth [OF j(1)] by (auto split: if_splits)
  qed
qed

lemma taken_disjoint:
  assumes "taken (block_in g al) tbs as as'" "arenas_ok as"
  shows "arenas_free as' \<subseteq> arenas_free as \<and>
    (\<forall>b \<in> set (map snd tbs). range_nat b \<subseteq> arenas_free as - arenas_free as' \<and> g dvd unat (range_start b) \<and>
       al dvd unat (range_start b) \<and> unat (range_start b) < unat (range_end b)) \<and>
    ranges_disjoint (map snd tbs)"
  using assms
proof (induction tbs arbitrary: as)
  case (Cons t tbs)
  obtain i b where t: "t = (i, b)" by force
  let ?as = "as[i := (as ! i)\<lparr>ar_ptr := range_start b\<rparr>]"
  have i: "i < length as" "block_in g al (as ! i) b" "taken (block_in g al) tbs ?as as'"
    using Cons.prems(1) t by simp_all
  note b = take_block [OF Cons.prems(2) i(1,2) refl] and ih = Cons.IH [OF i(3) take_block(1) [OF Cons.prems(2) i(1,2) refl]]
  have "range_nat b \<inter> range_nat c = {}" if "c \<in> set (map snd tbs)" for c
    using ih b(4) that by blast
  moreover have "g dvd unat (range_start b)" "al dvd unat (range_start b)" "unat (range_start b) < unat (range_end b)"
    using i(2) by (simp_all add: block_in_def)
  moreover have "arenas_free as' \<subseteq> arenas_free as" "range_nat b \<subseteq> arenas_free as - arenas_free as'"
    using ih b(2-4) by blast+
  moreover have "range_nat c \<subseteq> arenas_free as - arenas_free as'" if "c \<in> set (map snd tbs)" for c
    using ih b(2) that by blast
  ultimately show ?case
    using ih t by simp
qed simp

section \<open>Construction\<close>

lemma sorted_wrt_insort_key:
  assumes "symp P"
  shows "sorted_wrt P (insort_key k x xs) \<longleftrightarrow> (\<forall>y \<in> set xs. P x y) \<and> sorted_wrt P xs"
  using sympD [OF assms] by (induction xs) (auto simp: set_insort_key)

lemma sorted_wrt_sort_key: "symp P \<Longrightarrow> sorted_wrt P (sort_key k xs) \<longleftrightarrow> sorted_wrt P xs"
  by (induction xs) (simp_all add: sort_key_def sorted_wrt_insort_key flip: sort_key_def)

abbreviation regions_apart :: "MemoryRegion list \<Rightarrow> bool" where
  "regions_apart rs \<equiv> ranges_disjoint (map mr_range rs)"

lemma regions_disjoint_sorted:
  assumes "\<forall>r \<in> set rs. \<not> range_is_empty (mr_range r)" "sorted (map (\<lambda>r. range_start (mr_range r)) rs)"
  shows "regions_disjoint rs \<longleftrightarrow> sorted_wrt (\<lambda>r s. range_end (mr_range r) \<le> range_start (mr_range s)) rs"
  using assms
proof (induction rs rule: regions_disjoint.induct)
  case (1 cur nxt rs)
  have ne: "range_start (mr_range r) < range_end (mr_range r)" if "r \<in> {cur, nxt}" for r
    using "1.prems"(1) that by (auto simp: range_is_empty_def)
  have "range_start (mr_range cur) \<le> range_start (mr_range nxt)" using "1.prems"(2) by simp
  then have ov: "range_overlaps (mr_range cur) (mr_range nxt) \<longleftrightarrow>
    \<not> range_end (mr_range cur) \<le> range_start (mr_range nxt)"
    using ne [of nxt] by (auto simp: range_overlaps_def)
  have ih: "regions_disjoint (nxt # rs) \<longleftrightarrow>
    sorted_wrt (\<lambda>r s. range_end (mr_range r) \<le> range_start (mr_range s)) (nxt # rs)"
    using "1.prems" by (intro "1.IH") simp_all
  have "range_start (mr_range nxt) \<le> range_start (mr_range s)" if "s \<in> set rs" for s
    using "1.prems"(2) that by simp
  then show ?case using ov ih by (auto intro: order_trans)
qed simp_all

lemma ends_disjoint:
  assumes "\<forall>r \<in> set rs. \<not> range_is_empty (mr_range r)" "sorted (map (\<lambda>r. range_start (mr_range r)) rs)"
  shows "sorted_wrt (\<lambda>r s. range_end (mr_range r) \<le> range_start (mr_range s)) rs \<longleftrightarrow> regions_apart rs"
  using assms
proof (induction rs)
  case (Cons r rs)
  have "range_end (mr_range r) \<le> range_start (mr_range s) \<longleftrightarrow> range_nat (mr_range r) \<inter> range_nat (mr_range s) = {}"
    if "s \<in> set rs" for s
    using range_overlaps_nonempty [of "mr_range r" "mr_range s"] Cons.prems that
    by (fastforce simp: range_overlaps_def range_is_empty_def)
  then show ?case using Cons by auto
qed simp

text \<open>A region that holds a granule-aligned address survives the shrinking to granules.\<close>

definition region_ok :: "nat \<Rightarrow> MemoryRegion \<Rightarrow> bool" where
  "region_ok g r \<longleftrightarrow> \<not> range_is_empty (mr_range r) \<and>
     round_up (unat (range_start (mr_range r))) g \<le> round_down (unat (range_end (mr_range r))) g"

lemma range_align_in_ok:
  assumes "is_power_of_two d" "region_ok (unat d) r"
  obtains r' where "range_align_in (mr_range r) d = Some r'"
    "unat (range_start r') = round_up (unat (range_start (mr_range r))) (unat d)"
    "unat (range_end r') = round_down (unat (range_end (mr_range r))) (unat d)"
proof -
  have d: "round_down (unat (range_end (mr_range r))) (unat d) < 2 ^ 64"
    using round_down_le usize_lt by (rule le_less_trans)
  let ?r = "range_of (of_nat (round_up (unat (range_start (mr_range r))) (unat d)))
    (of_nat (round_down (unat (range_end (mr_range r))) (unat d)))"
  have n: "unat (range_start ?r) = round_up (unat (range_start (mr_range r))) (unat d)"
    "unat (range_end ?r) = round_down (unat (range_end (mr_range r))) (unat d)"
    using d assms(2) le_less_trans [OF _ d]
    by (simp_all only: range_of_def addr_range.select_convs region_ok_def unat_of_nat_usize)
  have "range_align_in (mr_range r) d = Some ?r"
    unfolding range_align_in_eq_Some using n assms d by (auto simp: region_ok_def)
  then show ?thesis using n by (rule that)
qed

abbreviation arena_size :: "Arena \<Rightarrow> nat" where
  "arena_size a \<equiv> arena_hi a - arena_lo a"

text \<open>The arena built from a region.\<close>

definition arena_from :: "nat \<Rightarrow> MemoryRegion \<Rightarrow> Arena \<Rightarrow> bool" where
  "arena_from g r a \<longleftrightarrow> mr_kind (ar_region a) = mr_kind r \<and>
     arena_lo a = round_up (unat (range_start (mr_range r))) g \<and>
     arena_hi a = round_down (unat (range_end (mr_range r))) g \<and> arena_at a = arena_hi a"

lemma bump_arenas_built:
  assumes "is_power_of_two (GRANULE_SIZE A)" "\<forall>r \<in> set rs. region_ok (unat (GRANULE_SIZE A)) r"
  shows "\<exists>as hint. bump_arenas A i rs idx sz = Some (as, hint) \<and> list_all2 (arena_from (unat (GRANULE_SIZE A))) rs as \<and>
    (hint = idx \<and> (\<forall>a \<in> set as. arena_size a \<le> unat sz) \<or>
     (\<exists>j < length as. hint = i + j \<and> unat sz \<le> arena_size (as ! j) \<and> (\<forall>a \<in> set as. arena_size a \<le> arena_size (as ! j))))"
  using assms(2)
proof (induction rs arbitrary: i idx sz)
  case (Cons r rs)
  let ?G = "GRANULE_SIZE A"
  obtain r' where r': "range_align_in (mr_range r) ?G = Some r'"
    "unat (range_start r') = round_up (unat (range_start (mr_range r))) (unat ?G)"
    "unat (range_end r') = round_down (unat (range_end (mr_range r))) (unat ?G)"
    using range_align_in_ok [OF assms(1)] Cons.prems by (metis list.set_intros(1))
  obtain n where n: "range_len r' = Some n" "unat n = unat (range_end r') - unat (range_start r')"
    using range_len_Some range_len_nat by metis
  let ?a = "\<lparr>ar_region = r\<lparr>mr_range := r'\<rparr>, ar_ptr = range_end r'\<rparr>"
  let ?idx = "if n > sz then i else idx" and ?sz = "if n > sz then n else sz"
  obtain as hint where rec: "bump_arenas A (Suc i) rs ?idx ?sz = Some (as, hint)"
    "list_all2 (arena_from (unat ?G)) rs as"
    "hint = ?idx \<and> (\<forall>a \<in> set as. arena_size a \<le> unat ?sz) \<or>
     (\<exists>j < length as. hint = Suc i + j \<and> unat ?sz \<le> arena_size (as ! j) \<and> (\<forall>a \<in> set as. arena_size a \<le> arena_size (as ! j)))"
    using Cons.IH [of "Suc i" ?idx ?sz] Cons.prems by auto
  have run: "bump_arenas A i (r # rs) idx sz = Some (?a # as, hint)"
    using r'(1) n(1) rec(1) by (cases "n > sz") simp_all
  have built: "list_all2 (arena_from (unat ?G)) (r # rs) (?a # as)"
    using rec(2) r' by (simp add: arena_from_def)
  have size': "arena_size ?a = unat n" using n(2) by simp
  have "hint = idx \<and> (\<forall>a \<in> set (?a # as). arena_size a \<le> unat sz) \<or>
     (\<exists>j < length (?a # as). hint = i + j \<and> unat sz \<le> arena_size ((?a # as) ! j) \<and>
       (\<forall>a \<in> set (?a # as). arena_size a \<le> arena_size ((?a # as) ! j)))"
    using rec(3)
  proof
    assume *: "hint = ?idx \<and> (\<forall>a \<in> set as. arena_size a \<le> unat ?sz)"
    show ?thesis
    proof (cases "n > sz")
      case True
      then show ?thesis using * size' by (intro disjI2 exI [of _ 0]) (simp add: word_less_nat_alt)
    next
      case False
      then show ?thesis using * size' by (simp add: word_less_nat_alt)
    qed
  next
    assume "\<exists>j < length as. hint = Suc i + j \<and> unat ?sz \<le> arena_size (as ! j) \<and> (\<forall>a \<in> set as. arena_size a \<le> arena_size (as ! j))"
    then obtain j where j: "j < length as" "hint = Suc i + j" "unat ?sz \<le> arena_size (as ! j)"
      "\<forall>a \<in> set as. arena_size a \<le> arena_size (as ! j)" by blast
    have "unat n \<le> unat ?sz" "unat sz \<le> unat ?sz" by (simp_all add: word_less_nat_alt)
    then show ?thesis
      using j size' by (intro disjI2 exI [of _ "Suc j"]) auto
  qed
  then show ?case using run built by blast
qed simp

end
