(* ===== verification/Bump_Life.thy ===== *)
theory Bump_Life
  imports Bump_Properties Space_Blocks
begin

text \<open>
  The life of a bump allocator: what the constructor accepts and establishes, the accounting of
  bytes, sequences of allocations, and the contract \<open>granule_allocator\<close> that the page-table code needs, with
  the properties of the allocator.
\<close>

section \<open>The constructor\<close>

lemma granule_align_ok: "wf_arch A \<Longrightarrow> min_align_ok (GRANULE_SIZE A)"
proof -
  assume "wf_arch A"
  then obtain k where k: "k < 56" "GRANULE_SIZE A = 2 ^ k" using GRANULE_SIZE_pow2 by metis
  then have "(2::nat) ^ k \<le> 2 ^ 56" by (intro power_increasing) simp_all
  then show ?thesis using k by (simp add: min_align_ok_def is_power_of_two_pow2)
qed

lemma built_arenas_ok:
  assumes "list_all2 (arena_from g) rs as" "0 < g" "\<forall>r \<in> set rs. region_ok g r"
    "sorted_wrt (\<lambda>r s. range_end (mr_range r) \<le> range_start (mr_range s)) rs"
  shows "\<forall>a \<in> set as. arena_ok g a" "sorted_wrt (\<lambda>a b. arena_hi a \<le> arena_lo b) as"
proof -
  have len: "length as = length rs" using assms(1) by (simp add: list_all2_lengthD)
  have nth: "arena_from g (rs ! i) (as ! i)" "region_ok g (rs ! i)" if "i < length rs" for i
    using that assms(1,3) by (simp_all add: list_all2_nthD)
  show "\<forall>a \<in> set as. arena_ok g a"
    unfolding all_set_conv_all_nth len using nth by (simp add: arena_from_def region_ok_def arena_ok_def)
  show "sorted_wrt (\<lambda>a b. arena_hi a \<le> arena_lo b) as"
    unfolding sorted_wrt_iff_nth_less len
  proof (intro allI impI)
    fix i j assume ij: "i < j" "j < length rs"
    then have "unat (range_end (mr_range (rs ! i))) \<le> unat (range_start (mr_range (rs ! j)))"
      using assms(4) by (simp add: sorted_wrt_iff_nth_less word_le_nat_alt)
    moreover have "arena_hi (as ! i) \<le> unat (range_end (mr_range (rs ! i)))"
      using nth [of i] ij by (simp add: arena_from_def round_down_le)
    moreover have "unat (range_start (mr_range (rs ! j))) \<le> arena_lo (as ! j)"
      using nth [of j] ij assms(2) by (simp add: arena_from_def round_up_ge)
    ultimately show "arena_hi (as ! i) \<le> arena_lo (as ! j)" by linarith
  qed
qed

lemma built_free:
  assumes "list_all2 (arena_from g) rs as"
  shows "arenas_free as = (\<Union>r \<in> set rs. if kind_is_usable (mr_kind r)
    then {round_up (unat (range_start (mr_range r))) g ..< round_down (unat (range_end (mr_range r))) g} else {})"
  using assms by (induction rule: list_all2_induct) (auto simp: arenas_free_def arena_from_def)

lemma bump_new_built:
  assumes "wf_arch A" "rs \<noteq> []" "\<forall>r \<in> set rs. region_ok (unat (GRANULE_SIZE A)) r"
  shows "if length rs \<le> cap \<and> regions_apart rs
    then \<exists>s. bump_new A cap rs = Some s \<and> bump_ok s \<and> ba_min_align s = GRANULE_SIZE A \<and> length (ba_arenas s) = length rs \<and>
      list_all2 (arena_from (unat (GRANULE_SIZE A))) (sort_key (\<lambda>r. range_start (mr_range r)) rs) (ba_arenas s) \<and>
      (\<forall>a \<in> set (ba_arenas s). arena_size a \<le> arena_size (ba_arenas s ! ba_current_arena_hint s))
    else bump_new A cap rs = None"
proof -
  let ?G = "GRANULE_SIZE A" and ?rs = "sort_key (\<lambda>r. range_start (mr_range r)) rs"
  note g = granule_align_ok [OF assms(1)]
  then have pow: "is_power_of_two ?G" by (simp add: min_align_ok_def)
  have pos: "0 < unat ?G" using GRANULE_SIZE_words(3) [OF assms(1)] .
  then have G0: "?G \<noteq> 0" by auto
  have one: "?rs = rs" if "\<not> length rs > 1" using that by (cases rs) auto
  have set': "\<forall>r \<in> set ?rs. region_ok (unat ?G) r" using assms(3) by simp
  have ne: "\<forall>r \<in> set ?rs. \<not> range_is_empty (mr_range r)" using assms(3) by (simp add: region_ok_def)
  have srt: "sorted (map (\<lambda>r. range_start (mr_range r)) ?rs)" by simp
  have apart: "regions_disjoint ?rs \<longleftrightarrow> regions_apart rs"
  proof -
    have "symp (\<lambda>r s. range_nat (mr_range r) \<inter> range_nat (mr_range s) = {})" by (auto intro: sympI)
    from sorted_wrt_sort_key [OF this] show ?thesis
      unfolding regions_disjoint_sorted [OF ne srt] ends_disjoint [OF ne srt] by (simp add: sorted_wrt_map)
  qed
  have single: "regions_apart rs" if "\<not> length rs > 1" using that assms(2) by (cases rs) auto
  obtain as hint where built: "bump_arenas A 0 ?rs 0 0 = Some (as, hint)" "list_all2 (arena_from (unat ?G)) ?rs as"
    "hint = 0 \<and> (\<forall>a \<in> set as. arena_size a \<le> unat (0 :: usize)) \<or>
     (\<exists>j < length as. hint = 0 + j \<and> (\<forall>a \<in> set as. arena_size a \<le> arena_size (as ! j)))"
    using bump_arenas_built [OF pow set', of 0 0 0] by blast
  have len: "length as = length rs" using list_all2_lengthD [OF built(2)] by simp
  have hint: "hint < length as" "\<forall>a \<in> set as. arena_size a \<le> arena_size (as ! hint)"
    using built(3) len assms(2) by auto
  let ?s = "\<lparr>ba_arenas = as, ba_current_arena_hint = hint, ba_min_align = ?G\<rparr>"
  have new: "bump_new A cap rs = (if length rs \<le> cap \<and> regions_apart rs then Some ?s else None)"
    using built(1) len one apart single G0 by (cases "length rs > 1") (auto simp: bump_new_def)
  have "bump_ok ?s" if "regions_apart rs"
  proof -
    have "sorted_wrt (\<lambda>r s. range_end (mr_range r) \<le> range_start (mr_range s)) ?rs"
      using that apart regions_disjoint_sorted [OF ne srt] by simp
    from built_arenas_ok [OF built(2) pos set' this] show ?thesis
      using g hint(1) by (simp add: bump_ok_def)
  qed
  then show ?thesis using new built(2) len hint(2) by simp
qed

section \<open>Accounting\<close>

lemma arena_sizes_bounded:
  assumes "sorted_wrt (\<lambda>a b. arena_hi a \<le> arena_lo b) as" "\<forall>a \<in> set as. arena_lo a \<le> arena_hi a \<and> m \<le> arena_lo a" "m < 2 ^ 64"
  shows "m + (\<Sum>a\<leftarrow>as. arena_size a) < 2 ^ 64"
  using assms
proof (induction as arbitrary: m)
  case (Cons a as)
  have "arena_hi a + (\<Sum>a\<leftarrow>as. arena_size a) < 2 ^ 64"
    using Cons.prems(1,2) usize_lt by (intro Cons.IH) simp_all
  moreover have "m \<le> arena_lo a" "arena_lo a \<le> arena_hi a" using Cons.prems(2) by simp_all
  moreover have "(\<Sum>a\<leftarrow>a # as. arena_size a) = arena_size a + (\<Sum>a\<leftarrow>as. arena_size a)" by simp
  ultimately show ?case by linarith
qed simp

lemma usize_sum_ok:
  "unat acc + (\<Sum>x\<leftarrow>xs. unat x) < 2 ^ 64 \<Longrightarrow>
     \<exists>n. usize_sum xs acc = Some n \<and> unat n = unat acc + (\<Sum>x\<leftarrow>xs. unat x)"
proof (induction xs arbitrary: acc)
  case (Cons x xs)
  then have lt: "unat acc + unat x < 2 ^ 64" by simp
  then have "unat (acc + x) = unat acc + unat x" by (rule unat_add_usize)
  then show ?case using Cons.IH [of "acc + x"] Cons.prems lt by (auto simp: usize_add_def add.assoc)
qed simp

lemma opt_map_ok: "(\<And>x. x \<in> set xs \<Longrightarrow> f x = Some (h x)) \<Longrightarrow> opt_map f xs = Some (map h xs)"
  by (induction xs) simp_all

lemma arenas_sum_ok:
  assumes "bump_ok s" "\<And>a. a \<in> set (ba_arenas s) \<Longrightarrow> f a = Some (of_nat (h a))"
    "\<And>a. a \<in> set (ba_arenas s) \<Longrightarrow> h a \<le> arena_size a"
  shows "\<exists>n. do { xs \<leftarrow> opt_map f (ba_arenas s); usize_sum xs 0 } = Some n \<and> unat n = (\<Sum>a\<leftarrow>ba_arenas s. h a)"
proof -
  let ?xs = "map (\<lambda>a. of_nat (h a)) (ba_arenas s) :: usize list"
  have "unat (of_nat (h a) :: usize) = h a" if "a \<in> set (ba_arenas s)" for a
    using assms(3) [OF that] usize_lt [of "range_end (mr_range (ar_region a))"]
    by (intro unat_of_nat_usize) linarith
  then have sum: "(\<Sum>x\<leftarrow>?xs. unat x) = (\<Sum>a\<leftarrow>ba_arenas s. h a)"
    by (simp add: comp_def cong: map_cong)
  have "(\<Sum>a\<leftarrow>ba_arenas s. h a) \<le> (\<Sum>a\<leftarrow>ba_arenas s. arena_size a)" using assms(3) by (rule sum_list_mono)
  moreover have "0 + (\<Sum>a\<leftarrow>ba_arenas s. arena_size a) < 2 ^ 64"
    using assms(1) by (intro arena_sizes_bounded) (auto simp: bump_ok_def arena_ok_def)
  ultimately have "unat (0 :: usize) + (\<Sum>x\<leftarrow>?xs. unat x) < 2 ^ 64" using sum by simp
  from usize_sum_ok [OF this] sum show ?thesis
    using opt_map_ok [of "ba_arenas s" f "\<lambda>a. of_nat (h a)"] assms(2) by simp
qed

section \<open>Sequences of requests\<close>

datatype bump_request = Blocks Layout | Block Layout

fun request_layout :: "bump_request \<Rightarrow> Layout" where
  "request_layout (Blocks l) = l"
| "request_layout (Block l) = l"

text \<open>A client that makes the requests in order and collects the memory it is given.\<close>

fun bump_run :: "nat \<Rightarrow> bump_request list \<Rightarrow> BumpAllocator \<Rightarrow> (addr_range list \<times> BumpAllocator) option" where
  "bump_run cap [] s = Some ([], s)"
| "bump_run cap (Blocks l # reqs) s =
     do {
       (r, s1) \<leftarrow> bump_allocate cap l s;
       (bs, s2) \<leftarrow> bump_run cap reqs s1;
       Some (case r of Inl _ \<Rightarrow> bs | Inr blocks \<Rightarrow> blocks @ bs, s2)
     }"
| "bump_run cap (Block l # reqs) s =
     do {
       (r, s1) \<leftarrow> bump_allocate_contiguous l s;
       (bs, s2) \<leftarrow> bump_run cap reqs s1;
       (case r of
          Inl _ \<Rightarrow> Some (bs, s2)
        | Inr p \<Rightarrow> do { b \<leftarrow> range_from_start_len p (layout_size l); Some (b # bs, s2) })
     }"

lemma bump_contiguous_taken:
  assumes "bump_ok s" "wf_layout l" "0 < unat (layout_size l)" "i < length (ba_arenas s)"
    "arena_fits (ba_min_align s) l (ba_arenas s ! i)" "p = arena_take (ba_min_align s) l (ba_arenas s ! i)"
  obtains b where "range_from_start_len p (layout_size l) = Some b" "range_start b = p" "block_len b = unat (layout_size l)"
    "taken (block_in (unat (ba_min_align s)) (unat (layout_align l))) [(i, b)] (ba_arenas s) (ba_arenas (bump_move i p s))"
proof -
  have g: "min_align_ok (ba_min_align s)" using assms(1) by (simp add: bump_ok_def)
  note t = arena_take_nat [OF bump_arena_ok [OF assms(1,4)] g assms(2,3,5), folded assms(6)]
  let ?b = "\<lparr>range_start = p, range_end = p + layout_size l\<rparr>"
  have le: "unat p + unat (layout_size l) < 2 ^ 64" using t(7) usize_lt [of "ar_ptr (ba_arenas s ! i)"] by linarith
  then have e: "unat (p + layout_size l) = unat p + unat (layout_size l)" by (rule unat_add_usize)
  show ?thesis
  proof (rule that [of ?b])
    show "range_from_start_len p (layout_size l) = Some ?b" using le e by (simp add: range_from_start_len_eq_Some)
    show "taken (block_in (unat (ba_min_align s)) (unat (layout_align l))) [(i, ?b)] (ba_arenas s) (ba_arenas (bump_move i p s))"
      using t assms(3-5) e by (simp add: block_in_def arena_fits_def bump_move_def)
  qed (simp_all add: e)
qed

text \<open>Handed-out memory: fresh blocks, disjoint from each other.\<close>

definition handed_out :: "addr_range list \<Rightarrow> BumpAllocator \<Rightarrow> BumpAllocator \<Rightarrow> bool" where
  "handed_out bs s s' \<longleftrightarrow> ranges_disjoint bs \<and> arenas_free (ba_arenas s') \<subseteq> arenas_free (ba_arenas s) \<and>
     (\<forall>b \<in> set bs. range_nat b \<subseteq> arenas_free (ba_arenas s) - arenas_free (ba_arenas s'))"

lemma handed_out_taken:
  "bump_ok s \<Longrightarrow> taken (block_in g al) tbs (ba_arenas s) (ba_arenas s') \<Longrightarrow> handed_out (map snd tbs) s s'"
  using taken_disjoint [OF _ bump_arenas_ok] by (simp add: handed_out_def)

lemma handed_out_append: "handed_out bs s s1 \<Longrightarrow> handed_out cs s1 s2 \<Longrightarrow> handed_out (bs @ cs) s s2"
  unfolding handed_out_def sorted_wrt_append set_append by (intro conjI ballI; (elim UnE)?) blast+

lemma bump_run_ok:
  assumes "bump_ok s" "length (ba_arenas s) \<le> cap"
    "\<forall>q \<in> set reqs. wf_layout (request_layout q) \<and> layout_align (request_layout q) \<le> ba_min_align s"
  shows "\<exists>bs s'. bump_run cap reqs s = Some (bs, s') \<and> bump_ok s' \<and> handed_out bs s s'"
  using assms
proof (induction cap reqs s rule: bump_run.induct)
  case (2 cap l reqs s)
  have l: "wf_layout l" "layout_align l \<le> ba_min_align s" using "2.prems"(3) by simp_all
  note head = bump_headroom_small [OF "2.prems"(1) l]
  show ?case
  proof (rule bump_allocate_ok [OF "2.prems"(1) l(1) head "2.prems"(2)], goal_cases)
    case (1 s1)
    then have "\<exists>bs s'. bump_run cap reqs s1 = Some (bs, s') \<and> bump_ok s' \<and> handed_out bs s1 s'"
      using "2.prems" by (intro "2.IH") auto
    then show ?case using 1 by (auto simp: handed_out_def)
  next
    case (2 tbs s1)
    have "length (ba_arenas s1) = length (ba_arenas s)" using taken_regions [OF 2(5)] by simp
    then have "\<exists>bs s'. bump_run cap reqs s1 = Some (bs, s') \<and> bump_ok s' \<and> handed_out bs s1 s'"
      using "2.prems" 2 by (intro "2.IH") auto
    then show ?case
      using 2(1) handed_out_append [OF handed_out_taken [OF "2.prems"(1) 2(5)]] by auto
  qed
next
  case (3 cap l reqs s)
  have l: "wf_layout l" "layout_align l \<le> ba_min_align s" using "3.prems"(3) by simp_all
  note head = bump_headroom_small [OF "3.prems"(1) l]
  show ?case
  proof (rule bump_allocate_contiguous_ok [OF "3.prems"(1) l(1) head], goal_cases)
    case 1
    then have "\<exists>bs s'. bump_run cap reqs s = Some (bs, s') \<and> bump_ok s' \<and> handed_out bs s s'"
      using "3.prems" by (intro "3.IH") auto
    then show ?case using 1 by auto
  next
    case (2 i)
    let ?p = "arena_take (ba_min_align s) l (ba_arenas s ! i)"
    let ?s = "bump_move i ?p s"
    obtain b where b: "range_from_start_len ?p (layout_size l) = Some b"
      "taken (block_in (unat (ba_min_align s)) (unat (layout_align l))) [(i, b)] (ba_arenas s) (ba_arenas ?s)"
      using bump_contiguous_taken [OF "3.prems"(1) l(1) 2(3,2,4) refl] by blast
    have "\<exists>bs s'. bump_run cap reqs ?s = Some (bs, s') \<and> bump_ok s' \<and> handed_out bs ?s s'"
      using "3.prems" 2 bump_ok_take [OF "3.prems"(1) l(1) 2(3,2,4)] by (intro "3.IH") auto
    then show ?case
      using 2(1) b(1) handed_out_append [OF handed_out_taken [OF "3.prems"(1) b(2)]] by auto
  qed
qed (auto simp: handed_out_def)

section \<open>The contract of table allocation\<close>

text \<open>Page tables need their frames inside the physical memory map; the owned frames are those above the pointers.\<close>

definition bump_inv :: "arch \<Rightarrow> PhysMap \<Rightarrow> BumpAllocator \<Rightarrow> bool" where
  "bump_inv A pm s \<longleftrightarrow> wf_arch A \<and> bump_ok s \<and> ba_min_align s = GRANULE_SIZE A \<and>
     (\<forall>a \<in> set (ba_arenas s). arena_usable a \<longrightarrow> unat (range_start (pm_range_phys pm)) \<le> arena_lo a \<and>
        arena_hi a \<le> unat (range_end (pm_range_phys pm)) \<and> arena_hi a \<le> 2 ^ 56)"

definition bump_owned :: "BumpAllocator \<Rightarrow> paddr set" where
  "bump_owned s = {p. unat (ba_min_align s) dvd unat p \<and>
     (\<exists>i < length (ba_arenas s). arena_usable (ba_arenas s ! i) \<and>
        arena_at (ba_arenas s ! i) \<le> unat p \<and> unat p < arena_hi (ba_arenas s ! i))}"

lemma bump_owned_frame_ok:
  assumes "bump_inv A pm s" "p \<in> bump_owned s"
  shows "frame_ok A pm p"
proof -
  let ?g = "unat (GRANULE_SIZE A)"
  obtain i where i: "i < length (ba_arenas s)" "arena_usable (ba_arenas s ! i)"
    "arena_at (ba_arenas s ! i) \<le> unat p" "unat p < arena_hi (ba_arenas s ! i)" "?g dvd unat p"
    using assms by (auto simp: bump_owned_def bump_inv_def)
  have a: "arena_ok ?g (ba_arenas s ! i)" using assms(1) bump_arena_ok [OF _ i(1)] by (auto simp: bump_inv_def)
  then have "unat p + ?g \<le> arena_hi (ba_arenas s ! i)"
    using i by (intro multiples_apart) (simp_all add: arena_ok_def)
  moreover have "unat (range_start (pm_range_phys pm)) \<le> arena_lo (ba_arenas s ! i)"
    "arena_hi (ba_arenas s ! i) \<le> unat (range_end (pm_range_phys pm))" "arena_hi (ba_arenas s ! i) \<le> 2 ^ 56"
    using assms(1) i(1,2) by (auto simp: bump_inv_def)
  moreover have "arena_lo (ba_arenas s ! i) \<le> arena_at (ba_arenas s ! i)" using a by (simp add: arena_ok_def)
  ultimately show ?thesis unfolding frame_ok_def using i by linarith
qed

lemma bump_granule:
  assumes "bump_inv A pm s" "i < length (ba_arenas s)" "arena_fits (GRANULE_SIZE A) (GRANULE_LAYOUT A) (ba_arenas s ! i)"
    "p = arena_take (GRANULE_SIZE A) (GRANULE_LAYOUT A) (ba_arenas s ! i)"
  shows "bump_inv A pm (bump_move i p s)" "p \<notin> bump_owned s" "bump_owned (bump_move i p s) = insert p (bump_owned s)"
proof -
  let ?g = "unat (GRANULE_SIZE A)" and ?a = "ba_arenas s ! i"
  have inv: "wf_arch A" "bump_ok s" "ba_min_align s = GRANULE_SIZE A" using assms(1) by (simp_all add: bump_inv_def)
  note g = granule_align_ok [OF inv(1)] and wf = wf_layout_GRANULE [OF inv(1)]
  have a: "arena_ok ?g ?a" using bump_arena_ok [OF inv(2) assms(2)] inv(3) by simp
  have g0: "0 < ?g" by (rule GRANULE_SIZE_words(3) [OF inv(1)])
  then have sz: "0 < unat (layout_size (GRANULE_LAYOUT A))" by (simp add: GRANULE_LAYOUT_def)
  have top: "arena_top (GRANULE_SIZE A) (GRANULE_LAYOUT A) ?a = arena_at ?a"
    by (rule arena_top_bounds(4) [OF a g wf]) (simp add: GRANULE_LAYOUT_def)
  have need: "arena_need (GRANULE_SIZE A) (GRANULE_LAYOUT A) = ?g"
    using g0 by (simp add: arena_need_def GRANULE_LAYOUT_def)
  note t = arena_take_nat [OF a g wf sz assms(3), folded assms(4), unfolded top need]
  have ok: "bump_ok (bump_move i p s)"
    using bump_ok_take [OF inv(2) wf sz assms(2)] assms(3,4) inv(3) by simp
  have "x = ?a\<lparr>ar_ptr := p\<rparr> \<or> x \<in> set (ba_arenas s)" if "x \<in> set (ba_arenas (bump_move i p s))" for x
    using that set_update_subset_insert by (fastforce simp: bump_move_def)
  then show "bump_inv A pm (bump_move i p s)"
    using assms(1,2) ok by (fastforce simp: bump_inv_def)
  have u: "arena_usable ?a" using assms(3) by (simp add: arena_fits_def)
  have hi: "arena_at ?a \<le> arena_hi ?a" using a by (simp add: arena_ok_def)
  show new: "p \<notin> bump_owned s"
  proof
    assume "p \<in> bump_owned s"
    then obtain j where j: "j < length (ba_arenas s)" "arena_at (ba_arenas s ! j) \<le> unat p" "unat p < arena_hi (ba_arenas s ! j)"
      by (auto simp: bump_owned_def)
    moreover have "arena_lo (ba_arenas s ! j) \<le> arena_at (ba_arenas s ! j)"
      using bump_arena_ok [OF inv(2) j(1)] by (simp add: arena_ok_def)
    ultimately have "i = j"
      using arenas_apart [OF bump_arenas_ok [OF inv(2)] assms(2) j(1) t(4,5)] by linarith
    then show False using j(2) t(6) g0 by simp
  qed
  have frame: "arena_at ?a \<le> x \<longleftrightarrow> x \<noteq> unat p \<and> unat p \<le> x" if "?g dvd x" for x
  proof -
    have "unat p + ?g \<le> x" if "unat p < x" using multiples_apart [OF t(2) \<open>?g dvd x\<close> that] .
    then show ?thesis using t(6) g0 by auto
  qed
  show "bump_owned (bump_move i p s) = insert p (bump_owned s)"
  proof (rule set_eqI)
    fix q
    have nth: "ba_arenas (bump_move i p s) ! j = (if j = i then ?a\<lparr>ar_ptr := p\<rparr> else ba_arenas s ! j)" for j
      using assms(2) by simp
    have q: "q = p \<longleftrightarrow> unat q = unat p" using usize_eqI by blast
    show "q \<in> bump_owned (bump_move i p s) \<longleftrightarrow> q \<in> insert p (bump_owned s)"
      using frame [of "unat q"] t(2,5) u assms(2) inv(3) unfolding bump_owned_def insert_iff q
      by (auto simp: nth split: if_splits) 
  qed
qed

lemma bump_alloc_granule:
  assumes "bump_inv A pm s"
  shows "\<exists>r s'. fa_allocate_contiguous (bump_frame_allocator cap) (GRANULE_LAYOUT A) s = Some (r, s') \<and> bump_inv A pm s' \<and>
      (case r of
         Inl e \<Rightarrow> bump_owned s' = bump_owned s
       | Inr p \<Rightarrow> frame_ok A pm p \<and> p \<notin> bump_owned s \<and> bump_owned s' = insert p (bump_owned s))"
proof -
  have inv: "wf_arch A" "bump_ok s" "ba_min_align s = GRANULE_SIZE A" using assms by (simp_all add: bump_inv_def)
  note wf = wf_layout_GRANULE [OF inv(1)]
  have head: "bump_headroom (GRANULE_LAYOUT A) s"
    by (rule bump_headroom_small [OF inv(2) wf]) (simp add: GRANULE_LAYOUT_def inv(3))
  show ?thesis
  proof (rule bump_allocate_contiguous_ok [OF inv(2) wf head], goal_cases)
    case 1
    then show ?case using assms by (simp add: bump_frame_allocator_def)
  next
    case (2 i)
    note g = bump_granule [OF assms 2(2) 2(4) [unfolded inv(3)] refl]
    have "frame_ok A pm (arena_take (GRANULE_SIZE A) (GRANULE_LAYOUT A) (ba_arenas s ! i))"
      by (rule bump_owned_frame_ok [OF g(1)]) (simp add: g(3))
    then show ?case using 2(1) g inv(3) by (simp add: bump_frame_allocator_def)
  qed
qed

interpretation bump: granule_allocator A pm "bump_frame_allocator cap" "bump_inv A pm" bump_owned
  for A pm cap
  by unfold_locales (rule bump_alloc_granule bump_owned_frame_ok; assumption)+

end
