(* ===== verification/Test_Frame_Allocator.thy ===== *)
theory Test_Frame_Allocator
  imports Frame_Allocator
begin

text \<open>
  \<^verbatim>\<open>lib/mem-testkit/src/frame_allocator.rs\<close>: the frame allocator of the emulated machine, the one
  implementation in the repository that takes frames back. The ordered set of free frames is a
  strictly ascending list.
\<close>

section \<open>The allocator\<close>

record TestFrameAllocator =
  tfa_granule :: usize
  tfa_free :: "paddr list"

text \<open>The operations of the ordered set: \<open>insert\<close> says whether the element is new.\<close>

fun btree_insert :: "paddr \<Rightarrow> paddr list \<Rightarrow> bool \<times> paddr list" where
  "btree_insert x [] = (True, [x])"
| "btree_insert x (y # ys) =
     (if x < y then (True, x # y # ys)
      else if x = y then (False, y # ys)
      else (let (fresh, zs) = btree_insert x ys in (fresh, y # zs)))"

definition btree_remove :: "paddr \<Rightarrow> paddr list \<Rightarrow> paddr list" where
  "btree_remove x xs = filter (\<lambda>y. y \<noteq> x) xs"

definition div_ceil :: "usize \<Rightarrow> usize \<Rightarrow> nat option" where
  "div_ceil a b = (if b = 0 then None else Some ((unat a + (unat b - 1)) div unat b))"

text \<open>The loop that adds the frames of one region; a zero granule has been rejected by \<open>align_in\<close> before.\<close>

function carve :: "usize \<Rightarrow> usize \<Rightarrow> usize \<Rightarrow> paddr list \<Rightarrow> paddr list option" where
  "carve granule frame stop free =
     (if granule = 0 then None
      else if frame < stop then
        (case addr_add frame granule of
           None \<Rightarrow> None
         | Some frame' \<Rightarrow> carve granule frame' stop (snd (btree_insert frame free)))
      else Some free)"
  by pat_completeness auto

termination
proof (relation "measure (\<lambda>(g, f, e, _). unat e - unat f)")
  fix granule frame stop frame' :: usize and free :: "paddr list"
  assume *: "granule \<noteq> 0" "frame < stop" "addr_add frame granule = Some frame'"
  have "unat frame' = unat frame + unat granule" using *(3) by (simp add: addr_add_eq_Some)
  moreover have "0 < unat granule" using *(1) by (simp add: unat_gt_0)
  ultimately show "((granule, frame', stop, snd (btree_insert frame free)), granule, frame, stop, free) \<in>
      measure (\<lambda>(g, f, e, _). unat e - unat f)"
    using *(2) by (simp add: word_less_nat_alt)
qed simp

declare carve.simps [simp del]

fun carve_regions :: "usize \<Rightarrow> addr_range list \<Rightarrow> paddr list \<Rightarrow> paddr list option" where
  "carve_regions granule [] free = Some free"
| "carve_regions granule (region # regions) free =
     do {
       r \<leftarrow> range_align_in region granule;
       free' \<leftarrow> carve granule (range_start r) (range_end r) free;
       carve_regions granule regions free'
     }"

definition tfa_new :: "arch \<Rightarrow> addr_range list \<Rightarrow> TestFrameAllocator option" where
  "tfa_new A regions =
     do {
       free \<leftarrow> carve_regions (GRANULE_SIZE A) regions [];
       Some \<lparr>tfa_granule = GRANULE_SIZE A, tfa_free = free\<rparr>
     }"

definition free_frames :: "TestFrameAllocator \<Rightarrow> nat" where
  "free_frames s = length (tfa_free s)"

fun take_frames :: "usize \<Rightarrow> nat \<Rightarrow> paddr list \<Rightarrow> (addr_range list \<times> paddr list) option" where
  "take_frames granule 0 free = Some ([], free)"
| "take_frames granule (Suc n) free =
     (case free of
        [] \<Rightarrow> None
      | frame # _ \<Rightarrow> do {
          e \<leftarrow> addr_add frame granule;
          (blocks, free') \<leftarrow> take_frames granule n (btree_remove frame free);
          Some (range_of frame e # blocks, free')
        })"

definition tfa_allocate :: "Layout \<Rightarrow> (TestFrameAllocator, AllocError, addr_range list) act" where
  "tfa_allocate layout s =
     (if layout_size layout = 0 then Some (Inl AllocError, s)
      else do {
        debug_assert (layout_align layout \<le> tfa_granule s);
        nframes \<leftarrow> div_ceil (layout_size layout) (tfa_granule s);
        if length (tfa_free s) < nframes then Some (Inl AllocError, s)
        else do {
          (blocks, free) \<leftarrow> take_frames (tfa_granule s) nframes (tfa_free s);
          Some (Inr blocks, s\<lparr>tfa_free := free\<rparr>)
        }
      })"

definition frame_at :: "usize \<Rightarrow> paddr \<Rightarrow> nat \<Rightarrow> paddr option" where
  "frame_at granule base i = do { off \<leftarrow> usize_mul (of_nat i) granule; addr_add base off }"

fun run_is_free :: "usize \<Rightarrow> paddr list \<Rightarrow> paddr \<Rightarrow> nat list \<Rightarrow> bool option" where
  "run_is_free granule free start [] = Some True"
| "run_is_free granule free start (i # is) =
     do {
       f \<leftarrow> frame_at granule start i;
       if f \<in> set free then run_is_free granule free start is else Some False
     }"

fun find_run :: "usize \<Rightarrow> usize \<Rightarrow> nat \<Rightarrow> paddr list \<Rightarrow> paddr list \<Rightarrow> paddr option option" where
  "find_run granule align nframes free [] = Some None"
| "find_run granule align nframes free (start # starts) =
     do {
       aligned \<leftarrow> addr_is_aligned_to start align;
       ok \<leftarrow> (if aligned then run_is_free granule free start [0 ..< nframes] else Some False);
       if ok then Some (Some start) else find_run granule align nframes free starts
     }"

fun remove_run :: "usize \<Rightarrow> paddr \<Rightarrow> nat list \<Rightarrow> paddr list \<Rightarrow> paddr list option" where
  "remove_run granule base [] free = Some free"
| "remove_run granule base (i # is) free =
     do {
       f \<leftarrow> frame_at granule base i;
       remove_run granule base is (btree_remove f free)
     }"

definition tfa_allocate_contiguous :: "Layout \<Rightarrow> (TestFrameAllocator, AllocError, paddr) act" where
  "tfa_allocate_contiguous layout s =
     (if layout_size layout = 0 then Some (Inl AllocError, s)
      else do {
        let align = max (layout_align layout) (tfa_granule s);
        nframes \<leftarrow> div_ceil (layout_size layout) (tfa_granule s);
        found \<leftarrow> find_run (tfa_granule s) align nframes (tfa_free s) (tfa_free s);
        (case found of
           None \<Rightarrow> Some (Inl AllocError, s)
         | Some base \<Rightarrow> do {
             free \<leftarrow> remove_run (tfa_granule s) base [0 ..< nframes] (tfa_free s);
             Some (Inr base, s\<lparr>tfa_free := free\<rparr>)
           })
      })"

fun insert_run :: "usize \<Rightarrow> paddr \<Rightarrow> nat list \<Rightarrow> paddr list \<Rightarrow> paddr list option" where
  "insert_run granule block [] free = Some free"
| "insert_run granule block (i # is) free =
     do {
       frame \<leftarrow> frame_at granule block i;
       aligned \<leftarrow> addr_is_aligned_to frame granule;
       debug_assert aligned;
       let (newly_freed, free') = btree_insert frame free;
       debug_assert newly_freed;
       insert_run granule block is free'
     }"

definition tfa_deallocate :: "paddr \<Rightarrow> Layout \<Rightarrow> TestFrameAllocator \<Rightarrow> TestFrameAllocator option" where
  "tfa_deallocate block layout s =
     do {
       nframes \<leftarrow> div_ceil (layout_size layout) (tfa_granule s);
       free \<leftarrow> insert_run (tfa_granule s) block [0 ..< nframes] (tfa_free s);
       Some (s\<lparr>tfa_free := free\<rparr>)
     }"

definition test_frame_allocator :: "TestFrameAllocator frame_allocator" where
  "test_frame_allocator =
     \<lparr>fa_allocate = tfa_allocate, fa_allocate_contiguous = tfa_allocate_contiguous, fa_deallocate = tfa_deallocate\<rparr>"

end
