(* ===== verification/Test_Frames.thy ===== *)
theory Test_Frames
  imports Test_Frame_Allocator Space_Blocks
begin

text \<open>
  The lemmas and properties of the test frame allocator: its free list stays an ordered set of aligned
  frames, the constructor frees exactly the frames inside the regions, contiguous allocation
  finds the lowest aligned run, deallocation undoes it, and the allocator meets the contract of \<open>unmap\<close>.
\<close>

section \<open>The ordered set\<close>

lemma btree_insert_set: "set (snd (btree_insert x xs)) = insert x (set xs)"
  by (induction xs) (auto simp: case_prod_beta)

lemma btree_insert_sorted: "sorted_wrt (<) xs \<Longrightarrow> sorted_wrt (<) (snd (btree_insert x xs))"
proof (induction xs)
  case (Cons y ys)
  show ?case
  proof (cases "x < y")
    case False
    have "snd (btree_insert x (y # ys)) = (if x = y then y # ys else y # snd (btree_insert x ys))"
      using False by (simp add: case_prod_beta)
    then show ?thesis using Cons False btree_insert_set [of x ys] by auto
  qed (use Cons in \<open>auto intro: less_trans\<close>)
qed simp

lemma btree_insert_fresh: "sorted_wrt (<) xs \<Longrightarrow> fst (btree_insert x xs) \<longleftrightarrow> x \<notin> set xs"
  by (induction xs) (auto simp: case_prod_beta)

lemma btree_remove_set [simp]: "set (btree_remove x xs) = set xs - {x}"
  by (auto simp: btree_remove_def)

lemma btree_remove_sorted: "sorted_wrt (<) xs \<Longrightarrow> sorted_wrt (<) (btree_remove x xs)"
  by (simp add: btree_remove_def sorted_wrt_filter)

lemma sorted_set_unique:
  "sorted_wrt (<) (xs :: usize list) \<Longrightarrow> sorted_wrt (<) ys \<Longrightarrow> set xs = set ys \<Longrightarrow> xs = ys"
  by (simp add: strict_sorted_equal)

section \<open>Runs of frames\<close>

definition run_frame :: "usize \<Rightarrow> paddr \<Rightarrow> nat \<Rightarrow> paddr" where
  "run_frame g b i = of_nat (unat b + i * unat g)"

definition run_frames :: "usize \<Rightarrow> paddr \<Rightarrow> nat \<Rightarrow> paddr set" where
  "run_frames g b n = run_frame g b ` {0 ..< n}"

definition frames_low :: "paddr list \<Rightarrow> bool" where
  "frames_low fs \<longleftrightarrow> (\<forall>f \<in> set fs. unat f < 2 ^ 56)"

lemma unat_run_frame: "unat b + i * unat g < 2 ^ 64 \<Longrightarrow> unat (run_frame g b i) = unat b + i * unat g"
  unfolding run_frame_def by (rule unat_of_nat_usize)

lemma frame_at_ok:
  assumes "unat b + i * unat g < 2 ^ 64" "0 < unat g"
  shows "frame_at g b i = Some (run_frame g b i)"
proof -
  have "i * 1 \<le> i * unat g" using assms(2) by (intro mult_le_mono2) simp
  then have i: "unat (of_nat i :: usize) = i" using assms(1) by (intro unat_of_nat_usize) linarith
  have ig: "unat (of_nat i :: usize) * unat g < 2 ^ 64" using assms(1) unfolding i by linarith
  then have m: "unat (of_nat i * g) = i * unat g" using i unat_mul_usize by simp
  have "usize_mul (of_nat i) g = Some (of_nat i * g)" using ig by (simp add: usize_mul_def)
  moreover have "addr_add b (of_nat i * g) = Some (run_frame g b i)"
    unfolding addr_add_eq_Some m using assms(1) unat_run_frame by simp
  ultimately show ?thesis by (simp add: frame_at_def)
qed

lemma run_is_free_ok:
  assumes "frames_low free" "0 < unat g" "unat g \<le> 2 ^ 56" "unat b + k * unat g < 2 ^ 57"
  shows "run_is_free g free b [k ..< n] = Some (\<forall>i. k \<le> i \<and> i < n \<longrightarrow> run_frame g b i \<in> set free)"
  using assms(4)
proof (induction "n - k" arbitrary: k)
  case (Suc m)
  let ?x = "unat b + k * unat g"
  have up: "[k ..< n] = k # [Suc k ..< n]" using Suc(2) by (simp add: upt_conv_Cons)
  have "?x < 2 ^ 64" using Suc.prems by simp
  note f = frame_at_ok [OF this assms(2)] and nat = unat_run_frame [OF this]
  show ?case
  proof (cases "run_frame g b k \<in> set free")
    case True
    then have "unat (run_frame g b k) < 2 ^ 56" using assms(1) by (simp only: frames_low_def)
    then have "unat b + Suc k * unat g < 2 ^ 57" unfolding nat using assms(3) by simp
    then have "run_is_free g free b [Suc k ..< n] =
      Some (\<forall>i. Suc k \<le> i \<and> i < n \<longrightarrow> run_frame g b i \<in> set free)"
      using Suc(2) by (intro Suc.hyps(1)) simp_all
    moreover have "(\<forall>i. k \<le> i \<and> i < n \<longrightarrow> run_frame g b i \<in> set free) \<longleftrightarrow>
      (\<forall>i. Suc k \<le> i \<and> i < n \<longrightarrow> run_frame g b i \<in> set free)"
      using True by (metis le_eq_less_or_eq Suc_le_eq)
    ultimately show ?thesis using up f True by (simp del: upt_Suc)
  next
    case False
    moreover have "k < n" using Suc(2) by simp
    ultimately have no: "\<not> (\<forall>i. k \<le> i \<and> i < n \<longrightarrow> run_frame g b i \<in> set free)" by blast
    show ?thesis unfolding up using f False no by (simp del: upt_Suc)
  qed
qed auto

lemma run_is_free_all:
  assumes "frames_low free" "0 < unat g" "unat g \<le> 2 ^ 56" "b \<in> set free"
  shows "run_is_free g free b [0 ..< n] = Some (run_frames g b n \<subseteq> set free)"
proof -
  have "unat b < 2 ^ 56" using assms(1,4) by (simp add: frames_low_def)
  then have "unat b + 0 * unat g < 2 ^ 57" by simp
  from run_is_free_ok [OF assms(1-3) this, of n] show ?thesis
    by (auto simp: run_frames_def image_subset_iff)
qed

lemma find_run_ok:
  assumes "frames_low free" "0 < unat g" "unat g \<le> 2 ^ 56" "set starts \<subseteq> set free" "is_power_of_two al"
  shows "find_run g al n free starts = Some (find (\<lambda>b. unat al dvd unat b \<and> run_frames g b n \<subseteq> set free) starts)"
  using assms(4)
proof (induction starts)
  case (Cons b starts)
  have "addr_is_aligned_to b al = Some (unat al dvd unat b)" using assms(5) by (simp add: addr_is_aligned_to_eq_Some)
  then show ?case using Cons run_is_free_all [OF assms(1-3), of b n] by simp
qed simp

lemma run_bound:
  assumes "frames_low free" "run_frames g b n \<subseteq> set free" "unat g \<le> 2 ^ 56" "0 < unat g" "unat b < 2 ^ 56" "i < n"
  shows "unat b + i * unat g < 2 ^ 56"
  using assms(6)
proof (induction i)
  case (Suc i)
  then have "unat b + Suc i * unat g < 2 ^ 64" using assms(3) by simp
  moreover have "run_frame g b (Suc i) \<in> set free"
    using assms(2) Suc.prems by (auto simp: run_frames_def image_subset_iff)
  ultimately show ?case
    using assms(1) unat_run_frame unfolding frames_low_def by metis
qed (use assms in simp)

lemma remove_run_ok:
  assumes "0 < unat g" "\<forall>i \<in> set is. unat b + i * unat g < 2 ^ 64" "sorted_wrt (<) free"
  shows "\<exists>free'. remove_run g b is free = Some free' \<and> sorted_wrt (<) free' \<and>
    set free' = set free - run_frame g b ` set is"
  using assms(2,3)
proof (induction "is" arbitrary: free)
  case (Cons i "is")
  have f: "frame_at g b i = Some (run_frame g b i)" using frame_at_ok [OF _ assms(1)] Cons.prems(1) by simp
  obtain free' where "remove_run g b is (btree_remove (run_frame g b i) free) = Some free'"
    "sorted_wrt (<) free'"
    "set free' = set (btree_remove (run_frame g b i) free) - run_frame g b ` set is"
    using Cons.IH [OF _ btree_remove_sorted [OF Cons.prems(2)], of "run_frame g b i"] Cons.prems(1) by auto
  then show ?case using f by (intro exI [of _ free']) (auto)
qed simp

lemma insert_run_ok:
  assumes "0 < unat g" "is_power_of_two g" "unat g dvd unat b" "\<forall>i \<in> set is. unat b + i * unat g < 2 ^ 64" "distinct is"
    "run_frame g b ` set is \<inter> set free = {}" "sorted_wrt (<) free"
  shows "\<exists>free'. insert_run g b is free = Some free' \<and> sorted_wrt (<) free' \<and>
    set free' = set free \<union> run_frame g b ` set is"
  using assms(4-7)
proof (induction "is" arbitrary: free)
  case (Cons i "is")
  let ?f = "run_frame g b"
  have lt: "unat b + i * unat g < 2 ^ 64" using Cons.prems(1) by simp
  note f = frame_at_ok [OF lt assms(1)] and nat = unat_run_frame [OF lt]
  have al: "addr_is_aligned_to (?f i) g = Some True"
    unfolding addr_is_aligned_to_eq_Some nat using assms(2,3) by simp
  have new: "?f i \<notin> set free" using Cons.prems(3) by simp
  obtain fr where fr: "btree_insert (?f i) free = (True, fr)"
    using btree_insert_fresh [OF Cons.prems(4), of "?f i"] new by (cases "btree_insert (?f i) free") auto
  then have fr_set: "set fr = insert (?f i) (set free)" and fr_sorted: "sorted_wrt (<) fr"
    using btree_insert_set [of "?f i" free] btree_insert_sorted [OF Cons.prems(4), of "?f i"] by simp_all
  have other: "?f j \<noteq> ?f i" if "j \<in> set is" for j
  proof
    assume eq: "?f j = ?f i"
    have "unat b + j * unat g < 2 ^ 64" using Cons.prems(1) that by simp
    then have "unat b + j * unat g = unat b + i * unat g" using eq nat unat_run_frame by metis
    then have "j = i" using assms(1) by simp
    then show False using that Cons.prems(2) by simp
  qed
  then have "?f ` set is \<inter> set fr = {}" using Cons.prems(3) unfolding fr_set by fastforce
  then obtain free' where "insert_run g b is fr = Some free'" "sorted_wrt (<) free'" "set free' = set fr \<union> ?f ` set is"
    using Cons.IH [of fr] Cons.prems(1,2) fr_sorted by auto
  then show ?case
    using f al fr by (intro exI [of _ free']) (auto simp: fr_set)
qed simp

section \<open>The invariant and the operations\<close>

definition tfa_ok :: "arch \<Rightarrow> TestFrameAllocator \<Rightarrow> bool" where
  "tfa_ok A s \<longleftrightarrow> wf_arch A \<and> tfa_granule s = GRANULE_SIZE A \<and> sorted_wrt (<) (tfa_free s) \<and> frames_low (tfa_free s) \<and>
     (\<forall>f \<in> set (tfa_free s). unat (GRANULE_SIZE A) dvd unat f)"

lemma tfa_granule_facts:
  assumes "wf_arch A"
  shows "is_power_of_two (GRANULE_SIZE A)" "0 < unat (GRANULE_SIZE A)" "unat (GRANULE_SIZE A) \<le> 2 ^ 56" "GRANULE_SIZE A \<noteq> 0"
proof -
  obtain k where k: "k < 56" "GRANULE_SIZE A = 2 ^ k" using GRANULE_SIZE_pow2 [OF assms] by metis
  then have "(2::nat) ^ k \<le> 2 ^ 56" by (intro power_increasing) simp_all
  then show "is_power_of_two (GRANULE_SIZE A)" "0 < unat (GRANULE_SIZE A)" "unat (GRANULE_SIZE A) \<le> 2 ^ 56" "GRANULE_SIZE A \<noteq> 0"
    using k is_power_of_two_pow2 [of k] by (auto simp: is_power_of_two_def)
qed

abbreviation frames_for :: "arch \<Rightarrow> Layout \<Rightarrow> nat" where
  "frames_for A l \<equiv> (unat (layout_size l) + (unat (GRANULE_SIZE A) - 1)) div unat (GRANULE_SIZE A)"

lemma max_power_of_two: "is_power_of_two a \<Longrightarrow> is_power_of_two b \<Longrightarrow> is_power_of_two (max a b)"
  by (simp add: max_def)

text \<open>A place where the request fits: aligned, and every frame free.\<close>

definition run_fits :: "arch \<Rightarrow> Layout \<Rightarrow> TestFrameAllocator \<Rightarrow> paddr \<Rightarrow> bool" where
  "run_fits A l s b \<longleftrightarrow> unat (max (layout_align l) (GRANULE_SIZE A)) dvd unat b \<and>
     run_frames (GRANULE_SIZE A) b (frames_for A l) \<subseteq> set (tfa_free s)"

lemma tfa_contiguous_ok:
  assumes "tfa_ok A s" "wf_layout l"
  obtains (Err) "tfa_allocate_contiguous l s = Some (Inl AllocError, s)"
      "0 < unat (layout_size l) \<longrightarrow> (\<forall>b \<in> set (tfa_free s). \<not> run_fits A l s b)"
  | (Ok) b s' where "tfa_allocate_contiguous l s = Some (Inr b, s')" "0 < unat (layout_size l)" "b \<in> set (tfa_free s)"
      "run_fits A l s b" "\<forall>c \<in> set (tfa_free s). run_fits A l s c \<longrightarrow> b \<le> c" "tfa_ok A s'"
      "set (tfa_free s') = set (tfa_free s) - run_frames (GRANULE_SIZE A) b (frames_for A l)"
      "\<forall>i < frames_for A l. unat b + i * unat (GRANULE_SIZE A) < 2 ^ 56"
proof (cases "0 < unat (layout_size l)")
  case True
  let ?g = "GRANULE_SIZE A" and ?n = "frames_for A l" and ?free = "tfa_free s"
  have ok: "wf_arch A" "tfa_granule s = ?g" "sorted_wrt (<) ?free" "frames_low ?free" "\<forall>f \<in> set ?free. unat ?g dvd unat f"
    using assms(1) by (simp_all add: tfa_ok_def)
  note g = tfa_granule_facts [OF ok(1)]
  have al: "is_power_of_two (max (layout_align l) ?g)"
    using assms(2) g(1) by (intro max_power_of_two) (simp_all add: wf_layout_def)
  have find: "find_run ?g (max (layout_align l) ?g) ?n ?free ?free = Some (find (run_fits A l s) ?free)"
    unfolding run_fits_def using find_run_ok [OF ok(4) g(2,3) order_refl al] .
  have sz: "layout_size l \<noteq> 0" using True by auto
  show ?thesis
  proof (cases "find (run_fits A l s) ?free")
    case None
    show ?thesis
    proof (rule Err)
      show "tfa_allocate_contiguous l s = Some (Inl AllocError, s)"
        using sz ok(2) find None g(4) by (simp add: tfa_allocate_contiguous_def div_ceil_def)
      show "0 < unat (layout_size l) \<longrightarrow> (\<forall>b \<in> set ?free. \<not> run_fits A l s b)"
        using None by (simp add: find_None_iff)
    qed
  next
    case (Some b)
    then obtain k where k: "k < length ?free" "run_fits A l s (?free ! k)" "b = ?free ! k" "\<forall>j < k. \<not> run_fits A l s (?free ! j)"
      by (auto simp: find_Some_iff)
    have low: "unat b + i * unat ?g < 2 ^ 56" if "i < ?n" for i
      using k ok(4) g(2,3) that by (intro run_bound [of ?free]) (auto simp: run_fits_def frames_low_def)
    then have "\<forall>i \<in> set [0 ..< ?n]. unat b + i * unat ?g < 2 ^ 64" by fastforce
    then obtain free' where free': "remove_run ?g b [0 ..< ?n] ?free = Some free'" "sorted_wrt (<) free'"
      "set free' = set ?free - run_frames ?g b ?n"
      using remove_run_ok [OF g(2) _ ok(3), of "[0 ..< ?n]" b] by (auto simp: run_frames_def)
    have least: "b \<le> c" if c: "c \<in> set ?free" "run_fits A l s c" for c
    proof -
      obtain j where "j < length ?free" "c = ?free ! j" using c(1) by (auto simp: in_set_conv_nth)
      moreover from this have "k \<le> j" using k(4) c(2) not_le_imp_less by blast
      ultimately show ?thesis
        using ok(3) k(3) by (cases "k = j") (auto simp: sorted_wrt_iff_nth_less order_le_less)
    qed
    show ?thesis
    proof (rule Ok [of b "s\<lparr>tfa_free := free'\<rparr>"])
      show "tfa_allocate_contiguous l s = Some (Inr b, s\<lparr>tfa_free := free'\<rparr>)"
        using sz ok(2) find Some g(4) free'(1) by (simp add: tfa_allocate_contiguous_def div_ceil_def)
      show "tfa_ok A (s\<lparr>tfa_free := free'\<rparr>)"
        using ok free' by (simp add: tfa_ok_def frames_low_def)
    qed (use True k least low free' in auto)
  qed
qed (use Err in \<open>simp add: tfa_allocate_contiguous_def unat_eq_0\<close>)

lemma tfa_deallocate_ok:
  assumes "tfa_ok A s" "unat (GRANULE_SIZE A) dvd unat b"
    "\<forall>i < frames_for A l. unat b + i * unat (GRANULE_SIZE A) < 2 ^ 56"
    "run_frames (GRANULE_SIZE A) b (frames_for A l) \<inter> set (tfa_free s) = {}"
  obtains s' where "tfa_deallocate b l s = Some s'" "tfa_ok A s'"
    "set (tfa_free s') = set (tfa_free s) \<union> run_frames (GRANULE_SIZE A) b (frames_for A l)"
proof -
  let ?g = "GRANULE_SIZE A" and ?n = "frames_for A l"
  have ok: "wf_arch A" "tfa_granule s = ?g" "sorted_wrt (<) (tfa_free s)" "frames_low (tfa_free s)"
    "\<forall>f \<in> set (tfa_free s). unat ?g dvd unat f"
    using assms(1) by (simp_all add: tfa_ok_def)
  note g = tfa_granule_facts [OF ok(1)]
  have lt: "unat b + i * unat ?g < 2 ^ 64" if "i < ?n" for i
    using assms(3) that by (rule_tac less_trans [of _ "2 ^ 56"]) auto
  obtain free' where free': "insert_run ?g b [0 ..< ?n] (tfa_free s) = Some free'" "sorted_wrt (<) free'"
    "set free' = set (tfa_free s) \<union> run_frames ?g b ?n"
    using insert_run_ok [OF g(2,1) assms(2) _ distinct_upt _ ok(3), of 0 ?n] lt assms(4) by (auto simp: run_frames_def)
  have "unat f < 2 ^ 56 \<and> unat ?g dvd unat f" if "f \<in> run_frames ?g b ?n" for f
  proof -
    obtain i where i: "i < ?n" "f = run_frame ?g b i" using \<open>f \<in> run_frames ?g b ?n\<close> by (auto simp: run_frames_def)
    then have "unat f = unat b + i * unat ?g" using unat_run_frame [OF lt] by blast
    then show ?thesis using assms(2,3) i(1) by auto
  qed
  then have "tfa_ok A (s\<lparr>tfa_free := free'\<rparr>)"
    using ok free' by (auto simp: tfa_ok_def frames_low_def)
  then show ?thesis
    using free' ok(2) g(4) by (intro that [of "s\<lparr>tfa_free := free'\<rparr>"]) (simp_all add: tfa_deallocate_def div_ceil_def)
qed

section \<open>The constructor\<close>

lemma carve_ok:
  assumes "0 < unat g" "unat g dvd unat frame" "unat g dvd unat stop" "sorted_wrt (<) free"
  shows "\<exists>free'. carve g frame stop free = Some free' \<and> sorted_wrt (<) free' \<and>
    set free' = set free \<union> {f. unat g dvd unat f \<and> unat frame \<le> unat f \<and> unat f < unat stop}"
  using assms
proof (induction g frame stop free rule: carve.induct)
  case (1 g frame stop free)
  have g0: "g \<noteq> 0" using "1.prems"(1) by auto
  show ?case
  proof (cases "frame < stop")
    case True
    then have lt: "unat frame < unat stop" by (simp add: word_less_nat_alt)
    note le = multiples_apart [OF "1.prems"(2,3) lt]
    let ?f = "frame + g" and ?free = "snd (btree_insert frame free)"
    have add: "addr_add frame g = Some ?f" "unat ?f = unat frame + unat g"
      using le usize_lt [of stop] unat_add_usize [of frame g] by (simp_all add: addr_add_def usize_add_def)
    have "\<exists>free'. carve g ?f stop ?free = Some free' \<and> sorted_wrt (<) free' \<and>
      set free' = set ?free \<union> {f. unat g dvd unat f \<and> unat ?f \<le> unat f \<and> unat f < unat stop}"
      using "1.IH" [OF g0 True add(1) "1.prems"(1)] "1.prems" add(2) btree_insert_sorted by simp
    then obtain free' where free': "carve g ?f stop ?free = Some free'" "sorted_wrt (<) free'"
      "set free' = set ?free \<union> {f. unat g dvd unat f \<and> unat ?f \<le> unat f \<and> unat f < unat stop}" by blast
    have "carve g frame stop free = Some free'"
      using True g0 add(1) free'(1) by (subst carve.simps) simp
    moreover have "unat frame \<le> unat f \<longleftrightarrow> f = frame \<or> unat ?f \<le> unat f" if "unat g dvd unat f" for f
    proof -
      have "unat frame + unat g \<le> unat f" if "unat frame < unat f"
        using multiples_apart [OF "1.prems"(2) \<open>unat g dvd unat f\<close> that] .
      moreover have "f = frame \<longleftrightarrow> unat f = unat frame" using usize_eqI by blast
      ultimately show ?thesis using add(2) by linarith
    qed
    then have "set free' = set free \<union> {f. unat g dvd unat f \<and> unat frame \<le> unat f \<and> unat f < unat stop}"
      unfolding free'(3) btree_insert_set using lt "1.prems"(2) by auto
    ultimately show ?thesis using free'(2) by blast
  next
    case False
    then have "set free = set free \<union> {f. unat g dvd unat f \<and> unat frame \<le> unat f \<and> unat f < unat stop}"
      by (auto simp: word_less_nat_alt)
    moreover have "carve g frame stop free = Some free" using False g0 by (subst carve.simps) simp
    ultimately show ?thesis using "1.prems"(4) by blast
  qed
qed

lemma frames_inside:
  assumes "0 < g" "g dvd f"
  shows "round_up a g \<le> f \<and> f < round_down b g \<longleftrightarrow> a \<le> f \<and> f + g \<le> b"
proof -
  have "round_up a g \<le> f \<longleftrightarrow> a \<le> f"
    using round_up_ge [OF assms(1), of a] round_up_least [OF assms(1,2), of a] by linarith
  moreover have "f < round_down b g \<longleftrightarrow> f + g \<le> b"
    using multiples_apart [OF assms(2), of "round_down b g"] round_down_le [of b g]
      round_down_greatest [of g "f + g" b] assms by fastforce
  ultimately show ?thesis by blast
qed

lemma carve_regions_ok:
  assumes "is_power_of_two g" "0 < unat g" "\<forall>r \<in> set rs. round_up (unat (range_start r)) (unat g) < 2 ^ 64" "sorted_wrt (<) free"
  shows "\<exists>free'. carve_regions g rs free = Some free' \<and> sorted_wrt (<) free' \<and>
    set free' = set free \<union> {f. unat g dvd unat f \<and>
      (\<exists>r \<in> set rs. unat (range_start r) \<le> unat f \<and> unat f + unat g \<le> unat (range_end r))}"
  using assms(3,4)
proof (induction rs arbitrary: free)
  case (Cons r rs)
  let ?lo = "round_up (unat (range_start r)) (unat g)" and ?hi = "round_down (unat (range_end r)) (unat g)"
  have hi: "?hi < 2 ^ 64" using round_down_le usize_lt by (rule le_less_trans)
  let ?r = "range_of (of_nat ?lo) (of_nat ?hi)"
  have n: "unat (range_start ?r) = ?lo" "unat (range_end ?r) = ?hi"
    using hi Cons.prems(1) by (simp_all add: range_of_def unat_of_nat_usize)
  have al: "range_align_in r g = Some ?r"
    unfolding range_align_in_eq_Some n using assms(1) Cons.prems(1) by simp
  have d: "unat g dvd unat (range_start ?r)" "unat g dvd unat (range_end ?r)" unfolding n by simp_all
  obtain free1 where free1: "carve g (range_start ?r) (range_end ?r) free = Some free1" "sorted_wrt (<) free1"
    "set free1 = set free \<union> {f. unat g dvd unat f \<and> ?lo \<le> unat f \<and> unat f < ?hi}"
    using carve_ok [OF assms(2) d Cons.prems(2)] unfolding n by blast
  obtain free' where free': "carve_regions g rs free1 = Some free'" "sorted_wrt (<) free'"
    "set free' = set free1 \<union> {f. unat g dvd unat f \<and>
      (\<exists>r \<in> set rs. unat (range_start r) \<le> unat f \<and> unat f + unat g \<le> unat (range_end r))}"
    using Cons.IH [of free1] Cons.prems(1) free1(2) by auto
  have "carve_regions g (r # rs) free = Some free'" using al free1(1) free'(1) by simp
  moreover have "unat g dvd unat f \<and> ?lo \<le> unat f \<and> unat f < ?hi \<longleftrightarrow>
    unat g dvd unat f \<and> unat (range_start r) \<le> unat f \<and> unat f + unat g \<le> unat (range_end r)" for f :: usize
    using frames_inside [OF assms(2)] by blast
  then have "set free' = set free \<union> {f. unat g dvd unat f \<and>
      (\<exists>r \<in> set (r # rs). unat (range_start r) \<le> unat f \<and> unat f + unat g \<le> unat (range_end r))}"
    unfolding free'(3) free1(3) by auto
  ultimately show ?case using free'(2) by blast
qed simp

section \<open>The contract of \<open>unmap\<close>\<close>

text \<open>\<open>M\<close> is the memory the allocator manages: what is not free is owned by its clients.\<close>

definition tfa_inv :: "arch \<Rightarrow> PhysMap \<Rightarrow> paddr set \<Rightarrow> TestFrameAllocator \<Rightarrow> bool" where
  "tfa_inv A pm M s \<longleftrightarrow> tfa_ok A s \<and> set (tfa_free s) \<subseteq> M \<and> (\<forall>f \<in> M. frame_ok A pm f)"

definition tfa_owned :: "paddr set \<Rightarrow> TestFrameAllocator \<Rightarrow> paddr set" where
  "tfa_owned M s = M - set (tfa_free s)"

lemma granule_run:
  assumes "wf_arch A"
  shows "frames_for A (GRANULE_LAYOUT A) = 1" "run_frames (GRANULE_SIZE A) b 1 = {b}"
proof -
  note g = tfa_granule_facts(2) [OF assms]
  have "(unat (GRANULE_SIZE A) + (unat (GRANULE_SIZE A) - 1)) div unat (GRANULE_SIZE A) = 1"
    using g by (intro div_nat_eqI) simp_all
  then show "frames_for A (GRANULE_LAYOUT A) = 1" by (simp add: GRANULE_LAYOUT_def)
  show "run_frames (GRANULE_SIZE A) b 1 = {b}" by (simp add: run_frames_def run_frame_def)
qed

lemma tfa_alloc_granule:
  assumes "tfa_inv A pm M s"
  shows "\<exists>r s'. fa_allocate_contiguous test_frame_allocator (GRANULE_LAYOUT A) s = Some (r, s') \<and> tfa_inv A pm M s' \<and>
      (case r of
         Inl e \<Rightarrow> tfa_owned M s' = tfa_owned M s
       | Inr p \<Rightarrow> frame_ok A pm p \<and> p \<notin> tfa_owned M s \<and> tfa_owned M s' = insert p (tfa_owned M s))"
proof -
  have inv: "tfa_ok A s" "set (tfa_free s) \<subseteq> M" "\<forall>f \<in> M. frame_ok A pm f" "wf_arch A"
    using assms by (simp_all add: tfa_inv_def tfa_ok_def)
  note run = granule_run [OF inv(4)]
  show ?thesis
  proof (rule tfa_contiguous_ok [OF inv(1) wf_layout_GRANULE [OF inv(4)]], goal_cases)
    case 1
    then show ?case using assms by (simp add: test_frame_allocator_def)
  next
    case (2 b s')
    have set': "set (tfa_free s') = set (tfa_free s) - {b}" using 2(7) unfolding run .
    have "tfa_inv A pm M s'" using inv(2,3) 2(6) set' by (auto simp: tfa_inv_def)
    moreover have "tfa_owned M s' = insert b (tfa_owned M s)" using inv(2) 2(3) set' by (auto simp: tfa_owned_def)
    ultimately show ?case using 2(1,3) inv(2,3) by (auto simp: test_frame_allocator_def tfa_owned_def)
  qed
qed

lemma tfa_dealloc_granule:
  assumes "tfa_inv A pm M s" "c \<in> tfa_owned M s"
  shows "\<exists>s'. fa_deallocate test_frame_allocator c (GRANULE_LAYOUT A) s = Some s' \<and> tfa_inv A pm M s' \<and>
    tfa_owned M s' = tfa_owned M s - {c}"
proof -
  have inv: "tfa_ok A s" "set (tfa_free s) \<subseteq> M" "\<forall>f \<in> M. frame_ok A pm f" "wf_arch A" and c: "c \<in> M" "c \<notin> set (tfa_free s)"
    using assms by (simp_all add: tfa_inv_def tfa_ok_def tfa_owned_def)
  note run = granule_run [OF inv(4)]
  have ok: "frame_ok A pm c" using inv(3) c(1) by blast
  have "unat (GRANULE_SIZE A) dvd unat c" "\<forall>i < frames_for A (GRANULE_LAYOUT A). unat c + i * unat (GRANULE_SIZE A) < 2 ^ 56"
    "run_frames (GRANULE_SIZE A) c (frames_for A (GRANULE_LAYOUT A)) \<inter> set (tfa_free s) = {}"
    unfolding run using ok c(2) by (auto simp: frame_ok_def)
  from tfa_deallocate_ok [OF inv(1) this] obtain s' where s': "tfa_deallocate c (GRANULE_LAYOUT A) s = Some s'"
    "tfa_ok A s'" "set (tfa_free s') = set (tfa_free s) \<union> {c}"
    unfolding run by metis
  show ?thesis
    using s' inv(2,3) c(1) by (intro exI [of _ s']) (auto simp: test_frame_allocator_def tfa_inv_def tfa_owned_def)
qed

interpretation test: granule_deallocator A pm test_frame_allocator "tfa_inv A pm M" "tfa_owned M"
  for A pm M
proof (unfold_locales, goal_cases)
  case (1 s)
  then show ?case by (rule tfa_alloc_granule)
next
  case (2 s f)
  then show ?case by (simp add: tfa_inv_def tfa_owned_def)
next
  case (3 s c)
  then show ?case by (rule tfa_dealloc_granule)
qed

end
