(* ===== verification/Space_Properties.thy ===== *)
theory Space_Properties
  imports Space_Blocks Bump_Life Test_Frames
begin

text \<open>
  The properties of the address space of \<^verbatim>\<open>lib/mem-mmu/src/address_space.rs\<close>, on the allocators of the
  repository: the bump allocator where tables are allocated, the test allocator where they are freed.
\<close>

section \<open>A machine for the witnesses\<close>

text \<open>Two megabytes of memory, mapped to the same addresses; the root table is the topmost frame.\<close>

definition demo_pm :: PhysMap where
  "demo_pm = \<lparr>pm_translation_offset = 0, pm_range_phys = range_of 0x80000000 0x80200000,
     pm_range_virt = range_of 0x80000000 0x80200000\<rparr>"

definition demo_space :: HardwareAddressSpace where
  "demo_space = \<lparr>as_arch = Riscv64Sv39, as_root_page_table = \<lparr>tb_base = 0x801ff000, tb_depth = 0\<rparr>\<rparr>"

definition demo_bump :: BumpAllocator where
  "demo_bump =
     \<lparr>ba_arenas = [\<lparr>ar_region = \<lparr>mr_range = range_of 0x80000000 0x80200000, mr_kind = Usable\<rparr>, ar_ptr = 0x801ff000\<rparr>],
      ba_current_arena_hint = 0, ba_min_align = 4096\<rparr>"

definition demo_tfa :: TestFrameAllocator where
  "demo_tfa = \<lparr>tfa_granule = 4096, tfa_free = [0x80000000, 0x80001000]\<rparr>"

definition demo_frames :: "paddr set" where
  "demo_frames = {0x80000000, 0x80001000, 0x801ff000}"

lemma demo_arch: "wf_arch Riscv64Sv39" "GRANULE_SIZE Riscv64Sv39 = 4096" "VIRTUAL_ADDRESS_BITS Riscv64Sv39 = 39"
proof -
  show "wf_arch Riscv64Sv39" by (rule wf_arch_Riscv64(1))
  show "GRANULE_SIZE Riscv64Sv39 = 4096" by code_simp
  show "VIRTUAL_ADDRESS_BITS Riscv64Sv39 = 39" by code_simp
qed

lemma demo_pm_ok: "wf_physmap demo_pm"
  by (simp add: wf_physmap_def pm_window_def pm_base_def demo_pm_def range_is_empty_def range_of_def)

lemma demo_frame_ok: "frame_ok Riscv64Sv39 demo_pm 0x801ff000" "f \<in> demo_frames \<Longrightarrow> frame_ok Riscv64Sv39 demo_pm f"
  by (auto simp: frame_ok_def demo_arch(2) demo_pm_def range_of_def demo_frames_def)

lemma demo_setup: "op_setup Riscv64Sv39 demo_pm Size1GiB 0" "in_half Riscv64Sv39 0 (2 ^ 30)"
  "unat (page_BYTES Size1GiB) dvd 0" "unat (page_BYTES Size1GiB) dvd 2 ^ 30"
proof -
  have "leaf_depth_of Riscv64Sv39 Size1GiB = Some 0" by code_simp
  then show "op_setup Riscv64Sv39 demo_pm Size1GiB 0" using demo_arch(1) demo_pm_ok by (simp add: op_setup_def)
  show "in_half Riscv64Sv39 0 (2 ^ 30)" by (simp add: in_half_def demo_arch(3))
  show "unat (page_BYTES Size1GiB) dvd 0" "unat (page_BYTES Size1GiB) dvd 2 ^ 30" by simp_all
qed

lemma demo_bump_inv: "bump_inv Riscv64Sv39 demo_pm demo_bump" "bump_owned demo_bump = {0x801ff000}"
proof -
  have "min_align_ok 4096" using is_power_of_two_pow2 [of 12] by (simp add: min_align_ok_def)
  then show "bump_inv Riscv64Sv39 demo_pm demo_bump"
    using demo_arch by (simp add: bump_inv_def bump_ok_def arena_ok_def demo_bump_def demo_pm_def range_of_def)
  have "f = 0x801ff000" if "4096 dvd unat f" "0x801ff000 \<le> unat f" "unat f < 0x80200000" for f :: usize
  proof (rule usize_eqI)
    have "\<not> 0x801ff000 < unat f" using multiples_apart [of 4096 "0x801ff000" "unat f"] that by auto
    then show "unat f = unat (0x801ff000 :: usize)" using that by simp
  qed
  then show "bump_owned demo_bump = {0x801ff000}"
    by (auto simp: bump_owned_def demo_bump_def range_of_def kind_is_usable_def)
qed

lemma demo_tfa_inv: "tfa_inv Riscv64Sv39 demo_pm demo_frames demo_tfa" "tfa_owned demo_frames demo_tfa = {0x801ff000}"
  using demo_frame_ok(2) demo_arch
  by (auto simp: tfa_inv_def tfa_ok_def demo_tfa_def frames_low_def demo_frames_def tfa_owned_def)

lemma demo_levels: "LEVELS Riscv64Sv39 \<noteq> []" "sub_levels Riscv64Sv39 (LEVELS Riscv64Sv39)"
  using wf_arch_levels [OF demo_arch(1)] sub_levels_drop [OF demo_arch(1), of 0] by simp_all

text \<open>Zeroed memory: nothing is mapped.\<close>

lemma zero_word: "frame_word pm (\<lambda>_. 0) b i = 0"
  by (simp add: frame_word_def mem_word_def eval_nat_numeral)

lemma demo_vacant:
  "wf_space demo_pm (\<lambda>_. 0) demo_space" "space_frames demo_pm (\<lambda>_. 0) demo_space = {0x801ff000}"
  "unmapped_for demo_pm (\<lambda>_. 0) demo_space D s e"
proof -
  note z = pt_zero_table [OF demo_levels demo_frame_ok(1) zero_word]
  show "wf_space demo_pm (\<lambda>_. 0) demo_space" "space_frames demo_pm (\<lambda>_. 0) demo_space = {0x801ff000}"
    "unmapped_for demo_pm (\<lambda>_. 0) demo_space D s e"
    using z demo_arch(1) demo_pm_ok
    by (simp_all add: wf_space_def demo_space_def space_frames_def unmapped_for_def space_walk_def pte_is_vacant_def pte_get_def)
qed

text \<open>The first gigabyte mapped for reading and writing, by one leaf of the root table.\<close>

definition demo_mapped_mem :: mem where
  "demo_mapped_mem = the (arch_write (\<lambda>_. 0) (frame_cell demo_pm 0x801ff000 0) 7)"

definition demo_rw :: MemoryAttributes where
  "demo_rw = \<lparr>attr_READ = True, attr_WRITE_OR_EXECUTE = Write, attr_KIND = Normal\<rparr>"

lemma demo_rw_ok: "allows_access demo_rw"
  by (simp add: allows_access_def demo_rw_def allows_read_def)

lemma demo_words:
  "frame_word demo_pm demo_mapped_mem 0x801ff000 0 = 7"
  "0 < i \<Longrightarrow> i < 512 \<Longrightarrow> frame_word demo_pm demo_mapped_mem 0x801ff000 i = 0"
proof -
  have n: "frame_words Riscv64Sv39 = 512" using demo_arch(2) by (simp add: frame_words_def)
  then have n0: "0 < frame_words Riscv64Sv39" by simp
  have "\<exists>mem'. arch_write (\<lambda>_. 0) (frame_cell demo_pm 0x801ff000 0) 7 = Some mem' \<and>
    frame_word demo_pm mem' 0x801ff000 0 = 7 \<and>
    (\<forall>j < 512. 0 < j \<longrightarrow> frame_word demo_pm mem' 0x801ff000 j = 0)"
    by (rule frame_write [OF demo_arch(1) demo_pm_ok demo_frame_ok(1) n0, of "\<lambda>_. 0" 7])
      (use demo_frame_ok(1) n in \<open>auto simp: zero_word\<close>)
  then obtain mem' where m: "arch_write (\<lambda>_. 0) (frame_cell demo_pm 0x801ff000 0) 7 = Some mem'"
    "frame_word demo_pm mem' 0x801ff000 0 = 7" "\<forall>j < 512. 0 < j \<longrightarrow> frame_word demo_pm mem' 0x801ff000 j = 0" by blast
  show "frame_word demo_pm demo_mapped_mem 0x801ff000 0 = 7" using m(1,2) by (simp add: demo_mapped_mem_def)
  show "frame_word demo_pm demo_mapped_mem 0x801ff000 i = 0" if "0 < i" "i < 512"
    using m(1,3) that by (simp add: demo_mapped_mem_def)
qed

lemma demo_leaf: "pte_is_leaf 7" "\<not> pte_is_table 7" "pte_attributes 7 = Some demo_rw" "pte_address 7 = 0"
  "\<not> pte_is_table 0" "\<not> pte_is_leaf 0"
  by code_simp+

lemma demo_root_level: "LEVELS Riscv64Sv39 = level_new Size1GiB 512 True # tl (LEVELS Riscv64Sv39)"
  by code_simp

lemma demo_root_index: "v < 2 ^ 30 \<Longrightarrow> lv_index (level_new Size1GiB 512 True) v = 0" "lv_entries (level_new Size1GiB 512 True) = 512"
  by (simp_all add: lv_index_def lv_span_def level_new_def)

lemma demo_mapped:
  "wf_space demo_pm demo_mapped_mem demo_space" "space_frames demo_pm demo_mapped_mem demo_space = {0x801ff000}"
  "mapped_at demo_pm demo_mapped_mem demo_space 0 0 (2 ^ 30)"
proof -
  let ?w = "frame_word demo_pm demo_mapped_mem 0x801ff000"
  have w: "?w i = 7 \<or> ?w i = 0" if "i < 512" for i using demo_words that by (cases "i = 0") simp_all
  have nt: "\<not> pte_is_table (?w i)" if "i < 512" for i using w [OF that] demo_leaf by auto
  have ok: "leaf_ok lv (?w i)" if "i < 512" for i lv
    using w [OF that] demo_leaf by (auto simp: leaf_ok_def)
  have "pt_wf Riscv64Sv39 demo_pm demo_mapped_mem (LEVELS Riscv64Sv39) 0x801ff000"
    by (subst demo_root_level, rule pt_wfI) (use demo_frame_ok(1) nt ok demo_root_index(2) in auto)
  then show wf: "wf_space demo_pm demo_mapped_mem demo_space"
    using demo_arch(1) demo_pm_ok by (simp add: wf_space_def demo_space_def)
  have "pt_frames demo_pm demo_mapped_mem (LEVELS Riscv64Sv39) 0x801ff000 = {0x801ff000}"
    by (subst demo_root_level, rule set_eqI) (use nt demo_root_index(2) in \<open>auto simp: pt_frames_iff\<close>)
  then show "space_frames demo_pm demo_mapped_mem demo_space = {0x801ff000}"
    by (simp add: space_frames_def demo_space_def)
  have "lookup demo_space demo_pm demo_mapped_mem (of_nat v) =
      Some (Some (of_nat v AND (level_page_size (LEVELS Riscv64Sv39 ! 0) - 1), demo_rw, LEVELS Riscv64Sv39 ! 0))"
    if v: "v < 2 ^ 30" for v
  proof -
    have "unat (of_nat v :: usize) = v" using v by (simp add: unat_of_nat_usize)
    moreover have "pt_walk demo_pm demo_mapped_mem (LEVELS Riscv64Sv39) 0x801ff000 v = (7, 0)"
      using pt_walk_Cons(1) [of demo_pm demo_mapped_mem "0x801ff000" "level_new Size1GiB 512 True" v "tl (LEVELS Riscv64Sv39)"]
        demo_root_index(1) [OF v] demo_words(1) demo_leaf(2) by (subst demo_root_level) simp
    ultimately show ?thesis
      using lookup_walk [OF wf, of "of_nat v"] demo_leaf(1,3,4)
      by (simp add: space_walk_def demo_space_def translation_def)
  qed
  then show "mapped_at demo_pm demo_mapped_mem demo_space 0 0 (2 ^ 30)"
    by (auto simp: mapped_at_def demo_space_def)
qed


lemma demo_space_arch: "as_arch demo_space = Riscv64Sv39"
  by (simp add: demo_space_def)

section \<open>Creating and querying\<close>

text \<open>C17. \<open>HardwareAddressSpace::new\<close> with the bump allocator returns: either the allocator is out of memory, the memory
  is untouched and no frame has changed hands, or there is a new address space whose tree is well-formed and
  occupies exactly one frame, that frame was not owned before, and \<open>lookup\<close> of every address finds nothing.\<close>

theorem address_space_new_correct:
  assumes "wf_arch A" "wf_physmap pm" "bump_inv A pm al"
  shows "(\<exists>err al'. address_space_new (bump_frame_allocator cap) A pm (mem, al) = Some (Inl err, (mem, al')) \<and>
            bump_inv A pm al' \<and> bump_owned al' = bump_owned al) \<or>
         (\<exists>sp mem' al' root. address_space_new (bump_frame_allocator cap) A pm (mem, al) = Some (Inr sp, (mem', al')) \<and>
            as_arch sp = A \<and> root = tb_base (as_root_page_table sp) \<and> wf_space pm mem' sp \<and> bump_inv A pm al' \<and>
            space_frames pm mem' sp = {root} \<and> root \<notin> bump_owned al \<and> bump_owned al' = insert root (bump_owned al) \<and>
            (\<forall>v. lookup sp pm mem' v = Some None))"
  by (rule bump.address_space_new_ok [OF assms, of cap mem]) blast+

theorem address_space_new_correct_witness:
  "(\<exists>err al'. address_space_new (bump_frame_allocator 1) Riscv64Sv39 demo_pm (\<lambda>_. 0, demo_bump) = Some (Inl err, (\<lambda>_. 0, al')) \<and>
      bump_inv Riscv64Sv39 demo_pm al' \<and> bump_owned al' = bump_owned demo_bump) \<or>
   (\<exists>sp mem' al' root. address_space_new (bump_frame_allocator 1) Riscv64Sv39 demo_pm (\<lambda>_. 0, demo_bump) = Some (Inr sp, (mem', al')) \<and>
      as_arch sp = Riscv64Sv39 \<and> root = tb_base (as_root_page_table sp) \<and> wf_space demo_pm mem' sp \<and>
      bump_inv Riscv64Sv39 demo_pm al' \<and> space_frames demo_pm mem' sp = {root} \<and> root \<notin> bump_owned demo_bump \<and>
      bump_owned al' = insert root (bump_owned demo_bump) \<and> (\<forall>v. lookup sp demo_pm mem' v = Some None))"
  by (rule address_space_new_correct [OF demo_arch(1) demo_pm_ok demo_bump_inv(1)])

text \<open>C4. \<open>lookup\<close> on a well-formed address space never panics and is the walk of the hardware: the entry that the
  walk of the tree in memory ends at gives, when it is a leaf, the physical address joined with the offset, the
  attributes and the level, and nothing otherwise. (\<^verbatim>\<open>mem-core/MODEL.md\<close>, A-6.7, says that the physical address
  is the base of the block and the caller adds the offset; the code adds it.)\<close>

theorem lookup_refines_walk:
  assumes "wf_space pm mem sp"
  shows "lookup sp pm mem virt = Some (translation (as_arch sp) virt (space_walk pm mem sp (unat virt)))"
  by (rule lookup_walk [OF assms])

theorem lookup_refines_walk_witness:
  "wf_space demo_pm demo_mapped_mem demo_space \<and>
   lookup demo_space demo_pm demo_mapped_mem 0x1234 =
     Some (translation Riscv64Sv39 0x1234 (space_walk demo_pm demo_mapped_mem demo_space 0x1234))"
  using lookup_refines_walk [OF demo_mapped(1), of "0x1234"] demo_mapped(1) by (simp add: demo_space_arch)

section \<open>Mapping\<close>

text \<open>C1. \<open>map_contiguous\<close> with the bump allocator, on an unmapped range of whole pages in one half of the address
  space, returns; the tree stays well-formed in frames the allocator handed out; on success every address of the
  range translates to its place in the physical block with the attributes asked for at the level of the page
  size, and the whole range is recorded for flushing; on failure every address is so mapped or still unmapped;
  and no canonical address outside the range translates differently in any case.\<close>

theorem map_contiguous_correct:
  assumes "wf_space pm mem sp" "op_setup (as_arch sp) pm S D" "in_half (as_arch sp) s e"
    "unat (page_BYTES S) dvd s" "unat (page_BYTES S) dvd e" "unat (page_BYTES S) dvd phys" "phys + (e - s) \<le> 2 ^ 56"
    "allows_access at" "wf_flush f" "bump_inv (as_arch sp) pm al" "space_frames pm mem sp \<subseteq> bump_owned al"
    "unmapped_for pm mem sp D s e"
  shows "\<exists>r mem' al' f'. map_contiguous (bump_frame_allocator cap) pm S sp (range_nn s e) (of_nat phys) at (mem, al, f) =
      Some (r, (mem', al', f')) \<and>
    wf_space pm mem' sp \<and> bump_inv (as_arch sp) pm al' \<and> space_frames pm mem' sp \<subseteq> bump_owned al' \<and>
    mapped_to pm sp D at (\<lambda>off. phys + off) s e mem mem' r \<and>
    (r = Inr () \<and> covers_from f s e f' \<or> (\<exists>err. r = Inl err) \<and> (\<exists>p. covers_from f s p f'))"
  using bump.map_contiguous_mapped_to [OF assms(1) refl assms(2-12), of cap]
  by (elim exE conjE) (intro exI conjI; assumption)

theorem map_contiguous_correct_witness:
  "\<exists>r mem' al' f'. map_contiguous (bump_frame_allocator 1) demo_pm Size1GiB demo_space (range_nn 0 (2 ^ 30)) (of_nat (2 ^ 31))
      demo_rw (\<lambda>_. 0, demo_bump, flush_new) = Some (r, (mem', al', f')) \<and>
    wf_space demo_pm mem' demo_space \<and> bump_inv (as_arch demo_space) demo_pm al' \<and>
    space_frames demo_pm mem' demo_space \<subseteq> bump_owned al' \<and>
    mapped_to demo_pm demo_space 0 demo_rw (\<lambda>off. 2 ^ 31 + off) 0 (2 ^ 30) (\<lambda>_. 0) mem' r \<and>
    (r = Inr () \<and> covers_from flush_new 0 (2 ^ 30) f' \<or> (\<exists>err. r = Inl err) \<and> (\<exists>p. covers_from flush_new 0 p f'))"
  by (rule map_contiguous_correct)
    (use demo_vacant demo_setup demo_rw_ok demo_bump_inv in \<open>simp_all add: demo_space_arch\<close>)

text \<open>C14. \<open>map\<close> with the bump allocator, over a list of non-empty physical blocks of whole pages that fits an
  unmapped virtual range, returns and maps the blocks one after another: on success an address at some offset
  translates to the address at that offset into the blocks; on failure it does so or is unmapped; nothing outside
  changes, the tree stays well-formed and what was mapped is recorded for flushing.\<close>

theorem map_blocks_correct:
  assumes "wf_space pm mem sp" "op_setup (as_arch sp) pm S D" "allows_access at" "\<forall>b \<in> set bs. block_pages S b"
    "bs = [] \<or> in_half (as_arch sp) s (s + blocks_len bs)" "s + blocks_len bs \<le> e" "e < 2 ^ 64" "unat (page_BYTES S) dvd s"
    "wf_flush f" "bump_inv (as_arch sp) pm al" "space_frames pm mem sp \<subseteq> bump_owned al"
    "unmapped_for pm mem sp D s (s + blocks_len bs)"
  shows "\<exists>r mem' al' f'. map_blocks (bump_frame_allocator cap) pm S sp (range_nn s e) bs at (mem, al, f) =
      Some (r, (mem', al', f')) \<and>
    wf_space pm mem' sp \<and> bump_inv (as_arch sp) pm al' \<and> space_frames pm mem' sp \<subseteq> bump_owned al' \<and>
    mapped_to pm sp D at (block_at bs) s (s + blocks_len bs) mem mem' r \<and>
    (r = Inr () \<and> covers_from f s (s + blocks_len bs) f' \<or> (\<exists>err. r = Inl err) \<and> (\<exists>p. covers_from f s p f'))"
proof -
  have "bs \<noteq> [] \<Longrightarrow> in_half (as_arch sp) s (s + blocks_len bs)" using assms(5) by simp
  from bump.map_blocks_ok [OF refl assms(2-4,1) this assms(6-12)] show ?thesis .
qed

definition demo_blocks :: "addr_range list" where
  "demo_blocks = [range_of 0x80000000 0xc0000000, range_of 0 0x40000000]"

lemma demo_blocks_ok:
  "\<forall>b \<in> set demo_blocks. block_pages Size1GiB b" "blocks_len demo_blocks = 2 ^ 31"
  "in_half Riscv64Sv39 0 (0 + blocks_len demo_blocks)"
proof -
  show "\<forall>b \<in> set demo_blocks. block_pages Size1GiB b"
    by (simp add: demo_blocks_def block_pages_def range_of_def)
  show l: "blocks_len demo_blocks = 2 ^ 31" by (simp add: demo_blocks_def range_of_def)
  show "in_half Riscv64Sv39 0 (0 + blocks_len demo_blocks)" unfolding l by (simp add: in_half_def demo_arch(3))
qed

theorem map_blocks_correct_witness:
  "\<exists>r mem' al' f'. map_blocks (bump_frame_allocator 1) demo_pm Size1GiB demo_space (range_nn 0 (2 ^ 31)) demo_blocks
      demo_rw (\<lambda>_. 0, demo_bump, flush_new) = Some (r, (mem', al', f')) \<and>
    wf_space demo_pm mem' demo_space \<and> bump_inv (as_arch demo_space) demo_pm al' \<and>
    space_frames demo_pm mem' demo_space \<subseteq> bump_owned al' \<and>
    mapped_to demo_pm demo_space 0 demo_rw (block_at demo_blocks) 0 (0 + blocks_len demo_blocks) (\<lambda>_. 0) mem' r \<and>
    (r = Inr () \<and> covers_from flush_new 0 (0 + blocks_len demo_blocks) f' \<or>
     (\<exists>err. r = Inl err) \<and> (\<exists>p. covers_from flush_new 0 p f'))"
  by (rule map_blocks_correct)
    (use demo_vacant demo_setup(1,3) demo_rw_ok demo_bump_inv demo_blocks_ok in \<open>simp_all add: demo_space_arch\<close>)

text \<open>C18. \<open>map_identity\<close> with the bump allocator maps a block of whole pages in the lower half at its own addresses:
  it returns, and on success every address of the block translates to itself.\<close>

theorem map_identity_correct:
  assumes "wf_space pm mem sp" "op_setup (as_arch sp) pm S D" "in_half (as_arch sp) s e" "e \<le> 2 ^ 56"
    "unat (page_BYTES S) dvd s" "unat (page_BYTES S) dvd e"
    "allows_access at" "wf_flush f" "bump_inv (as_arch sp) pm al" "space_frames pm mem sp \<subseteq> bump_owned al"
    "unmapped_for pm mem sp D s e"
  shows "\<exists>r mem' al' f'. map_identity (bump_frame_allocator cap) pm S sp (range_nn s e) at (mem, al, f) =
      Some (r, (mem', al', f')) \<and>
    wf_space pm mem' sp \<and> bump_inv (as_arch sp) pm al' \<and> space_frames pm mem' sp \<subseteq> bump_owned al' \<and>
    (r = Inr () \<longrightarrow> covers_from f s e f' \<and> (\<forall>v. s \<le> v \<and> v < e \<longrightarrow>
       lookup sp pm mem' (of_nat v) = Some (Some (of_nat v, at\<lparr>attr_KIND := Normal\<rparr>, LEVELS (as_arch sp) ! D))))"
proof -
  have "s + (e - s) \<le> 2 ^ 56" using assms(3,4) by (simp add: in_half_def)
  note m = bump.map_contiguous_mapped_to [OF assms(1) refl assms(2,3,5,6,5) this assms(7-11), of cap]
  have "map_identity (bump_frame_allocator cap) pm S sp (range_nn s e) at =
    map_contiguous (bump_frame_allocator cap) pm S sp (range_nn s e) (of_nat s) at"
    by (simp add: map_identity_def range_of_def)
  with m show ?thesis
    by (elim exE conjE, intro exI conjI) (assumption | simp add: mapped_to_def | fastforce simp: mapped_to_def)+
qed

theorem map_identity_correct_witness:
  "\<exists>r mem' al' f'. map_identity (bump_frame_allocator 1) demo_pm Size1GiB demo_space (range_nn 0 (2 ^ 30))
      demo_rw (\<lambda>_. 0, demo_bump, flush_new) = Some (r, (mem', al', f')) \<and>
    wf_space demo_pm mem' demo_space \<and> bump_inv (as_arch demo_space) demo_pm al' \<and>
    space_frames demo_pm mem' demo_space \<subseteq> bump_owned al' \<and>
    (r = Inr () \<longrightarrow> covers_from flush_new 0 (2 ^ 30) f' \<and> (\<forall>v. 0 \<le> v \<and> v < 2 ^ 30 \<longrightarrow>
       lookup demo_space demo_pm mem' (of_nat v) =
         Some (Some (of_nat v, demo_rw\<lparr>attr_KIND := Normal\<rparr>, LEVELS (as_arch demo_space) ! 0))))"
  by (rule map_identity_correct)
    (use demo_vacant demo_setup demo_rw_ok demo_bump_inv in \<open>simp_all add: demo_space_arch\<close>)

section \<open>Changing mappings\<close>

text \<open>C11. \<open>set_attributes\<close> on a mapped range of whole pages returns, never fails and allocates nothing: every address
  keeps its physical address and its level and has the new attributes, every canonical address outside keeps its
  translation, the tree stays well-formed in its frames, and the range is recorded for flushing.\<close>

theorem set_attributes_correct:
  assumes "wf_space pm mem sp" "op_setup (as_arch sp) pm S D" "in_half (as_arch sp) s e"
    "unat (page_BYTES S) dvd s" "unat (page_BYTES S) dvd e" "allows_access at" "wf_flush f" "mapped_at pm mem sp D s e"
  shows "\<exists>mem' f'. set_attributes pm S sp (range_nn s e) at (mem, f) = Some (Inr (), (mem', f')) \<and>
    wf_space pm mem' sp \<and> space_frames pm mem' sp \<subseteq> space_frames pm mem sp \<and>
    (\<forall>v p a lv. s \<le> v \<and> v < e \<and> lookup sp pm mem (of_nat v) = Some (Some (p, a, lv)) \<longrightarrow>
       lookup sp pm mem' (of_nat v) = Some (Some (p, at\<lparr>attr_KIND := Normal\<rparr>, lv))) \<and>
    (\<forall>v. canonical (as_arch sp) v \<and> v \<notin> {s ..< e} \<longrightarrow> lookup sp pm mem' (of_nat v) = lookup sp pm mem (of_nat v)) \<and>
    covers_from f s e f'"
  by (rule set_attributes_ok [OF assms]) blast

theorem set_attributes_correct_witness:
  "\<exists>mem' f'. set_attributes demo_pm Size1GiB demo_space (range_nn 0 (2 ^ 30)) (demo_rw\<lparr>attr_WRITE_OR_EXECUTE := Execute\<rparr>)
      (demo_mapped_mem, flush_new) = Some (Inr (), (mem', f')) \<and>
    wf_space demo_pm mem' demo_space \<and> space_frames demo_pm mem' demo_space \<subseteq> space_frames demo_pm demo_mapped_mem demo_space \<and>
    (\<forall>v p a lv. 0 \<le> v \<and> v < 2 ^ 30 \<and> lookup demo_space demo_pm demo_mapped_mem (of_nat v) = Some (Some (p, a, lv)) \<longrightarrow>
       lookup demo_space demo_pm mem' (of_nat v) =
         Some (Some (p, (demo_rw\<lparr>attr_WRITE_OR_EXECUTE := Execute\<rparr>)\<lparr>attr_KIND := Normal\<rparr>, lv))) \<and>
    (\<forall>v. canonical (as_arch demo_space) v \<and> v \<notin> {0 ..< 2 ^ 30} \<longrightarrow>
       lookup demo_space demo_pm mem' (of_nat v) = lookup demo_space demo_pm demo_mapped_mem (of_nat v)) \<and>
    covers_from flush_new 0 (2 ^ 30) f'"
  by (rule set_attributes_correct)
    (use demo_mapped demo_setup in \<open>simp_all add: demo_space_arch allows_access_def allows_read_def demo_rw_def\<close>)

text \<open>C15. \<open>remap_contiguous\<close> on a mapped range of whole pages returns and never fails: every address translates to its
  place in the new block under its old attributes and level, and every canonical address outside keeps its
  translation; the tree stays well-formed in its frames, and the range is recorded for flushing.\<close>

theorem remap_contiguous_correct:
  assumes "wf_space pm mem sp" "op_setup (as_arch sp) pm S D" "in_half (as_arch sp) s e"
    "unat (page_BYTES S) dvd s" "unat (page_BYTES S) dvd e" "unat (page_BYTES S) dvd phys" "phys + (e - s) \<le> 2 ^ 56"
    "wf_flush f" "mapped_at pm mem sp D s e"
  shows "\<exists>mem' f'. remap_contiguous pm S sp (range_nn s e) (of_nat phys) (mem, f) = Some (Inr (), (mem', f')) \<and>
    wf_space pm mem' sp \<and> space_frames pm mem' sp \<subseteq> space_frames pm mem sp \<and>
    remapped_to pm sp (\<lambda>off. phys + off) s e mem mem' \<and> covers_from f s e f'"
  by (rule remap_contiguous_remapped_to [OF assms])

theorem remap_contiguous_correct_witness:
  "\<exists>mem' f'. remap_contiguous demo_pm Size1GiB demo_space (range_nn 0 (2 ^ 30)) (of_nat (2 ^ 31)) (demo_mapped_mem, flush_new) =
      Some (Inr (), (mem', f')) \<and>
    wf_space demo_pm mem' demo_space \<and> space_frames demo_pm mem' demo_space \<subseteq> space_frames demo_pm demo_mapped_mem demo_space \<and>
    remapped_to demo_pm demo_space (\<lambda>off. 2 ^ 31 + off) 0 (2 ^ 30) demo_mapped_mem mem' \<and> covers_from flush_new 0 (2 ^ 30) f'"
  by (rule remap_contiguous_correct) (use demo_mapped demo_setup in \<open>simp_all add: demo_space_arch\<close>)

text \<open>C16. \<open>remap\<close> on a mapped range, over blocks of whole pages, returns and never fails: an address at some offset
  translates to the address at that offset into the blocks, under its old attributes and level; nothing outside
  changes, and the pieces are recorded for flushing.\<close>

theorem remap_blocks_correct:
  assumes "wf_space pm mem sp" "op_setup (as_arch sp) pm S D" "\<forall>b \<in> set bs. block_pages S b"
    "bs = [] \<or> in_half (as_arch sp) s (s + blocks_len bs)" "s + blocks_len bs \<le> e" "e < 2 ^ 64" "unat (page_BYTES S) dvd s"
    "wf_flush f" "mapped_at pm mem sp D s (s + blocks_len bs)"
  shows "\<exists>mem' f'. remap_blocks pm S sp (range_nn s e) bs (mem, f) = Some (Inr (), (mem', f')) \<and>
    wf_space pm mem' sp \<and> space_frames pm mem' sp \<subseteq> space_frames pm mem sp \<and>
    remapped_to pm sp (block_at bs) s (s + blocks_len bs) mem mem' \<and> covers_from f s (s + blocks_len bs) f'"
proof -
  have "bs \<noteq> [] \<Longrightarrow> in_half (as_arch sp) s (s + blocks_len bs)" using assms(4) by simp
  from remap_blocks_ok [OF assms(2,3,1) this assms(5-9)] show ?thesis .
qed

theorem remap_blocks_correct_witness:
  "\<exists>mem' f'. remap_blocks demo_pm Size1GiB demo_space (range_nn 0 (2 ^ 30)) [range_of 0x80000000 0xc0000000]
      (demo_mapped_mem, flush_new) = Some (Inr (), (mem', f')) \<and>
    wf_space demo_pm mem' demo_space \<and> space_frames demo_pm mem' demo_space \<subseteq> space_frames demo_pm demo_mapped_mem demo_space \<and>
    remapped_to demo_pm demo_space (block_at [range_of 0x80000000 0xc0000000]) 0
      (0 + blocks_len [range_of 0x80000000 0xc0000000]) demo_mapped_mem mem' \<and>
    covers_from flush_new 0 (0 + blocks_len [range_of 0x80000000 0xc0000000]) f'"
proof -
  have l: "blocks_len [range_of 0x80000000 0xc0000000] = 2 ^ 30" by (simp add: range_of_def)
  have b: "\<forall>b \<in> set [range_of 0x80000000 0xc0000000]. block_pages Size1GiB b"
    by (simp add: block_pages_def range_of_def)
  show ?thesis
    by (rule remap_blocks_correct [OF demo_mapped(1) _ b, where D = 0], unfold l)
      (use demo_mapped demo_setup in \<open>simp_all add: demo_space_arch\<close>)
qed

section \<open>Unmapping\<close>

text \<open>C2. \<open>unmap\<close> with the test allocator, on a mapped range of whole pages, returns and never fails: nothing in the
  range is mapped any more, every canonical address outside keeps its translation, the tree stays well-formed,
  every table it still uses is owned while the freed ones are back with the allocator, and the range is recorded
  for flushing.\<close>

theorem unmap_correct:
  assumes "wf_space pm mem sp" "op_setup (as_arch sp) pm S D" "in_half (as_arch sp) s e"
    "unat (page_BYTES S) dvd s" "unat (page_BYTES S) dvd e" "wf_flush f"
    "tfa_inv (as_arch sp) pm M al" "space_frames pm mem sp \<subseteq> tfa_owned M al" "mapped_at pm mem sp D s e"
  shows "\<exists>mem' al' f'. unmap test_frame_allocator pm S sp (range_nn s e) (mem, al, f) = Some (Inr (), (mem', al', f')) \<and>
    wf_space pm mem' sp \<and> tfa_inv (as_arch sp) pm M al' \<and> space_frames pm mem' sp \<subseteq> tfa_owned M al' \<and>
    (\<forall>v. canonical (as_arch sp) v \<and> v \<notin> {s ..< e} \<longrightarrow> lookup sp pm mem' (of_nat v) = lookup sp pm mem (of_nat v)) \<and>
    (\<forall>v. s \<le> v \<and> v < e \<longrightarrow> lookup sp pm mem' (of_nat v) = Some None) \<and> covers_from f s e f'"
  by (rule test.unmap_ok [OF assms(1) refl assms(2-9)]) blast

theorem unmap_correct_witness:
  "\<exists>mem' al' f'. unmap test_frame_allocator demo_pm Size1GiB demo_space (range_nn 0 (2 ^ 30)) (demo_mapped_mem, demo_tfa, flush_new) =
      Some (Inr (), (mem', al', f')) \<and>
    wf_space demo_pm mem' demo_space \<and> tfa_inv (as_arch demo_space) demo_pm demo_frames al' \<and>
    space_frames demo_pm mem' demo_space \<subseteq> tfa_owned demo_frames al' \<and>
    (\<forall>v. canonical (as_arch demo_space) v \<and> v \<notin> {0 ..< 2 ^ 30} \<longrightarrow>
       lookup demo_space demo_pm mem' (of_nat v) = lookup demo_space demo_pm demo_mapped_mem (of_nat v)) \<and>
    (\<forall>v. 0 \<le> v \<and> v < 2 ^ 30 \<longrightarrow> lookup demo_space demo_pm mem' (of_nat v) = Some None) \<and> covers_from flush_new 0 (2 ^ 30) f'"
  by (rule unmap_correct) (use demo_mapped demo_setup demo_tfa_inv in \<open>simp_all add: demo_space_arch\<close>)

lemma mapped_to_mapped_at: "mapped_to pm sp D at phys s e mem mem' (Inr ()) \<Longrightarrow> mapped_at pm mem' sp D s e"
  by (auto simp: mapped_to_def mapped_at_def)

lemma map_then_unmap:
  assumes "wf_space pm mem sp" "op_setup (as_arch sp) pm S D" "in_half (as_arch sp) s e"
    "unat (page_BYTES S) dvd s" "unat (page_BYTES S) dvd e" "unat (page_BYTES S) dvd phys" "phys + (e - s) \<le> 2 ^ 56"
    "allows_access at" "wf_flush f" "tfa_inv (as_arch sp) pm M al" "space_frames pm mem sp \<subseteq> tfa_owned M al"
    "unmapped_for pm mem sp D s e"
    "map_contiguous test_frame_allocator pm S sp (range_nn s e) (of_nat phys) at (mem, al, f) = Some (Inr (), (mem1, al1, f1))"
  shows "\<exists>mem2 al2 f2. unmap test_frame_allocator pm S sp (range_nn s e) (mem1, al1, f1) = Some (Inr (), (mem2, al2, f2)) \<and>
    wf_space pm mem2 sp \<and> tfa_inv (as_arch sp) pm M al2 \<and> space_frames pm mem2 sp \<subseteq> tfa_owned M al2 \<and>
    (\<forall>v. canonical (as_arch sp) v \<longrightarrow> lookup sp pm mem2 (of_nat v) = lookup sp pm mem (of_nat v)) \<and>
    unmapped_for pm mem2 sp D s e \<and> covers_from f s e f2"
proof -
  have m: "wf_space pm mem1 sp" "tfa_inv (as_arch sp) pm M al1" "space_frames pm mem1 sp \<subseteq> tfa_owned M al1"
    "mapped_to pm sp D at (\<lambda>off. phys + off) s e mem mem1 (Inr ())" "covers_from f s e f1"
    using test.map_contiguous_mapped_to [OF assms(1) refl assms(2-12)] assms(13) by simp_all
  have f1: "wf_flush f1" using m(5) by (simp add: covers_from_def)
  have vac: "lookup sp pm mem (of_nat v) = Some None" if "s \<le> v" "v < e" for v
    using vacant_lookup [OF assms(1)] assms(12) in_half_less [OF assms(3)] that by (simp add: unmapped_for_def)
  show ?thesis
  proof (rule test.unmap_ok [OF m(1) refl assms(2-5) f1 m(2,3) mapped_to_mapped_at [OF m(4)]], intro exI conjI)
    fix mem2 al2 f2
    assume u: "\<And>v. canonical (as_arch sp) v \<Longrightarrow> v \<notin> {s ..< e} \<Longrightarrow> lookup sp pm mem2 (of_nat v) = lookup sp pm mem1 (of_nat v)"
      "\<And>v. s \<le> v \<Longrightarrow> v < e \<Longrightarrow> lookup sp pm mem2 (of_nat v) = Some None" and c: "covers_from f1 s e f2"
    show "\<forall>v. canonical (as_arch sp) v \<longrightarrow> lookup sp pm mem2 (of_nat v) = lookup sp pm mem (of_nat v)"
    proof (intro allI impI)
      fix v assume v: "canonical (as_arch sp) v"
      show "lookup sp pm mem2 (of_nat v) = lookup sp pm mem (of_nat v)"
      proof (cases "v \<in> {s ..< e}")
        case True
        then show ?thesis using u(2) vac by simp
      next
        case False
        then show ?thesis using u(1) [OF v] m(4) v by (simp add: mapped_to_def)
      qed
    qed
    show "covers_from f s e f2"
      using c m(5) by (auto simp: covers_from_def)
  qed
qed

text \<open>C3. Mapping and unmapping with the test allocator is a round trip: \<open>map_contiguous\<close> on an unmapped range returns;
  when it succeeds, \<open>unmap\<close> of the same range returns and succeeds, and afterwards every canonical address translates as
  it did before the two calls, with the range recorded for flushing and free to be mapped again.\<close>

theorem map_unmap_round_trip:
  assumes "wf_space pm mem sp" "op_setup (as_arch sp) pm S D" "in_half (as_arch sp) s e"
    "unat (page_BYTES S) dvd s" "unat (page_BYTES S) dvd e" "unat (page_BYTES S) dvd phys" "phys + (e - s) \<le> 2 ^ 56"
    "allows_access at" "wf_flush f" "tfa_inv (as_arch sp) pm M al" "space_frames pm mem sp \<subseteq> tfa_owned M al"
    "unmapped_for pm mem sp D s e"
  shows "\<exists>r mem1 al1 f1. map_contiguous test_frame_allocator pm S sp (range_nn s e) (of_nat phys) at (mem, al, f) = Some (r, (mem1, al1, f1)) \<and>
    (r = Inr () \<longrightarrow> (\<exists>mem2 al2 f2. unmap test_frame_allocator pm S sp (range_nn s e) (mem1, al1, f1) = Some (Inr (), (mem2, al2, f2)) \<and>
      wf_space pm mem2 sp \<and> tfa_inv (as_arch sp) pm M al2 \<and> space_frames pm mem2 sp \<subseteq> tfa_owned M al2 \<and>
      (\<forall>v. canonical (as_arch sp) v \<longrightarrow> lookup sp pm mem2 (of_nat v) = lookup sp pm mem (of_nat v)) \<and>
      unmapped_for pm mem2 sp D s e \<and> covers_from f s e f2))"
proof -
  obtain r mem1 al1 f1 where m:
    "map_contiguous test_frame_allocator pm S sp (range_nn s e) (of_nat phys) at (mem, al, f) = Some (r, (mem1, al1, f1))"
    using test.map_contiguous_mapped_to [OF assms(1) refl assms(2-12)] by (elim exE conjE)
  show ?thesis
  proof (intro exI, rule conjI [OF m], rule impI)
    assume "r = Inr ()"
    from map_then_unmap [OF assms m [unfolded this]]
    show "\<exists>mem2 al2 f2. unmap test_frame_allocator pm S sp (range_nn s e) (mem1, al1, f1) = Some (Inr (), (mem2, al2, f2)) \<and>
      wf_space pm mem2 sp \<and> tfa_inv (as_arch sp) pm M al2 \<and> space_frames pm mem2 sp \<subseteq> tfa_owned M al2 \<and>
      (\<forall>v. canonical (as_arch sp) v \<longrightarrow> lookup sp pm mem2 (of_nat v) = lookup sp pm mem (of_nat v)) \<and>
      unmapped_for pm mem2 sp D s e \<and> covers_from f s e f2" .
  qed
qed

theorem map_unmap_round_trip_witness:
  "\<exists>r mem1 al1 f1. map_contiguous test_frame_allocator demo_pm Size1GiB demo_space (range_nn 0 (2 ^ 30)) (of_nat (2 ^ 31)) demo_rw (\<lambda>_. 0, demo_tfa, flush_new) = Some (r, (mem1, al1, f1)) \<and>
    (r = Inr () \<longrightarrow> (\<exists>mem2 al2 f2. unmap test_frame_allocator demo_pm Size1GiB demo_space (range_nn 0 (2 ^ 30)) (mem1, al1, f1) = Some (Inr (), (mem2, al2, f2)) \<and>
      wf_space demo_pm mem2 demo_space \<and> tfa_inv (as_arch demo_space) demo_pm demo_frames al2 \<and> space_frames demo_pm mem2 demo_space \<subseteq> tfa_owned demo_frames al2 \<and>
      (\<forall>v. canonical (as_arch demo_space) v \<longrightarrow> lookup demo_space demo_pm mem2 (of_nat v) = lookup demo_space demo_pm (\<lambda>_. 0) (of_nat v)) \<and>
      unmapped_for demo_pm mem2 demo_space 0 0 (2 ^ 30) \<and> covers_from flush_new 0 (2 ^ 30) f2))"
  by (rule map_unmap_round_trip)
    (use demo_vacant demo_setup demo_rw_ok demo_tfa_inv in \<open>simp_all add: demo_space_arch\<close>)

end
