(* ===== verification/Allocator_Properties.thy ===== *)
theory Allocator_Properties
  imports Bump_Life Test_Frames
begin

text \<open>
  The properties of the two frame allocators: the bump allocator of the loader
  (\<^verbatim>\<open>sys/loader-flat/src/frame_alloc.rs\<close>) and the one of the emulated machine
  (\<^verbatim>\<open>lib/mem-testkit/src/frame_allocator.rs\<close>).
\<close>

section \<open>A machine for the witnesses\<close>

abbreviation region_at :: "usize \<Rightarrow> usize \<Rightarrow> MemoryRegionKind \<Rightarrow> MemoryRegion" where
  "region_at s e k \<equiv> \<lparr>mr_range = range_of s e, mr_kind = k\<rparr>"

text \<open>Two usable regions, the first with two pages left, the second with one, and a reserved one.\<close>

definition three_regions :: BumpAllocator where
  "three_regions =
     \<lparr>ba_arenas =
        [\<lparr>ar_region = region_at 0x80000000 0x80004000 Usable, ar_ptr = 0x80002000\<rparr>,
         \<lparr>ar_region = region_at 0x80008000 0x8000a000 Unusable, ar_ptr = 0x8000a000\<rparr>,
         \<lparr>ar_region = region_at 0x80010000 0x80012000 Usable, ar_ptr = 0x80011000\<rparr>],
      ba_current_arena_hint = 0, ba_min_align = 4096\<rparr>"

lemma min_align_4096: "min_align_ok 4096"
  using is_power_of_two_pow2 [of 12] by (simp add: min_align_ok_def)

lemma three_regions_ok: "bump_ok three_regions"
  using min_align_4096 by (simp add: three_regions_def bump_ok_def arena_ok_def range_of_def)

lemma wf_layout_pages: "wf_layout \<lparr>layout_size = 12288, layout_align = 4096\<rparr>" "wf_layout \<lparr>layout_size = 4096, layout_align = 4096\<rparr>"
  "wf_layout \<lparr>layout_size = 20480, layout_align = 4096\<rparr>" "wf_layout \<lparr>layout_size = 4096, layout_align = 0x10000\<rparr>"
  using is_power_of_two_pow2 [of 12] is_power_of_two_pow2 [of 16] by (simp_all add: wf_layout_def)

section \<open>The bump allocator\<close>

text \<open>
  C20. \<open>BumpAllocator::new\<close>, given at least one region and regions that are not empty and each hold a
  granule-aligned address (\<open>region_ok\<close>), panics exactly when two of them overlap or there are more than
  \<open>MAX_REGIONS\<close>. Otherwise it establishes the invariant of the allocator (ascending, disjoint,
  granule-aligned arenas), nothing is used, the free memory is exactly the granules inside the
  usable regions, and allocation starts in a largest arena.
\<close>

theorem bump_new_correct:
  assumes "wf_arch A" "rs \<noteq> []" "\<forall>r \<in> set rs. region_ok (unat (GRANULE_SIZE A)) r"
  shows "if length rs \<le> cap \<and> regions_apart rs
    then \<exists>s. bump_new A cap rs = Some s \<and> bump_ok s \<and> bump_usage s = Some 0 \<and>
      arenas_free (ba_arenas s) = (\<Union>r \<in> set rs. if kind_is_usable (mr_kind r)
        then {round_up (unat (range_start (mr_range r))) (unat (GRANULE_SIZE A)) ..<
              round_down (unat (range_end (mr_range r))) (unat (GRANULE_SIZE A))} else {}) \<and>
      (\<forall>a \<in> set (ba_arenas s). arena_size a \<le> arena_size (ba_arenas s ! ba_current_arena_hint s))
    else bump_new A cap rs = None"
proof (cases "length rs \<le> cap \<and> regions_apart rs")
  case True
  then obtain s where s: "bump_new A cap rs = Some s" "bump_ok s"
    "list_all2 (arena_from (unat (GRANULE_SIZE A))) (sort_key (\<lambda>r. range_start (mr_range r)) rs) (ba_arenas s)"
    "\<forall>a \<in> set (ba_arenas s). arena_size a \<le> arena_size (ba_arenas s ! ba_current_arena_hint s)"
    using bump_new_built [OF assms, of cap] by auto
  have top: "arena_at a = arena_hi a" if "a \<in> set (ba_arenas s)" for a
    using s(3) that by (auto simp: list_all2_conv_all_nth in_set_conv_nth arena_from_def)
  have "arena_usage a = Some (of_nat 0)" if "a \<in> set (ba_arenas s)" for a
  proof -
    have "arena_ok (unat (ba_min_align s)) a" using s(2) that by (simp add: bump_ok_def)
    from arena_usage_ok [OF this] show ?thesis using top [OF that] by simp
  qed
  then have "\<exists>n. bump_usage s = Some n \<and> unat n = 0"
    using arenas_sum_ok [OF s(2), of arena_usage "\<lambda>_. 0"] by (simp add: bump_usage_def bump_usages_def)
  then have "bump_usage s = Some 0" by (auto simp: unat_eq_0)
  then show ?thesis using True s(1,2,4) built_free [OF s(3)] by auto
next
  case False
  show ?thesis using bump_new_built [OF assms, of cap] unfolding if_not_P [OF False] .
qed

theorem bump_new_correct_witness:
  "wf_arch Riscv64Sv39 \<and>
   (let rs = [region_at 0x80010000 0x80012800 Usable, region_at 0x80000000 0x80008000 Usable] in
    rs \<noteq> [] \<and> length rs \<le> 16 \<and> (\<forall>r \<in> set rs. region_ok (unat (GRANULE_SIZE Riscv64Sv39)) r) \<and> regions_apart rs \<and>
    (\<exists>s. bump_new Riscv64Sv39 16 rs = Some s \<and> bump_ok s \<and> bump_usage s = Some 0) \<and>
    bump_new Riscv64Sv39 1 rs = None) \<and>
   bump_new Riscv64Sv39 16 [region_at 0x80000000 0x80008000 Usable, region_at 0x80004000 0x8000a000 Usable] = None"
proof -
  have G: "unat (GRANULE_SIZE Riscv64Sv39) = 4096" by code_simp
  let ?rs = "[region_at 0x80010000 0x80012800 Usable, region_at 0x80000000 0x80008000 Usable]"
  let ?bad = "[region_at 0x80000000 0x80008000 Usable, region_at 0x80004000 0x8000a000 Usable]"
  have ok: "\<forall>r \<in> set ?rs. region_ok (unat (GRANULE_SIZE Riscv64Sv39)) r" "\<forall>r \<in> set ?bad. region_ok (unat (GRANULE_SIZE Riscv64Sv39)) r"
    unfolding G by (simp_all add: region_ok_def range_is_empty_def range_of_def round_up_def round_down_def)
  have ap: "regions_apart ?rs" "\<not> regions_apart ?bad" by (simp_all add: range_nat_def range_of_def)
  show ?thesis
    using bump_new_correct [OF wf_arch_Riscv64(1) _ ok(1), of 16] bump_new_correct [OF wf_arch_Riscv64(1) _ ok(1), of 1]
      bump_new_correct [OF wf_arch_Riscv64(1) _ ok(2), of 16] wf_arch_Riscv64(1) ok(1) ap
    by (simp del: sorted_wrt.simps) blast
qed



text \<open>
  C19. Contiguous allocation returns and keeps the invariant. On success the block is aligned, was free and is not
  free afterwards, together with its padding; on failure nothing has changed, and no usable arena has an
  aligned place for the padded size. Both alignments (the layout's and the granule) count.
\<close>

theorem bump_contiguous_correct:
  assumes "bump_ok s" "wf_layout l" "bump_headroom l s"
  defines "al \<equiv> unat (max (ba_min_align s) (layout_align l))"
  shows "\<exists>r s'. bump_allocate_contiguous l s = Some (r, s') \<and> bump_ok s' \<and>
    (case r of
       Inl e \<Rightarrow> s' = s \<and> (0 < unat (layout_size l) \<longrightarrow>
         (\<forall>a \<in> set (ba_arenas s). \<forall>q. arena_usable a \<and> al dvd q \<and> arena_lo a \<le> q \<longrightarrow>
            arena_at a < q + round_up (unat (layout_size l)) al))
     | Inr p \<Rightarrow> al dvd unat p \<and>
         {unat p ..< unat p + unat (layout_size l)} \<subseteq> arenas_free (ba_arenas s) - arenas_free (ba_arenas s'))"
proof (rule bump_allocate_contiguous_ok [OF assms(1-3)], goal_cases)
  case 1
  have "arena_at a < q + round_up (unat (layout_size l)) al"
    if a: "0 < unat (layout_size l)" "a \<in> set (ba_arenas s)" "arena_usable a" "al dvd q" "arena_lo a \<le> q" for a q
  proof (rule ccontr)
    assume "\<not> ?thesis"
    then have "q + arena_need (ba_min_align s) l \<le> arena_at a" by (simp add: arena_need_def al_def)
    moreover have "al dvd q + arena_need (ba_min_align s) l" using a(4) by (simp add: arena_need_def al_def)
    ultimately have "q + arena_need (ba_min_align s) l \<le> arena_top (ba_min_align s) l a"
      unfolding arena_top_def al_def [symmetric] by (intro round_down_greatest)
    then show False using 1(2) a by (auto simp: arena_fits_def)
  qed
  then show ?case using 1(1) assms(1) by auto
next
  case (2 i)
  let ?p = "arena_take (ba_min_align s) l (ba_arenas s ! i)"
  have g: "min_align_ok (ba_min_align s)" using assms(1) by (simp add: bump_ok_def)
  note t = arena_take_nat [OF bump_arena_ok [OF assms(1) 2(2)] g assms(2) 2(3,4)]
  obtain b where b: "range_start b = ?p" "block_len b = unat (layout_size l)"
    "taken (block_in (unat (ba_min_align s)) (unat (layout_align l))) [(i, b)] (ba_arenas s) (ba_arenas (bump_move i ?p s))"
    using bump_contiguous_taken [OF assms(1,2) 2(3,2,4) refl] by blast
  have "range_nat b \<subseteq> arenas_free (ba_arenas s) - arenas_free (ba_arenas (bump_move i ?p s))"
    using taken_disjoint [OF b(3) bump_arenas_ok [OF assms(1)]] by simp
  moreover have "range_nat b = {unat ?p ..< unat ?p + unat (layout_size l)}"
    using b(1,2) 2(3) by (auto simp: range_nat_def)
  moreover have "al dvd unat ?p" using t(2,3) by (simp add: al_def max_def)
  ultimately show ?case using 2(1) bump_ok_take [OF assms(1,2) 2(3,2,4)] by simp
qed

theorem bump_contiguous_correct_witness:
  "bump_ok three_regions \<and> wf_layout \<lparr>layout_size = 4096, layout_align = 4096\<rparr> \<and>
   (\<exists>p s'. bump_allocate_contiguous \<lparr>layout_size = 4096, layout_align = 4096\<rparr> three_regions = Some (Inr p, s') \<and> bump_ok s')"
proof -
  let ?l = "\<lparr>layout_size = 4096, layout_align = 4096\<rparr>"
  have h: "bump_headroom ?l three_regions"
    by (rule bump_headroom_small [OF three_regions_ok wf_layout_pages(2)]) (simp add: three_regions_def)
  let ?a = "ba_arenas three_regions ! 0"
  have a: "?a \<in> set (ba_arenas three_regions)" "arena_usable ?a" "arena_lo ?a = 0x80000000" "arena_at ?a = 0x80002000"
    "ba_min_align three_regions = 4096"
    by (simp_all add: three_regions_def range_of_def kind_is_usable_def)
  from bump_contiguous_correct [OF three_regions_ok wf_layout_pages(2) h] show ?thesis
  proof (elim exE conjE, goal_cases)
    case (1 r s')
    have "r \<noteq> Inl e" for e
    proof
      assume "r = Inl e"
      then have *: "\<forall>a \<in> set (ba_arenas three_regions). \<forall>q. arena_usable a \<and> 4096 dvd q \<and>
              arena_lo a \<le> q \<longrightarrow> arena_at a < q + round_up 4096 4096"
        using 1(3) a(5) by simp
      have "arena_at ?a < 0x80000000 + round_up 4096 4096"
        by (rule bspec [OF * a(1), rule_format]) (use a(2,3) in simp)
      then show False using a by (simp add: round_up_def)
    qed
    then show ?case using 1(1,2) three_regions_ok wf_layout_pages(2) by (cases r) auto
  qed
qed

text \<open>
  C6. Over its whole life the allocator never hands out the same memory twice: for any sequence of requests of either
  kind with alignments up to the granule, every call returns, the invariant holds at the end, and all
  the blocks handed out are pairwise disjoint and were free at the start.
\<close>

theorem bump_run_disjoint:
  assumes "bump_ok s" "length (ba_arenas s) \<le> cap"
    "\<forall>q \<in> set reqs. wf_layout (request_layout q) \<and> layout_align (request_layout q) \<le> ba_min_align s"
  shows "\<exists>bs s'. bump_run cap reqs s = Some (bs, s') \<and> bump_ok s' \<and> ranges_disjoint bs \<and>
    (\<forall>b \<in> set bs. range_nat b \<subseteq> arenas_free (ba_arenas s) - arenas_free (ba_arenas s'))"
  using bump_run_ok [OF assms] by (auto simp: handed_out_def)

theorem bump_run_disjoint_witness:
  "\<exists>bs s'. bump_run 16 [Block \<lparr>layout_size = 4096, layout_align = 4096\<rparr>, Blocks \<lparr>layout_size = 12288, layout_align = 4096\<rparr>,
       Block \<lparr>layout_size = 4096, layout_align = 4096\<rparr>] three_regions = Some (bs, s') \<and> bump_ok s' \<and> ranges_disjoint bs"
proof -
  have "length (ba_arenas three_regions) \<le> 16" "ba_min_align three_regions = 4096" by (simp_all add: three_regions_def)
  then show ?thesis
    using bump_run_disjoint [OF three_regions_ok, of 16 "[Block \<lparr>layout_size = 4096, layout_align = 4096\<rparr>,
      Blocks \<lparr>layout_size = 12288, layout_align = 4096\<rparr>, Block \<lparr>layout_size = 4096, layout_align = 4096\<rparr>]"] wf_layout_pages
    by (auto simp del: bump_run.simps)
qed

text \<open>
  C21. The accounting never overflows or panics under the invariant: \<open>capacity\<close> and \<open>usage\<close> are the free and used bytes
  of all arenas, and together they are the size of all arenas, which is below \<open>2 ^ 64\<close>.
\<close>

theorem bump_accounting:
  assumes "bump_ok s"
  shows "\<exists>c u. bump_capacity s = Some c \<and> bump_usage s = Some u \<and>
    unat c = (\<Sum>a\<leftarrow>ba_arenas s. arena_at a - arena_lo a) \<and> unat u = (\<Sum>a\<leftarrow>ba_arenas s. arena_hi a - arena_at a) \<and>
    unat c + unat u = (\<Sum>a\<leftarrow>ba_arenas s. arena_size a) \<and> unat c + unat u < 2 ^ 64"
proof -
  have ok: "arena_ok (unat (ba_min_align s)) a" if "a \<in> set (ba_arenas s)" for a using assms that by (simp add: bump_ok_def)
  have b: "arena_lo a \<le> arena_at a" "arena_at a \<le> arena_hi a" if "a \<in> set (ba_arenas s)" for a
    using ok [OF that] by (simp_all add: arena_ok_def)
  obtain c where c: "bump_capacity s = Some c" "unat c = (\<Sum>a\<leftarrow>ba_arenas s. arena_at a - arena_lo a)"
    using arenas_sum_ok [OF assms, of arena_capacity "\<lambda>a. arena_at a - arena_lo a"] arena_capacity_ok [OF ok] b
    unfolding bump_capacity_def bump_capacities_def by (meson diff_le_mono)
  obtain u where u: "bump_usage s = Some u" "unat u = (\<Sum>a\<leftarrow>ba_arenas s. arena_hi a - arena_at a)"
    using arenas_sum_ok [OF assms, of arena_usage "\<lambda>a. arena_hi a - arena_at a"] arena_usage_ok [OF ok] b
    unfolding bump_usage_def bump_usages_def by (meson diff_le_mono2)
  have "(\<Sum>a\<leftarrow>as. arena_at a - arena_lo a) + (\<Sum>a\<leftarrow>as. arena_hi a - arena_at a) = (\<Sum>a\<leftarrow>as. arena_size a)"
    if "set as \<subseteq> set (ba_arenas s)" for as
    using that
  proof (induction as)
    case (Cons a as)
    then have "arena_lo a \<le> arena_at a" "arena_at a \<le> arena_hi a" using b by auto
    then show ?case using Cons by simp
  qed simp
  moreover have "0 + (\<Sum>a\<leftarrow>ba_arenas s. arena_size a) < 2 ^ 64"
    using assms b by (intro arena_sizes_bounded) (auto simp: bump_ok_def intro: order_trans)
  ultimately show ?thesis using c u by auto
qed

theorem bump_accounting_witness:
  "bump_ok three_regions \<and> (\<exists>c u. bump_capacity three_regions = Some c \<and> bump_usage three_regions = Some u \<and> unat c + unat u = 32768)"
proof -
  have "(\<Sum>a\<leftarrow>ba_arenas three_regions. arena_size a) = 32768" by (simp add: three_regions_def range_of_def)
  then show ?thesis using bump_accounting [OF three_regions_ok] three_regions_ok by auto
qed

text \<open>
  C22. An arena of the invariant handles every valid non-empty request without a panic, unless the pointer rounded down to an
  alignment above the granule falls below the region: then the capacity computation panics before
  the check for this very case (which would have returned \<open>None\<close>) is reached.
\<close>

theorem arena_allocate_panics_iff:
  assumes "arena_ok (unat g) a" "min_align_ok g" "wf_layout l" "0 < unat (layout_size l)"
  shows "arena_allocate g l a = None \<longleftrightarrow>
    kind_is_usable (mr_kind (ar_region a)) \<and> round_down (arena_at a) (unat (max g (layout_align l))) < arena_lo a"
  using arena_allocate_ok [OF assms] arena_allocate_panic [OF assms(1-3)]
  by (cases "arena_headroom g l a") (auto simp: arena_headroom_def arena_top_def)

theorem arena_allocate_panics_iff_witness:
  "(let a = \<lparr>ar_region = region_at 0x80001000 0x80004000 Usable, ar_ptr = 0x80004000\<rparr>;
        l = \<lparr>layout_size = 4096, layout_align = 0x10000\<rparr>
    in arena_ok (unat (4096 :: usize)) a \<and> wf_layout l \<and> arena_allocate 4096 l a = None)"
proof -
  let ?a = "\<lparr>ar_region = region_at 0x80001000 0x80004000 Usable, ar_ptr = 0x80004000\<rparr>"
  have a: "arena_ok (unat (4096 :: usize)) ?a" by (simp add: arena_ok_def range_of_def)
  have "arena_allocate 4096 \<lparr>layout_size = 4096, layout_align = 0x10000\<rparr> ?a = None"
    using arena_allocate_panics_iff [OF a min_align_4096 wf_layout_pages(4)]
    by (simp add: kind_is_usable_def round_down_def max_def range_of_def)
  then show ?thesis using a wf_layout_pages(4) by simp
qed

section \<open>The test frame allocator\<close>

text \<open>
  C24. \<open>TestFrameAllocator::new\<close> marks exactly the granules that lie completely inside one of the regions as free, in
  ascending order and without duplicates, even when regions overlap.
\<close>

theorem tfa_new_correct:
  assumes "wf_arch A" "\<forall>r \<in> set rs. unat (range_start r) \<le> 2 ^ 56 \<and> unat (range_end r) \<le> 2 ^ 56"
  shows "\<exists>s. tfa_new A rs = Some s \<and> tfa_ok A s \<and>
    set (tfa_free s) = {f. unat (GRANULE_SIZE A) dvd unat f \<and>
      (\<exists>r \<in> set rs. unat (range_start r) \<le> unat f \<and> unat f + unat (GRANULE_SIZE A) \<le> unat (range_end r))}"
proof -
  note g = tfa_granule_facts [OF assms(1)]
  have "round_up (unat (range_start r)) (unat (GRANULE_SIZE A)) < 2 ^ 64" if "r \<in> set rs" for r
    using round_up_lt [OF g(2), of "unat (range_start r)"] assms(2) that g(3) by fastforce
  then obtain free where free: "carve_regions (GRANULE_SIZE A) rs [] = Some free" "sorted_wrt (<) free"
    "set free = {f. unat (GRANULE_SIZE A) dvd unat f \<and>
      (\<exists>r \<in> set rs. unat (range_start r) \<le> unat f \<and> unat f + unat (GRANULE_SIZE A) \<le> unat (range_end r))}"
    using carve_regions_ok [OF g(1,2), of rs "[]"] by auto
  let ?s = "\<lparr>tfa_granule = GRANULE_SIZE A, tfa_free = free\<rparr>"
  have "unat f < 2 ^ 56" if "f \<in> set free" for f
    using that assms(2) g(2) unfolding free(3) by fastforce
  then have "tfa_ok A ?s"
    using assms(1) free(2,3) by (simp add: tfa_ok_def frames_low_def)
  then show ?thesis using free(1,3) by (intro exI [of _ ?s]) (simp add: tfa_new_def)
qed

theorem tfa_new_correct_witness:
  "wf_arch Riscv64Sv39 \<and>
   (\<exists>s. tfa_new Riscv64Sv39 [range_of 0x80000800 0x80003000, range_of 0x80002000 0x80004000] = Some s \<and>
      tfa_ok Riscv64Sv39 s \<and> 0x80002000 \<in> set (tfa_free s) \<and> 0x80000000 \<notin> set (tfa_free s))"
proof -
  have G: "unat (GRANULE_SIZE Riscv64Sv39) = 4096" by code_simp
  let ?rs = "[range_of 0x80000800 0x80003000, range_of 0x80002000 0x80004000]"
  have "\<forall>r \<in> set ?rs. unat (range_start r) \<le> 2 ^ 56 \<and> unat (range_end r) \<le> 2 ^ 56" by (simp add: range_of_def)
  from tfa_new_correct [OF wf_arch_Riscv64(1) this] show ?thesis
    unfolding G using wf_arch_Riscv64(1) by (auto simp: range_of_def)
qed

text \<open>
  C23. Allocating and deallocating contiguous frames is a round trip: allocation takes the lowest aligned run of free
  frames, or reports an error when there is none, and giving the same block back restores the
  allocator exactly; the double-free assertion does not fire.
\<close>

theorem tfa_round_trip:
  assumes "tfa_ok A s" "wf_layout l"
  shows "\<exists>r s'. tfa_allocate_contiguous l s = Some (r, s') \<and> tfa_ok A s' \<and>
    (case r of
       Inl e \<Rightarrow> s' = s \<and> (0 < unat (layout_size l) \<longrightarrow> (\<forall>b \<in> set (tfa_free s). \<not> run_fits A l s b))
     | Inr b \<Rightarrow> run_fits A l s b \<and> (\<forall>c \<in> set (tfa_free s). run_fits A l s c \<longrightarrow> b \<le> c) \<and>
         set (tfa_free s') = set (tfa_free s) - run_frames (GRANULE_SIZE A) b (frames_for A l) \<and>
         tfa_deallocate b l s' = Some s)"
proof (rule tfa_contiguous_ok [OF assms], goal_cases)
  case 1
  then show ?case using assms(1) by auto
next
  case (2 b s')
  let ?run = "run_frames (GRANULE_SIZE A) b (frames_for A l)"
  have sub: "?run \<subseteq> set (tfa_free s)" using 2(4) by (simp add: run_fits_def)
  have dv: "unat (GRANULE_SIZE A) dvd unat b" using assms(1) 2(3) by (simp add: tfa_ok_def)
  have disj: "?run \<inter> set (tfa_free s') = {}" using 2(7) by blast
  obtain s2 where s2: "tfa_deallocate b l s' = Some s2" "tfa_ok A s2" "set (tfa_free s2) = set (tfa_free s') \<union> ?run"
    using tfa_deallocate_ok [OF 2(6) dv 2(8) disj] by metis
  have "tfa_free s2 = tfa_free s"
    using s2(2,3) assms(1) 2(7) sub by (intro sorted_set_unique) (auto simp: tfa_ok_def)
  moreover have "tfa_granule s2 = tfa_granule s" using s2(2) assms(1) by (simp add: tfa_ok_def)
  ultimately have "s2 = s" by simp
  then show ?case using 2 s2(1) by auto
qed

theorem tfa_round_trip_witness:
  "(let s = \<lparr>tfa_granule = 4096, tfa_free = [0x80000000, 0x80001000, 0x80003000]\<rparr>; l = \<lparr>layout_size = 4096, layout_align = 4096\<rparr>
    in tfa_ok Riscv64Sv39 s \<and> wf_layout l \<and>
       (\<exists>r s'. tfa_allocate_contiguous l s = Some (r, s') \<and> tfa_ok Riscv64Sv39 s' \<and>
          (case r of Inl e \<Rightarrow> s' = s | Inr b \<Rightarrow> tfa_deallocate b l s' = Some s)))"
proof -
  have "GRANULE_SIZE Riscv64Sv39 = 4096" by code_simp
  then have ok: "tfa_ok Riscv64Sv39 \<lparr>tfa_granule = 4096, tfa_free = [0x80000000, 0x80001000, 0x80003000]\<rparr>"
    using wf_arch_Riscv64(1) by (simp add: tfa_ok_def frames_low_def)
  from tfa_round_trip [OF ok wf_layout_pages(2)] show ?thesis
  proof (elim exE conjE, goal_cases)
    case (1 r s')
    have "case r of Inl e \<Rightarrow> s' = \<lparr>tfa_granule = 4096, tfa_free = [0x80000000, 0x80001000, 0x80003000]\<rparr>
      | Inr b \<Rightarrow> tfa_deallocate b \<lparr>layout_size = 4096, layout_align = 4096\<rparr> s' =
          Some \<lparr>tfa_granule = 4096, tfa_free = [0x80000000, 0x80001000, 0x80003000]\<rparr>"
      using 1(3) by (cases r) simp_all
    then show ?case unfolding Let_def using 1(1,2) ok wf_layout_pages(2) by blast
  qed
qed

end
