(* ===== verification/Task_State.thy ===== *)
theory Task_State
  imports K23_Prelude
begin

text \<open>
  \<^verbatim>\<open>sys/async/src/task/state.rs\<close>: the state word of an asynchronous task. The fields that
  \<open>bitfield!\<close> declares are the fields of a record; \<open>REFS\<close> takes the bits the other fields leave, six
  flags and a two-bit waker state, and so is 56 bits wide. An operation is a closure that computes
  the next snapshot, run by \<open>transition\<close> in a compare-and-exchange loop. \<open>None\<close> is a panic.
\<close>

section \<open>The state word\<close>

datatype JoinWakerState = JW_Empty | JW_Registering | JW_Waiting | JW_Woken

fun jw_into_bits :: "JoinWakerState \<Rightarrow> usize" where
  "jw_into_bits JW_Empty = 0"
| "jw_into_bits JW_Registering = 1"
| "jw_into_bits JW_Waiting = 2"
| "jw_into_bits JW_Woken = 3"

definition jw_try_from_bits :: "usize \<Rightarrow> JoinWakerState option" where
  "jw_try_from_bits b =
     (if b = jw_into_bits JW_Registering then Some JW_Registering
      else if b = jw_into_bits JW_Waiting then Some JW_Waiting
      else if b = jw_into_bits JW_Empty then Some JW_Empty
      else if b = jw_into_bits JW_Woken then Some JW_Woken
      else None)"

record Snapshot =
  sn_POLLING :: bool
  sn_COMPLETE :: bool
  sn_WOKEN :: bool
  sn_CANCELLED :: bool
  sn_HAS_JOIN_HANDLE :: bool
  sn_JOIN_WAKER :: JoinWakerState
  sn_HAS_OUTPUT :: bool
  sn_REFS :: "56 word"

datatype StartPollAction = Poll | DontPoll | Cancelled bool
datatype JoinAction = TakeOutput | Canceled bool | Register | Reregister
datatype WakeByRefAction = WR_Enqueue | WR_None
datatype WakeByValAction = WV_Enqueue | WV_Drop
datatype PollResult = Ready | ReadyJoined | Pending | PendingSchedule

text \<open>The largest value of the state word, and \<open>REFS.raw_mask()\<close>: the mask of the count where it is in the word.\<close>

definition sn_all_ones :: Snapshot where
  "sn_all_ones = \<lparr>sn_POLLING = True, sn_COMPLETE = True, sn_WOKEN = True, sn_CANCELLED = True,
     sn_HAS_JOIN_HANDLE = True, sn_JOIN_WAKER = JW_Woken, sn_HAS_OUTPUT = True, sn_REFS = - 1\<rparr>"

definition REF_MAX :: usize where
  "REF_MAX = push_bit 8 (mask 56)"

definition state_new :: Snapshot where
  "state_new = \<lparr>sn_POLLING = False, sn_COMPLETE = False, sn_WOKEN = False, sn_CANCELLED = False,
     sn_HAS_JOIN_HANDLE = False, sn_JOIN_WAKER = JW_Empty, sn_HAS_OUTPUT = False, sn_REFS = 1\<rparr>"

definition ref_count :: "Snapshot \<Rightarrow> usize" where
  "ref_count s = ucast (sn_REFS s)"

text \<open>\<open>has_join_waker\<close> updates the flag \<open>should_wait\<close> that its caller captures.\<close>

definition has_join_waker :: "bool \<Rightarrow> Snapshot \<Rightarrow> (bool \<times> bool \<times> Snapshot) option" where
  "has_join_waker should_wait s =
     (case sn_JOIN_WAKER s of
        JW_Empty \<Rightarrow> Some (False, should_wait, s)
      | JW_Registering \<Rightarrow> do {
          debug_assert (sn_HAS_JOIN_HANDLE s);
          Some (True, True, s)
        }
      | JW_Waiting \<Rightarrow> do {
          debug_assert (sn_HAS_JOIN_HANDLE s);
          Some (True, False, s\<lparr>sn_JOIN_WAKER := JW_Empty\<rparr>)
        }
      | JW_Woken \<Rightarrow> do {
          debug_assert False;
          Some (False, should_wait, s)
        })"

section \<open>The loops\<close>

text \<open>
  What a compare-and-exchange loop meets is a list of attempts: the value the cell holds at the exchange,
  and whether the weak exchange fails although the value is the expected one. A loop that has used up
  the list is still running. \<open>transition\<close> returns the result of the closure, its captured
  variables, and the value it saw and the one it wrote.
\<close>

datatype 'a outcome = Panicked | Looping | Returned 'a

type_synonym attempts = "(Snapshot \<times> bool) list"
type_synonym ('c, 't) transition_fn = "'c \<Rightarrow> Snapshot \<Rightarrow> ('t \<times> 'c \<times> Snapshot) option"

fun transition ::
  "('c, 't) transition_fn \<Rightarrow> 'c \<Rightarrow> Snapshot \<Rightarrow> attempts \<Rightarrow> ('t \<times> 'c \<times> Snapshot \<times> Snapshot) outcome" where
  "transition f c current attempts =
     (case f c current of
        None \<Rightarrow> Panicked
      | Some (res, c', next) \<Rightarrow>
          if current = next then Returned (res, c', current, next)
          else (case attempts of
             [] \<Rightarrow> Looping
           | (actual, spurious) # rest \<Rightarrow>
               if actual = current \<and> \<not> spurious then Returned (res, c', current, next)
               else transition f c' actual rest))"

declare transition.simps [simp del]

fun wait_for_join_waker :: "Snapshot \<Rightarrow> attempts \<Rightarrow> (Snapshot \<times> Snapshot) outcome" where
  "wait_for_join_waker state [] = Looping"
| "wait_for_join_waker state ((actual, spurious) # rest) =
     (let state' = state\<lparr>sn_JOIN_WAKER := JW_Waiting\<rparr>;
          next = state'\<lparr>sn_JOIN_WAKER := JW_Woken\<rparr>
      in if actual = state' \<and> \<not> spurious then Returned (state', next)
         else wait_for_join_waker actual rest)"

section \<open>Polling\<close>

definition start_poll_fn :: "(bool, StartPollAction) transition_fn" where
  "start_poll_fn should_wait s =
     (if sn_POLLING s \<or> sn_COMPLETE s then Some (DontPoll, should_wait, s)
      else if sn_CANCELLED s then do {
        (wake_join_waker, should_wait', s') \<leftarrow> has_join_waker should_wait s;
        Some (Cancelled wake_join_waker, should_wait', s')
      }
      else Some (Poll, should_wait, s\<lparr>sn_POLLING := True, sn_WOKEN := False\<rparr>))"

definition end_poll_fn :: "bool \<Rightarrow> (bool, PollResult) transition_fn" where
  "end_poll_fn completed should_wait s =
     do {
       debug_assert (sn_POLLING s);
       debug_assert (\<not> sn_COMPLETE s);
       debug_assert (0 < ref_count s);
       let s1 = s\<lparr>sn_POLLING := False, sn_COMPLETE := completed\<rparr>;
       if \<not> completed \<and> sn_WOKEN s1 then Some (PendingSchedule, should_wait, s1)
       else do {
         (had_join_waker, should_wait', s2) \<leftarrow>
           (if completed then has_join_waker should_wait (s1\<lparr>sn_HAS_OUTPUT := True\<rparr>)
            else Some (False, should_wait, s1));
         Some (if had_join_waker then ReadyJoined else if completed then Ready else Pending, should_wait', s2)
       }
     }"

fun is_cancelled :: "StartPollAction \<Rightarrow> bool" where
  "is_cancelled (Cancelled w) = True"
| "is_cancelled a = False"

text \<open>
  Both calls wait for a waker that is being registered; the arguments are the first load and the attempts of
  the transition, and the load and the attempts of the wait.
\<close>

definition start_poll ::
  "Snapshot \<Rightarrow> attempts \<Rightarrow> Snapshot \<Rightarrow> attempts \<Rightarrow> StartPollAction outcome" where
  "start_poll current attempts loaded waits =
     (case transition start_poll_fn False current attempts of
        Panicked \<Rightarrow> Panicked
      | Looping \<Rightarrow> Looping
      | Returned (action, should_wait, _) \<Rightarrow>
          if should_wait
          then if \<not> is_cancelled action then Panicked
            else (case wait_for_join_waker loaded waits of
                Panicked \<Rightarrow> Panicked | Looping \<Rightarrow> Looping | Returned _ \<Rightarrow> Returned action)
          else Returned action)"

definition end_poll ::
  "bool \<Rightarrow> Snapshot \<Rightarrow> attempts \<Rightarrow> Snapshot \<Rightarrow> attempts \<Rightarrow> PollResult outcome" where
  "end_poll completed current attempts loaded waits =
     (case transition (end_poll_fn completed) False current attempts of
        Panicked \<Rightarrow> Panicked
      | Looping \<Rightarrow> Looping
      | Returned (action, should_wait, _) \<Rightarrow>
          if should_wait
          then if action \<noteq> ReadyJoined then Panicked
            else (case wait_for_join_waker loaded waits of
                Panicked \<Rightarrow> Panicked | Looping \<Rightarrow> Looping | Returned _ \<Rightarrow> Returned action)
          else Returned action)"

section \<open>Joining, waking and cancelling\<close>

definition should_register :: "Snapshot \<Rightarrow> (JoinAction \<times> Snapshot) option" where
  "should_register s =
     do {
       action \<leftarrow> (case sn_JOIN_WAKER s of
          JW_Empty \<Rightarrow> Some Register
        | x \<Rightarrow> do { debug_assert (x = JW_Waiting); Some Reregister });
       Some (action, s\<lparr>sn_JOIN_WAKER := JW_Registering\<rparr>)
     }"

definition try_join_fn :: "Snapshot \<Rightarrow> (JoinAction \<times> Snapshot) option" where
  "try_join_fn s =
     (let has_output = sn_HAS_OUTPUT s
      in if sn_CANCELLED s then Some (Canceled has_output, s)
         else if \<not> sn_COMPLETE s then should_register s
         else if \<not> has_output then should_register s
         else Some (TakeOutput, s\<lparr>sn_HAS_OUTPUT := False\<rparr>))"

definition join_waker_registered_fn :: "Snapshot \<Rightarrow> (unit \<times> Snapshot) option" where
  "join_waker_registered_fn s =
     do {
       debug_assert (sn_JOIN_WAKER s = JW_Registering);
       Some ((), s\<lparr>sn_HAS_JOIN_HANDLE := True, sn_JOIN_WAKER := JW_Waiting\<rparr>)
     }"

definition wake_by_val_fn :: "Snapshot \<Rightarrow> (WakeByValAction \<times> Snapshot) option" where
  "wake_by_val_fn s =
     (if sn_POLLING s then Some (WV_Drop, s)
      else if sn_COMPLETE s \<or> sn_WOKEN s then Some (WV_Drop, s)
      else Some (WV_Enqueue, s\<lparr>sn_WOKEN := True\<rparr>))"

definition wake_by_ref_fn :: "Snapshot \<Rightarrow> (WakeByRefAction \<times> Snapshot) option" where
  "wake_by_ref_fn s =
     (if sn_COMPLETE s \<or> sn_WOKEN s then Some (WR_None, s)
      else if sn_POLLING s then Some (WR_None, s\<lparr>sn_WOKEN := True\<rparr>)
      else Some (WR_Enqueue, s\<lparr>sn_WOKEN := True\<rparr>))"

definition cancel_fn :: "Snapshot \<Rightarrow> (bool \<times> Snapshot) option" where
  "cancel_fn s =
     (if sn_CANCELLED s then Some (False, s)
      else Some (True, s\<lparr>sn_CANCELLED := True, sn_WOKEN := True\<rparr>))"

definition create_join_handle_fn :: "Snapshot \<Rightarrow> (unit \<times> Snapshot) option" where
  "create_join_handle_fn s =
     do {
       debug_assert (\<not> sn_HAS_JOIN_HANDLE s);
       Some ((), s\<lparr>sn_HAS_JOIN_HANDLE := True\<rparr>)
     }"

text \<open>The operations that are one atomic instruction.\<close>

definition drop_join_handle :: "Snapshot \<Rightarrow> (unit \<times> Snapshot) option" where
  "drop_join_handle prev =
     do {
       debug_assert (sn_HAS_JOIN_HANDLE prev);
       Some ((), prev\<lparr>sn_HAS_JOIN_HANDLE := False\<rparr>)
     }"

definition clone_ref :: "Snapshot \<Rightarrow> (unit \<times> Snapshot) option" where
  "clone_ref prev =
     do {
       let s = prev\<lparr>sn_REFS := sn_REFS prev + 1\<rparr>;
       debug_assert (prev \<noteq> sn_all_ones);
       let old_refs = ref_count prev;
       debug_assert (old_refs < REF_MAX);
       Some ((), s)
     }"

definition drop_ref :: "Snapshot \<Rightarrow> (bool \<times> Snapshot) option" where
  "drop_ref prev =
     do {
       let s = prev\<lparr>sn_REFS := sn_REFS prev - 1\<rparr>;
       let old_refs = ref_count prev;
       debug_assert (old_refs \<noteq> 0);
       Some (\<not> 1 < old_refs, s)
     }"

section \<open>The task\<close>

text \<open>
  \<^verbatim>\<open>sys/async/src/task.rs\<close>: the parts of a task that the state protects. A waker is a value, and two wakers
  are the same when \<open>will_wake\<close> says so; what \<open>poll_inner\<close> gets from the future is an argument,
  \<open>None\<close> when it is pending; a future that panics ends the program, as it does without the unwinding
  runtime. With that runtime the poll catches a panic of the future, stores it where the output would be and
  makes the task ready: that is the poll of a ready future whose output \<open>'o\<close> is the result or the
  caught panic. (It also catches the unexpected stage, for which \<open>stage_poll\<close> panics.) Between its two transitions a call lets the other threads act on the task:
  \<open>others\<close> is what they do to it, \<open>None\<close> when one of them panics. A call that waits for a waker to be
  registered continues when the others have done so, and loops otherwise.
\<close>

datatype 'o Stage = Stage_Pending | Stage_Ready 'o | Stage_Consumed

record ('w, 'o) Task =
  tk_state :: Snapshot
  tk_stage :: "'o Stage"
  tk_join_waker :: "'w option"

type_synonym ('w, 'o) others = "('w, 'o) Task \<Rightarrow> ('w, 'o) Task option"

datatype 'o JoinPoll = JoinPending | JoinReady 'o | JoinCancelled "'o option"

definition wake_join_waker :: "('w, 'o) Task \<Rightarrow> 'w option \<times> ('w, 'o) Task" where
  "wake_join_waker t = (tk_join_waker t, t\<lparr>tk_join_waker := None\<rparr>)"

definition take_output :: "('w, 'o) Task \<Rightarrow> ('o \<times> ('w, 'o) Task) option" where
  "take_output t =
     (case tk_stage t of
        Stage_Ready output \<Rightarrow> Some (output, t\<lparr>tk_stage := Stage_Consumed\<rparr>)
      | _ \<Rightarrow> None)"

definition stage_poll :: "'o option \<Rightarrow> 'o Stage \<Rightarrow> (bool \<times> 'o Stage) option" where
  "stage_poll res stage =
     (case stage of
        Stage_Pending \<Rightarrow> (case res of None \<Rightarrow> Some (False, Stage_Pending) | Some output \<Rightarrow> Some (True, Stage_Ready output))
      | _ \<Rightarrow> None)"

text \<open>The end of both state transitions: wait for a waker that is being registered, then go on.\<close>

definition after_wait ::
  "bool \<Rightarrow> bool \<Rightarrow> ('w, 'o) others \<Rightarrow> ('w, 'o) Task \<Rightarrow> ('w, 'o) Task outcome" where
  "after_wait should_wait expected others t =
     (if \<not> should_wait then Returned t
      else if \<not> expected then Panicked
      else (case others t of
          None \<Rightarrow> Panicked
        | Some t' \<Rightarrow>
            if sn_JOIN_WAKER (tk_state t') = JW_Waiting
            then Returned (t'\<lparr>tk_state := (tk_state t')\<lparr>sn_JOIN_WAKER := JW_Woken\<rparr>\<rparr>)
            else Looping))"

definition finish_poll ::
  "PollResult \<Rightarrow> bool \<Rightarrow> ('w, 'o) Task outcome \<Rightarrow> (PollResult \<times> 'w option \<times> ('w, 'o) Task) outcome" where
  "finish_poll result wake r =
     (case r of
        Panicked \<Rightarrow> Panicked
      | Looping \<Rightarrow> Looping
      | Returned t \<Rightarrow> Returned (if wake then (result, wake_join_waker t) else (result, None, t)))"

definition task_poll ::
  "'o option \<Rightarrow> ('w, 'o) others \<Rightarrow> ('w, 'o) others \<Rightarrow> ('w, 'o) Task \<Rightarrow> (PollResult \<times> 'w option \<times> ('w, 'o) Task) outcome" where
  "task_poll res others waits t =
     (case start_poll_fn False (tk_state t) of
        None \<Rightarrow> Panicked
      | Some (DontPoll, _, _) \<Rightarrow> Returned (Ready, None, t)
      | Some (Cancelled wake, w, s) \<Rightarrow>
          finish_poll (if wake then ReadyJoined else Ready) wake (after_wait w True waits (t\<lparr>tk_state := s\<rparr>))
      | Some (Poll, w, s) \<Rightarrow>
          (case stage_poll res (tk_stage t) of
             None \<Rightarrow> Panicked
           | Some (ready, stage) \<Rightarrow>
               (case others (t\<lparr>tk_state := s, tk_stage := stage\<rparr>) of
                  None \<Rightarrow> Panicked
                | Some t1 \<Rightarrow>
                    (case end_poll_fn ready False (tk_state t1) of
                       None \<Rightarrow> Panicked
                     | Some (result, w', s') \<Rightarrow>
                         finish_poll result (result = ReadyJoined)
                           (after_wait w' (result = ReadyJoined) waits (t1\<lparr>tk_state := s'\<rparr>))))))"

definition register_waker :: "'w \<Rightarrow> JoinAction \<Rightarrow> 'w option \<Rightarrow> 'w option option" where
  "register_waker cx action slot =
     (if action = Register then Some (Some cx)
      else (case slot of
          None \<Rightarrow> None
        | Some waker \<Rightarrow> Some (Some (if waker \<noteq> cx then cx else waker))))"

definition task_poll_join ::
  "'w \<Rightarrow> ('w, 'o) others \<Rightarrow> ('w, 'o) Task \<Rightarrow> ('o JoinPoll \<times> ('w, 'o) Task) option" where
  "task_poll_join cx others t =
     do {
       (action, s) \<leftarrow> try_join_fn (tk_state t);
       let t1 = t\<lparr>tk_state := s\<rparr>;
       (case action of
          TakeOutput \<Rightarrow> do { (output, t2) \<leftarrow> take_output t1; Some (JoinReady output, t2) }
        | Canceled completed \<Rightarrow>
            if completed then do { (output, t2) \<leftarrow> take_output t1; Some (JoinCancelled (Some output), t2) }
            else Some (JoinCancelled None, t1)
        | _ \<Rightarrow> do {
            slot \<leftarrow> register_waker cx action (tk_join_waker t1);
            t2 \<leftarrow> others (t1\<lparr>tk_join_waker := slot\<rparr>);
            (_, s') \<leftarrow> join_waker_registered_fn (tk_state t2);
            Some (JoinPending, t2\<lparr>tk_state := s'\<rparr>)
          })
     }"

text \<open>The wakers: whether the task is put into the run queue. A reference that is not handed on is dropped.\<close>

definition task_wake :: "Snapshot \<Rightarrow> (bool \<times> Snapshot) option" where
  "task_wake s =
     do {
       (action, s') \<leftarrow> wake_by_val_fn s;
       (case action of
          WV_Enqueue \<Rightarrow> Some (True, s')
        | WV_Drop \<Rightarrow> do { (_, s'') \<leftarrow> drop_ref s'; Some (False, s'') })
     }"

definition task_wake_by_ref :: "Snapshot \<Rightarrow> (bool \<times> Snapshot) option" where
  "task_wake_by_ref s =
     do {
       (action, s') \<leftarrow> wake_by_ref_fn s;
       if action = WR_Enqueue then do { (_, s'') \<leftarrow> clone_ref s'; Some (True, s'') }
       else Some (False, s')
     }"

section \<open>The join handle\<close>

text \<open>
  \<^verbatim>\<open>sys/async/src/task/join_handle.rs\<close>: a handle holds the task until a poll of it is ready; polling it
  takes the task out, and puts it back only when the join is pending. The reference in a handle that is not put
  back, or is dropped, is dropped with it.
\<close>

datatype JoinHandleState = Handle_Task | Handle_Empty

definition join_handle_new :: "('w, 'o) Task \<Rightarrow> (JoinHandleState \<times> ('w, 'o) Task) option" where
  "join_handle_new t =
     do {
       (_, s) \<leftarrow> create_join_handle_fn (tk_state t);
       Some (Handle_Task, t\<lparr>tk_state := s\<rparr>)
     }"

definition join_handle_poll ::
  "'w \<Rightarrow> ('w, 'o) others \<Rightarrow> JoinHandleState \<Rightarrow> ('w, 'o) Task \<Rightarrow> ('o JoinPoll \<times> JoinHandleState \<times> ('w, 'o) Task) option" where
  "join_handle_poll cx others h t =
     (case h of
        Handle_Empty \<Rightarrow> None
      | Handle_Task \<Rightarrow> do {
          (poll, t1) \<leftarrow> task_poll_join cx others t;
          (case poll of
             JoinPending \<Rightarrow> Some (poll, Handle_Task, t1)
           | _ \<Rightarrow> do {
               (_, s) \<leftarrow> drop_join_handle (tk_state t1);
               (_, s') \<leftarrow> drop_ref s;
               Some (poll, Handle_Empty, t1\<lparr>tk_state := s'\<rparr>)
             })
        })"

definition join_handle_drop :: "JoinHandleState \<Rightarrow> ('w, 'o) Task \<Rightarrow> ('w, 'o) Task option" where
  "join_handle_drop h t =
     (case h of
        Handle_Empty \<Rightarrow> Some t
      | Handle_Task \<Rightarrow> do {
          (_, s) \<leftarrow> drop_join_handle (tk_state t);
          (_, s') \<leftarrow> drop_ref s;
          Some (t\<lparr>tk_state := s'\<rparr>)
        })"

end
