(* ===== verification/Task_Life.thy ===== *)
theory Task_Life
  imports Task_State
begin

text \<open>
  The life of a task: the loops of \<^verbatim>\<open>sys/async/src/task/state.rs\<close> take effect at one instant, so
  the calls of all threads are a sequence of atomic steps on the state word. A step relation adds what the
  callers in \<^verbatim>\<open>sys/async/src/task.rs\<close> and \<^verbatim>\<open>task/join_handle.rs\<close> hold: the threads that poll
  the task, the references, how often the output was taken, and the join handle.
\<close>

section \<open>The loops are atomic\<close>

lemma transition_atomic:
  assumes "transition f c current attempts = Returned (res, c', seen, next)"
  shows "(\<exists>c0. f c0 seen = Some (res, c', next)) \<and>
    (seen = next \<and> (seen = current \<or> seen \<in> fst ` set attempts) \<or> (seen, False) \<in> set attempts)"
  using assms
proof (induction attempts arbitrary: c current)
  case Nil
  then show ?case by (auto simp: transition.simps [of f c] split: option.splits if_splits)
next
  case (Cons a attempts)
  obtain actual spurious where a: "a = (actual, spurious)" by (cases a)
  obtain r d n where f: "f c current = Some (r, d, n)"
    using Cons.prems by (cases "f c current") (auto simp: transition.simps [of f c])
  show ?case
  proof (cases "current = n \<or> actual = current \<and> \<not> spurious")
    case True
    then have "(r, d, current, n) = (res, c', seen, next)"
      using Cons.prems f a by (auto simp: transition.simps [of f c] split: if_splits)
    then show ?thesis using f True a by auto
  next
    case False
    then have "transition f d actual attempts = Returned (res, c', seen, next)"
      using Cons.prems f a by (auto simp: transition.simps [of f c])
    then show ?thesis using Cons.IH a by fastforce
  qed
qed

lemma transition_ends: "transition f c current (pre @ [(s, b), (s, False)] @ post) \<noteq> Looping"
proof (induction pre arbitrary: c current)
  case Nil
  show ?case
    by (auto simp: transition.simps [of f c] transition.simps [of f _ s] split: option.splits)
next
  case (Cons a pre)
  obtain actual spurious where a: "a = (actual, spurious)" by (cases a)
  show ?case using a Cons.IH by (auto simp: transition.simps [of f c] split: option.splits)
qed

lemma transition_panics:
  "transition f c current attempts = Panicked \<Longrightarrow> \<exists>c0 s. f c0 s = None \<and> (s = current \<or> s \<in> fst ` set attempts)"
proof (induction attempts arbitrary: c current)
  case Nil
  then show ?case by (auto simp: transition.simps [of f c] split: option.splits if_splits)
next
  case (Cons a attempts)
  obtain actual spurious where a: "a = (actual, spurious)" by (cases a)
  show ?case
  proof (cases "f c current")
    case None
    then show ?thesis by blast
  next
    case (Some x)
    obtain r d n where x: "x = (r, d, n)" by (cases x)
    then have "transition f d actual attempts = Panicked"
      using Cons.prems a Some by (simp add: transition.simps [of f c] split: if_splits)
    from Cons.IH [OF this] show ?thesis using a by auto
  qed
qed

text \<open>The wait returns when it meets a registered waker twice, and goes on for as long as it meets none.\<close>

lemma wait_returns:
  assumes "sn_JOIN_WAKER s = JW_Waiting"
  shows "\<exists>r. wait_for_join_waker state (pre @ [(s, b), (s, False)] @ post) = Returned r"
proof (induction pre arbitrary: state)
  case Nil
  have "s\<lparr>sn_JOIN_WAKER := JW_Waiting\<rparr> = s" using assms by simp
  then show ?case by simp
next
  case (Cons a pre)
  obtain actual spurious where a: "a = (actual, spurious)" by (cases a)
  show ?case using Cons.IH a by simp
qed

lemma wait_goes_on:
  "\<forall>a \<in> set attempts. sn_JOIN_WAKER (fst a) \<noteq> JW_Waiting \<Longrightarrow> wait_for_join_waker state attempts = Looping"
  by (induction state attempts rule: wait_for_join_waker.induct) auto

lemma wait_atomic:
  "wait_for_join_waker s attempts = Returned (seen, next) \<Longrightarrow>
     sn_JOIN_WAKER seen = JW_Waiting \<and> next = seen\<lparr>sn_JOIN_WAKER := JW_Woken\<rparr> \<and> (seen, False) \<in> set attempts"
  by (induction s attempts rule: wait_for_join_waker.induct) (auto split: if_splits)

section \<open>Sequences of operations\<close>

datatype TaskOp =
    StartPoll | EndPoll bool | WaitForJoinWaker | TryJoin | JoinWakerRegistered | WakeByVal | WakeByRef
  | CloneRef | DropRef | CancelTask | CreateJoinHandle | DropJoinHandle

fun op_effect :: "TaskOp \<Rightarrow> Snapshot \<Rightarrow> Snapshot option" where
  "op_effect StartPoll s = map_option (snd \<circ> snd) (start_poll_fn False s)"
| "op_effect (EndPoll completed) s = map_option (snd \<circ> snd) (end_poll_fn completed False s)"
| "op_effect WaitForJoinWaker s =
     (if sn_JOIN_WAKER s = JW_Waiting then Some (s\<lparr>sn_JOIN_WAKER := JW_Woken\<rparr>) else None)"
| "op_effect TryJoin s = map_option snd (try_join_fn s)"
| "op_effect JoinWakerRegistered s = map_option snd (join_waker_registered_fn s)"
| "op_effect WakeByVal s = map_option snd (wake_by_val_fn s)"
| "op_effect WakeByRef s = map_option snd (wake_by_ref_fn s)"
| "op_effect CloneRef s = map_option snd (clone_ref s)"
| "op_effect DropRef s = map_option snd (drop_ref s)"
| "op_effect CancelTask s = map_option snd (cancel_fn s)"
| "op_effect CreateJoinHandle s = map_option snd (create_join_handle_fn s)"
| "op_effect DropJoinHandle s = map_option snd (drop_join_handle s)"

fun run_ops :: "TaskOp list \<Rightarrow> Snapshot \<Rightarrow> Snapshot option" where
  "run_ops [] s = Some s"
| "run_ops (p # ps) s = do { s' \<leftarrow> op_effect p s; run_ops ps s' }"

fun ends_poll :: "TaskOp \<Rightarrow> bool" where
  "ends_poll (EndPoll completed) = True"
| "ends_poll p = False"

lemmas task_fn_defs = start_poll_fn_def end_poll_fn_def has_join_waker_def try_join_fn_def should_register_def
  join_waker_registered_fn_def wake_by_val_fn_def wake_by_ref_fn_def clone_ref_def drop_ref_def cancel_fn_def
  create_join_handle_fn_def drop_join_handle_def

text \<open>While a poll runs, no operation but its end clears the wake-up or the poll.\<close>

lemma op_keeps_woken:
  assumes "op_effect p s = Some s'" "sn_POLLING s" "sn_WOKEN s" "\<not> sn_COMPLETE s" "\<not> ends_poll p"
  shows "sn_POLLING s' \<and> sn_WOKEN s' \<and> \<not> sn_COMPLETE s'"
  using assms
  by (cases p) (auto simp: task_fn_defs bind_eq_Some_conv split: if_splits option.splits JoinWakerState.splits)

lemma run_keeps_woken:
  assumes "run_ops ps s = Some s'" "sn_POLLING s" "sn_WOKEN s" "\<not> sn_COMPLETE s" "\<forall>p \<in> set ps. \<not> ends_poll p"
  shows "sn_POLLING s' \<and> sn_WOKEN s' \<and> \<not> sn_COMPLETE s'"
  using assms
proof (induction ps arbitrary: s)
  case (Cons p ps)
  obtain s1 where s1: "op_effect p s = Some s1" "run_ops ps s1 = Some s'"
    using Cons.prems(1) by (auto split: option.splits simp: bind_eq_Some_conv)
  show ?case using op_keeps_woken [OF s1(1)] Cons.IH [OF s1(2)] Cons.prems by simp
qed simp

section \<open>Threads, references and the output\<close>

text \<open>
  Where the one join handle of a task is: \<open>JoinHandle::new\<close> is called once, when the task is allocated, and only
  the poll of that handle joins the task. A join that is pending registers the waker and leaves the handle
  with the task; after any other join the handle is empty and its poll drops the join interest. A handle that
  still holds the task drops the interest when it is dropped.
\<close>

datatype HandlePhase = NoHandle | Holding | RegisteringWaker | Finishing | Released

fun after_join :: "JoinAction \<Rightarrow> HandlePhase" where
  "after_join Register = RegisteringWaker"
| "after_join Reregister = RegisteringWaker"
| "after_join TakeOutput = Finishing"
| "after_join (Canceled completed) = Finishing"

text \<open>The two answers of \<open>try_join\<close> on which \<open>poll_join\<close> takes the output.\<close>

fun grants_output :: "JoinAction \<Rightarrow> bool" where
  "grants_output TakeOutput = True"
| "grants_output (Canceled completed) = completed"
| "grants_output j = False"

record TaskSys =
  ts_state :: Snapshot
  ts_pollers :: nat
  ts_waiters :: nat
  ts_refs :: nat
  ts_freed :: bool
  ts_taken :: nat
  ts_handle :: HandlePhase

definition sys_new :: TaskSys where
  "sys_new = \<lparr>ts_state = state_new, ts_pollers = 0, ts_waiters = 0, ts_refs = 1, ts_freed = False, ts_taken = 0,
     ts_handle = NoHandle\<rparr>"

text \<open>
  Every caller holds a reference. The captured flag of a loop may have any value left by earlier rounds. There
  are fewer than \<open>2\<close> to the \<open>56\<close> references.
\<close>

inductive task_step :: "TaskSys \<Rightarrow> TaskSys \<Rightarrow> bool" where
  start: "0 < ts_refs t \<Longrightarrow> start_poll_fn w (ts_state t) = Some (a, w', s') \<Longrightarrow> (w' \<longrightarrow> is_cancelled a) \<Longrightarrow>
    task_step t (t\<lparr>ts_state := s', ts_pollers := ts_pollers t + of_bool (a = Poll), ts_waiters := ts_waiters t + of_bool w'\<rparr>)"
| end_poll: "0 < ts_refs t \<Longrightarrow> 0 < ts_pollers t \<Longrightarrow> end_poll_fn completed w (ts_state t) = Some (r, w', s') \<Longrightarrow>
    (w' \<longrightarrow> r = ReadyJoined) \<Longrightarrow>
    task_step t (t\<lparr>ts_state := s', ts_pollers := ts_pollers t - 1, ts_waiters := ts_waiters t + of_bool w'\<rparr>)"
| wait: "0 < ts_refs t \<Longrightarrow> 0 < ts_waiters t \<Longrightarrow> sn_JOIN_WAKER (ts_state t) = JW_Waiting \<Longrightarrow>
    task_step t (t\<lparr>ts_state := (ts_state t)\<lparr>sn_JOIN_WAKER := JW_Woken\<rparr>, ts_waiters := ts_waiters t - 1\<rparr>)"
| join: "0 < ts_refs t \<Longrightarrow> ts_handle t = Holding \<Longrightarrow> try_join_fn (ts_state t) = Some (j, s') \<Longrightarrow>
    task_step t (t\<lparr>ts_state := s', ts_taken := ts_taken t + of_bool (grants_output j), ts_handle := after_join j\<rparr>)"
| registered: "0 < ts_refs t \<Longrightarrow> ts_handle t = RegisteringWaker \<Longrightarrow> join_waker_registered_fn (ts_state t) = Some (u, s') \<Longrightarrow>
    task_step t (t\<lparr>ts_state := s', ts_handle := Holding\<rparr>)"
| wake_val: "0 < ts_refs t \<Longrightarrow> wake_by_val_fn (ts_state t) = Some (wv, s') \<Longrightarrow> task_step t (t\<lparr>ts_state := s'\<rparr>)"
| wake_ref: "0 < ts_refs t \<Longrightarrow> wake_by_ref_fn (ts_state t) = Some (wr, s') \<Longrightarrow> task_step t (t\<lparr>ts_state := s'\<rparr>)"
| cancel: "0 < ts_refs t \<Longrightarrow> cancel_fn (ts_state t) = Some (b, s') \<Longrightarrow> task_step t (t\<lparr>ts_state := s'\<rparr>)"
| create: "0 < ts_refs t \<Longrightarrow> ts_handle t = NoHandle \<Longrightarrow> create_join_handle_fn (ts_state t) = Some (u, s') \<Longrightarrow>
    task_step t (t\<lparr>ts_state := s', ts_handle := Holding\<rparr>)"
| drop_handle: "0 < ts_refs t \<Longrightarrow> ts_handle t \<in> {Holding, Finishing} \<Longrightarrow> drop_join_handle (ts_state t) = Some (u, s') \<Longrightarrow>
    task_step t (t\<lparr>ts_state := s', ts_handle := Released\<rparr>)"
| clone: "0 < ts_refs t \<Longrightarrow> ts_refs t + 1 < 2 ^ 56 \<Longrightarrow> clone_ref (ts_state t) = Some (u, s') \<Longrightarrow>
    task_step t (t\<lparr>ts_state := s', ts_refs := ts_refs t + 1\<rparr>)"
| drop: "0 < ts_refs t \<Longrightarrow> drop_ref (ts_state t) = Some (final, s') \<Longrightarrow>
    task_step t (t\<lparr>ts_state := s', ts_refs := ts_refs t - 1, ts_freed := final\<rparr>)"

definition output_inv :: "Snapshot \<Rightarrow> nat \<Rightarrow> HandlePhase \<Rightarrow> bool" where
  "output_inv s taken h \<longleftrightarrow>
     (sn_HAS_OUTPUT s \<longrightarrow> sn_COMPLETE s) \<and>
     (if taken = 0 then sn_COMPLETE s \<longrightarrow> sn_HAS_OUTPUT s
      else taken = 1 \<and> sn_COMPLETE s \<and> h \<in> {Finishing, Released})"

definition task_inv :: "TaskSys \<Rightarrow> bool" where
  "task_inv t \<longleftrightarrow>
     ts_pollers t = of_bool (sn_POLLING (ts_state t)) \<and>
     \<not> (sn_POLLING (ts_state t) \<and> sn_COMPLETE (ts_state t)) \<and>
     output_inv (ts_state t) (ts_taken t) (ts_handle t) \<and>
     unat (sn_REFS (ts_state t)) = ts_refs t \<and> ts_freed t = (ts_refs t = 0)"

lemma unat_REFS_succ: "unat (r :: 56 word) + 1 < 2 ^ 56 \<Longrightarrow> unat (r + 1) = unat r + 1"
  by (simp add: unat_word_ariths(1) unat_of_nat)

lemma unat_REFS_pred: "r \<noteq> (0 :: 56 word) \<Longrightarrow> unat (r - 1) = unat r - 1"
  by (simp add: unat_minus_one)

lemma unat_ref_count: "unat (ref_count s) = unat (sn_REFS s)"
proof -
  have "unat (sn_REFS s) < 2 ^ 64" using unsigned_less [of "sn_REFS s", where 'a = nat] by simp
  then show ?thesis by (simp add: ref_count_def unsigned_ucast_eq take_bit_nat_eq_self)
qed

lemma ref_count_pos: "ref_count s = 0 \<longleftrightarrow> sn_REFS s = 0" "1 < ref_count s \<longleftrightarrow> 1 < unat (sn_REFS s)"
  using unat_ref_count [of s] by (metis unat_eq_zero) (simp add: word_less_nat_alt unat_ref_count)

text \<open>The count is always below \<open>REF_MAX\<close>, which is the mask of the count at its place in the word.\<close>

lemma ref_count_REF_MAX: "ref_count s < REF_MAX"
proof -
  have m: "REF_MAX = 0xffffffffffffff00" by code_simp
  have "unat REF_MAX = 0xffffffffffffff00" unfolding m by simp
  moreover have "unat (sn_REFS s) < 2 ^ 56" using unsigned_less [of "sn_REFS s", where 'a = nat] by simp
  ultimately show ?thesis unfolding word_less_nat_alt unat_ref_count by simp
qed

lemma join_grants: "try_join_fn s = Some (j, s') \<Longrightarrow> grants_output j \<Longrightarrow> sn_HAS_OUTPUT s"
  by (auto simp: try_join_fn_def should_register_def bind_eq_Some_conv Let_def split: if_splits JoinWakerState.splits)

text \<open>What each kind of step does to the flags the invariant speaks of.\<close>

lemma start_poll_effect:
  assumes "start_poll_fn w s = Some (a, w', s')"
  shows "sn_COMPLETE s' = sn_COMPLETE s \<and> sn_HAS_OUTPUT s' = sn_HAS_OUTPUT s \<and> sn_REFS s' = sn_REFS s \<and>
    (if a = Poll then \<not> sn_POLLING s \<and> \<not> sn_COMPLETE s \<and> sn_POLLING s' else sn_POLLING s' = sn_POLLING s)"
  using assms
  by (auto simp: start_poll_fn_def has_join_waker_def bind_eq_Some_conv split: if_splits JoinWakerState.splits)

lemma end_poll_effect:
  assumes "end_poll_fn completed w s = Some (r, w', s')"
  shows "sn_POLLING s \<and> \<not> sn_COMPLETE s \<and> \<not> sn_POLLING s' \<and> sn_COMPLETE s' = completed \<and>
    sn_HAS_OUTPUT s' = (sn_HAS_OUTPUT s \<or> completed) \<and> sn_REFS s' = sn_REFS s"
  using assms
  by (auto simp: end_poll_fn_def has_join_waker_def bind_eq_Some_conv Let_def split: if_splits JoinWakerState.splits)

lemma try_join_effect:
  assumes "try_join_fn s = Some (j, s')"
  shows "sn_POLLING s' = sn_POLLING s \<and> sn_COMPLETE s' = sn_COMPLETE s \<and> sn_REFS s' = sn_REFS s \<and>
    (if grants_output j then sn_HAS_OUTPUT s \<and> after_join j = Finishing else sn_HAS_OUTPUT s' = sn_HAS_OUTPUT s) \<and>
    (sn_HAS_OUTPUT s' \<longrightarrow> sn_HAS_OUTPUT s)"
  using assms
  by (auto simp: try_join_fn_def should_register_def bind_eq_Some_conv Let_def split: if_splits JoinWakerState.splits)

definition flags_kept :: "Snapshot \<Rightarrow> Snapshot \<Rightarrow> bool" where
  "flags_kept s s' \<longleftrightarrow> sn_POLLING s' = sn_POLLING s \<and> sn_COMPLETE s' = sn_COMPLETE s \<and>
     sn_HAS_OUTPUT s' = sn_HAS_OUTPUT s \<and> sn_REFS s' = sn_REFS s"

lemma other_effects:
  "join_waker_registered_fn s = Some (u, s') \<Longrightarrow> flags_kept s s'"
  "wake_by_val_fn s = Some (wv, s') \<Longrightarrow> flags_kept s s'"
  "wake_by_ref_fn s = Some (wr, s') \<Longrightarrow> flags_kept s s'"
  "cancel_fn s = Some (b, s') \<Longrightarrow> flags_kept s s'"
  "create_join_handle_fn s = Some (u, s') \<Longrightarrow> flags_kept s s'"
  "drop_join_handle s = Some (u, s') \<Longrightarrow> flags_kept s s'"
  by (auto simp: flags_kept_def task_fn_defs bind_eq_Some_conv split: if_splits)

lemma task_inv_kept:
  assumes "task_inv t" "flags_kept (ts_state t) (ts_state t')" "ts_pollers t' = ts_pollers t" "ts_refs t' = ts_refs t"
    "ts_freed t' = ts_freed t" "ts_taken t' = ts_taken t"
    "ts_handle t \<in> {Finishing, Released} \<longrightarrow> ts_handle t' \<in> {Finishing, Released}"
  shows "task_inv t'"
  using assms by (auto simp: task_inv_def output_inv_def flags_kept_def split: if_splits)

lemma output_inv_join:
  assumes "try_join_fn s = Some (j, s')" "output_inv s n Holding"
  shows "output_inv s' (n + of_bool (grants_output j)) (after_join j)"
proof -
  note e = try_join_effect [OF assms(1)]
  have n: "n = 0" "sn_COMPLETE s = sn_HAS_OUTPUT s"
    using assms(2) by (simp_all add: output_inv_def split: if_splits) blast
  have c: "sn_COMPLETE s' = sn_COMPLETE s" using e by blast
  show ?thesis
  proof (cases "grants_output j")
    case True
    then have "sn_HAS_OUTPUT s" "after_join j = Finishing" using e by presburger+
    then show ?thesis using True n c by (simp add: output_inv_def)
  next
    case False
    then have "sn_HAS_OUTPUT s' = sn_HAS_OUTPUT s" using e by presburger
    then show ?thesis using False n c by (simp add: output_inv_def)
  qed
qed

lemma task_inv_step:
  assumes "task_step t t'" "task_inv t"
  shows "task_inv t'"
  using assms(1)
proof cases
  case (start w a w' s')
  then show ?thesis using start_poll_effect [OF start(3)] assms(2)
    by (cases "a = Poll") (simp_all add: task_inv_def output_inv_def split: if_splits)
next
  case (end_poll completed w r w' s')
  then show ?thesis using end_poll_effect [OF end_poll(4)] assms(2)
    by (cases completed) (simp_all add: task_inv_def output_inv_def split: if_splits)
next
  case (join j s')
  have "output_inv s' (ts_taken t + of_bool (grants_output j)) (after_join j)"
    by (rule output_inv_join [OF join(4)]) (use assms(2) join(3) in \<open>simp add: task_inv_def\<close>)
  then show ?thesis using try_join_effect [OF join(4)] assms(2) join(1) by (simp add: task_inv_def)
next
  case (clone u s')
  then have s': "s' = (ts_state t)\<lparr>sn_REFS := sn_REFS (ts_state t) + 1\<rparr>"
    by (auto simp: clone_ref_def bind_eq_Some_conv)
  have "output_inv s' (ts_taken t) (ts_handle t) = output_inv (ts_state t) (ts_taken t) (ts_handle t)"
    by (simp add: s' output_inv_def)
  then show ?thesis
    using clone(1-3) assms(2) unat_REFS_succ [of "sn_REFS (ts_state t)"] by (simp add: s' task_inv_def)
next
  case (drop final s')
  then have r: "sn_REFS (ts_state t) \<noteq> 0" "s' = (ts_state t)\<lparr>sn_REFS := sn_REFS (ts_state t) - 1\<rparr>"
    "final \<longleftrightarrow> \<not> 1 < unat (sn_REFS (ts_state t))"
    by (auto simp: drop_ref_def bind_eq_Some_conv ref_count_pos)
  have "output_inv s' (ts_taken t) (ts_handle t) = output_inv (ts_state t) (ts_taken t) (ts_handle t)"
    by (simp add: r(2) output_inv_def)
  then show ?thesis using assms(2) drop(1,2) r unat_REFS_pred [OF r(1)] by (auto simp: task_inv_def)
next
  case wait
  show ?thesis by (rule task_inv_kept [OF assms(2)]) (simp_all add: wait flags_kept_def)
qed (rule task_inv_kept [OF assms(2)]; simp add: other_effects)+

lemma task_inv_reachable: "task_step\<^sup>*\<^sup>* sys_new t \<Longrightarrow> task_inv t"
proof (induction rule: rtranclp_induct)
  case base
  show ?case by (simp add: task_inv_def output_inv_def sys_new_def state_new_def)
next
  case (step t t')
  then show ?case using task_inv_step by blast
qed

text \<open>A poll of the join handle is such a sequence of steps.\<close>

lemma poll_join_pending:
  assumes "task_poll_join cx Some k = Some (JoinPending, k')" "try_join_fn (tk_state k) = Some (j, s)"
  shows "after_join j = RegisteringWaker \<and> join_waker_registered_fn s = Some ((), tk_state k')"
  using assms by (cases j) (auto simp: task_poll_join_def Let_def bind_eq_Some_conv take_output_def split: if_splits Stage.splits)

lemma poll_join_ready:
  assumes "task_poll_join cx Some k = Some (poll, k')" "poll \<noteq> JoinPending" "try_join_fn (tk_state k) = Some (j, s)"
  shows "after_join j = Finishing \<and> tk_state k' = s"
  using assms by (cases j) (auto simp: task_poll_join_def Let_def bind_eq_Some_conv take_output_def split: if_splits Stage.splits)

lemma join_handle_poll_cases:
  assumes "join_handle_poll cx others Handle_Task k = Some (poll, h, k')"
  obtains (pending) "task_poll_join cx others k = Some (JoinPending, k')" "poll = JoinPending" "h = Handle_Task"
  | (ready) k1 s2 final s3 where "task_poll_join cx others k = Some (poll, k1)" "poll \<noteq> JoinPending" "h = Handle_Empty"
    "drop_join_handle (tk_state k1) = Some ((), s2)" "drop_ref s2 = Some (final, s3)" "tk_state k' = s3"
proof -
  obtain p k1 where k1: "task_poll_join cx others k = Some (p, k1)"
    and c: "(case p of JoinPending \<Rightarrow> Some (p, Handle_Task, k1)
      | _ \<Rightarrow> do { (_, s) \<leftarrow> drop_join_handle (tk_state k1); (_, s') \<leftarrow> drop_ref s; Some (p, Handle_Empty, k1\<lparr>tk_state := s'\<rparr>) }) = Some (poll, h, k')"
    using assms by (auto simp: join_handle_poll_def bind_eq_Some_conv)
  show thesis
  proof (cases p)
    case JoinPending
    then show thesis using k1 c pending by simp
  qed (use k1 c ready in \<open>auto simp: bind_eq_Some_conv\<close>)
qed

lemma join_handle_poll_steps:
  assumes "join_handle_poll cx Some Handle_Task k = Some (poll, h, k')" "tk_state k = ts_state t"
    "ts_handle t = Holding" "0 < ts_refs t"
  shows "\<exists>t'. task_step\<^sup>*\<^sup>* t t' \<and> ts_state t' = tk_state k' \<and>
    ts_handle t' = (case h of Handle_Task \<Rightarrow> Holding | Handle_Empty \<Rightarrow> Released)"
proof -
  obtain j s where j: "try_join_fn (ts_state t) = Some (j, s)"
    using assms(1,2) by (auto elim!: join_handle_poll_cases simp: task_poll_join_def bind_eq_Some_conv)
  let ?t1 = "t\<lparr>ts_state := s, ts_taken := ts_taken t + of_bool (grants_output j), ts_handle := after_join j\<rparr>"
  have t1: "task_step t ?t1" by (rule task_step.join [OF assms(4,3) j])
  from assms(1) show ?thesis
  proof (cases rule: join_handle_poll_cases)
    case pending
    let ?t2 = "?t1\<lparr>ts_state := tk_state k', ts_handle := Holding\<rparr>"
    have "after_join j = RegisteringWaker \<and> join_waker_registered_fn s = Some ((), tk_state k')"
      by (rule poll_join_pending [OF pending(1)]) (simp add: assms(2) j)
    then have "task_step ?t1 ?t2" using task_step.registered [of ?t1 "()" "tk_state k'"] assms(4) by simp
    with t1 have "task_step\<^sup>*\<^sup>* t ?t2" by (meson converse_rtranclp_into_rtranclp rtranclp.rtrancl_refl)
    then show ?thesis using pending by (intro exI [of _ ?t2]) simp
  next
    case (ready k1 s2 final s3)
    let ?t2 = "?t1\<lparr>ts_state := s2, ts_handle := Released\<rparr>"
    let ?t3 = "?t2\<lparr>ts_state := s3, ts_refs := ts_refs t - 1, ts_freed := final\<rparr>"
    have "after_join j = Finishing \<and> tk_state k1 = s"
      by (rule poll_join_ready [OF ready(1,2)]) (simp add: assms(2) j)
    then have "task_step ?t1 ?t2" using task_step.drop_handle [of ?t1 "()" s2] ready(4) assms(4) by simp
    moreover have "task_step ?t2 ?t3" using task_step.drop [of ?t2 final s3] ready(5) assms(4) by simp
    ultimately have "task_step\<^sup>*\<^sup>* t ?t3" using t1 by (meson converse_rtranclp_into_rtranclp rtranclp.rtrancl_refl)
    then show ?thesis using ready by (intro exI [of _ ?t3]) simp
  qed
qed

section \<open>Properties\<close>

text \<open>C5. Polling is exclusive and the output is produced and taken once, for every interleaving of the calls of any
  threads and of the task's one join handle: at most one thread polls the task at a time and the poll flag
  says so; \<open>start_poll\<close> lets a thread poll only when no other does and the task is not complete. The output is
  taken at most once, counting both a join of a finished task and a join of a task that was cancelled after it
  finished, and only after completion; when a join of the handle grants the output, it is there and was not
  taken before. The state word alone does not give this, since it keeps the output flag of a cancelled task:
  the handle does, which is empty after such a join. The reference count is the number of references and the
  task is freed exactly when the last one is dropped; and ending a poll that is not complete never panics.\<close>

theorem task_poll_exclusive:
  assumes "task_step\<^sup>*\<^sup>* sys_new t"
  shows "ts_pollers t \<le> 1 \<and> (0 < ts_pollers t \<longleftrightarrow> sn_POLLING (ts_state t)) \<and>
    (\<forall>w w' s'. start_poll_fn w (ts_state t) = Some (Poll, w', s') \<longrightarrow> ts_pollers t = 0 \<and> \<not> sn_COMPLETE (ts_state t)) \<and>
    ts_taken t \<le> 1 \<and> (0 < ts_taken t \<longrightarrow> sn_COMPLETE (ts_state t)) \<and>
    (\<forall>j s'. ts_handle t = Holding \<and> try_join_fn (ts_state t) = Some (j, s') \<and> grants_output j \<longrightarrow>
       ts_taken t = 0 \<and> sn_COMPLETE (ts_state t) \<and> sn_HAS_OUTPUT (ts_state t)) \<and>
    unat (ref_count (ts_state t)) = ts_refs t \<and> (ts_freed t \<longleftrightarrow> ts_refs t = 0) \<and>
    (0 < ts_pollers t \<and> 0 < ts_refs t \<longrightarrow> (\<forall>w. end_poll_fn False w (ts_state t) \<noteq> None))"
proof -
  have i: "task_inv t" by (rule task_inv_reachable [OF assms])
  have "0 < ref_count (ts_state t)" if "0 < ts_refs t"
    using i that by (simp add: task_inv_def word_less_nat_alt unat_ref_count)
  moreover have "ts_taken t = 0 \<and> sn_COMPLETE (ts_state t) \<and> sn_HAS_OUTPUT (ts_state t)"
    if "ts_handle t = Holding" "try_join_fn (ts_state t) = Some (j, s')" "grants_output j" for j s'
    using i join_grants [OF that(2,3)] that(1) by (auto simp: task_inv_def output_inv_def split: if_splits)
  moreover have "ts_taken t \<le> 1 \<and> (0 < ts_taken t \<longrightarrow> sn_COMPLETE (ts_state t))"
    using i by (auto simp: task_inv_def output_inv_def split: if_splits)
  ultimately show ?thesis
    using i by (auto simp: task_inv_def unat_ref_count start_poll_fn_def end_poll_fn_def of_bool_def bind_eq_Some_conv
      split: if_splits)
qed

definition demo_polling :: TaskSys where
  "demo_polling = sys_new\<lparr>ts_state := state_new\<lparr>sn_POLLING := True\<rparr>, ts_pollers := 1\<rparr>"

text \<open>A task that was cancelled after it finished, and then joined.\<close>

definition demo_done :: Snapshot where
  "demo_done = state_new\<lparr>sn_COMPLETE := True, sn_HAS_OUTPUT := True, sn_HAS_JOIN_HANDLE := True\<rparr>"

definition demo_cancelled :: TaskSys where
  "demo_cancelled = sys_new\<lparr>ts_state := demo_done\<lparr>sn_CANCELLED := True, sn_WOKEN := True\<rparr>, ts_taken := 1, ts_handle := Finishing\<rparr>"

lemmas demo_defs = demo_cancelled_def demo_done_def sys_new_def state_new_def

lemma demo_cancelled_reachable: "task_step\<^sup>*\<^sup>* sys_new demo_cancelled"
proof -
  let ?h = "state_new\<lparr>sn_HAS_JOIN_HANDLE := True\<rparr>"
  let ?p = "?h\<lparr>sn_POLLING := True, sn_WOKEN := False\<rparr>"
  let ?t1 = "sys_new\<lparr>ts_state := ?h, ts_handle := Holding\<rparr>"
  let ?t2 = "?t1\<lparr>ts_state := ?p, ts_pollers := 1\<rparr>"
  let ?t3 = "?t1\<lparr>ts_state := demo_done\<rparr>"
  let ?t4 = "?t1\<lparr>ts_state := demo_done\<lparr>sn_CANCELLED := True, sn_WOKEN := True\<rparr>\<rparr>"
  have "task_step sys_new ?t1"
    using task_step.create [of sys_new "()" ?h] by (simp add: create_join_handle_fn_def demo_defs)
  moreover have "task_step ?t1 ?t2"
    using task_step.start [of ?t1 False Poll False ?p] by (simp add: start_poll_fn_def demo_defs)
  moreover have "task_step ?t2 ?t3"
    using task_step.end_poll [of ?t2 True False Ready False demo_done]
    by (simp add: end_poll_fn_def has_join_waker_def ref_count_def demo_defs)
  moreover have "task_step ?t3 ?t4"
    using task_step.cancel [of ?t3 True "ts_state ?t4"] by (simp add: cancel_fn_def demo_defs)
  moreover have "task_step ?t4 demo_cancelled"
    using task_step.join [of ?t4 "Canceled True" "ts_state ?t4"] by (simp add: try_join_fn_def demo_defs)
  ultimately show ?thesis by (meson converse_rtranclp_into_rtranclp rtranclp.rtrancl_refl)
qed

theorem task_poll_exclusive_witness:
  "task_step\<^sup>*\<^sup>* sys_new demo_polling \<and> sn_POLLING (ts_state demo_polling) \<and>
   (\<forall>w w' s'. start_poll_fn w (ts_state demo_polling) \<noteq> Some (Poll, w', s')) \<and>
   (\<forall>w. end_poll_fn False w (ts_state demo_polling) \<noteq> None) \<and>
   ts_taken demo_cancelled = 1 \<and> sn_COMPLETE (ts_state demo_cancelled)"
proof -
  have "task_step sys_new demo_polling"
    using task_step.start [of sys_new False Poll False "state_new\<lparr>sn_POLLING := True\<rparr>"]
    by (simp add: demo_polling_def sys_new_def state_new_def start_poll_fn_def)
  then have r: "task_step\<^sup>*\<^sup>* sys_new demo_polling" by (rule r_into_rtranclp)
  have c: "ts_taken demo_cancelled = 1" by (simp add: demo_cancelled_def)
  then have "sn_COMPLETE (ts_state demo_cancelled)" using task_poll_exclusive [OF demo_cancelled_reachable] by simp
  then show ?thesis using r c task_poll_exclusive [OF r] by (simp add: demo_polling_def sys_new_def)
qed

text \<open>C9. The compare-and-exchange loops of the task state take effect at one instant. What \<open>transition\<close> returns is one run of its
  closure on a value the cell held, either without a change, or written in exchange for that very value; it
  panics only when the closure panics on a value that was met; and it is done, with a result or a panic, as soon as two
  attempts in a row meet the same value and the second does not fail spuriously. \<open>wait_for_join_waker\<close> exchanges
  a registered waker for a woken one and changes nothing else; it returns when two attempts in a row meet the
  same registered waker and the second does not fail spuriously, and keeps waiting for as long as no attempt
  meets a registered waker.\<close>

theorem transition_linearizable:
  "(\<forall>c current attempts res c' seen next. transition f c current attempts = Returned (res, c', seen, next) \<longrightarrow>
      (\<exists>c0. f c0 seen = Some (res, c', next)) \<and>
      (seen = next \<and> (seen = current \<or> seen \<in> fst ` set attempts) \<or> (seen, False) \<in> set attempts)) \<and>
   (\<forall>c current attempts. transition f c current attempts = Panicked \<longrightarrow>
      (\<exists>c0 s. f c0 s = None \<and> (s = current \<or> s \<in> fst ` set attempts))) \<and>
   (\<forall>c current pre s b post. transition f c current (pre @ [(s, b), (s, False)] @ post) \<noteq> Looping) \<and>
   (\<forall>s attempts seen next. wait_for_join_waker s attempts = Returned (seen, next) \<longrightarrow>
      sn_JOIN_WAKER seen = JW_Waiting \<and> next = seen\<lparr>sn_JOIN_WAKER := JW_Woken\<rparr> \<and> (seen, False) \<in> set attempts) \<and>
   (\<forall>state pre s b post. sn_JOIN_WAKER s = JW_Waiting \<longrightarrow>
      (\<exists>r. wait_for_join_waker state (pre @ [(s, b), (s, False)] @ post) = Returned r)) \<and>
   (\<forall>state attempts. (\<forall>a \<in> set attempts. sn_JOIN_WAKER (fst a) \<noteq> JW_Waiting) \<longrightarrow>
      wait_for_join_waker state attempts = Looping)"
  apply (intro conjI)
  subgoal using transition_atomic [of f] by blast
  subgoal using transition_panics [of f] by blast
  subgoal using transition_ends [of f] by blast
  subgoal using wait_atomic by blast
  subgoal using wait_returns by blast
  subgoal using wait_goes_on by blast
  done

definition wake_ref_fn :: "(unit, WakeByRefAction) transition_fn" where
  "wake_ref_fn c s = map_option (\<lambda>(a, s'). (a, (), s')) (wake_by_ref_fn s)"

theorem transition_linearizable_witness:
  "transition wake_ref_fn () state_new [(state_new, True), (state_new, False)] =
     Returned (WR_Enqueue, (), state_new, state_new\<lparr>sn_WOKEN := True\<rparr>) \<and>
   (\<exists>c0. wake_ref_fn c0 state_new = Some (WR_Enqueue, (), state_new\<lparr>sn_WOKEN := True\<rparr>)) \<and>
   transition wake_ref_fn () state_new ([] @ [(state_new, True), (state_new, False)] @ []) \<noteq> Looping \<and>
   (\<exists>r. wait_for_join_waker state_new ([] @ [(state_new\<lparr>sn_JOIN_WAKER := JW_Waiting\<rparr>, True),
      (state_new\<lparr>sn_JOIN_WAKER := JW_Waiting\<rparr>, False)] @ []) = Returned r)"
proof -
  let ?w = "state_new\<lparr>sn_JOIN_WAKER := JW_Waiting\<rparr>"
  have t: "transition wake_ref_fn () state_new [(state_new, True), (state_new, False)] =
     Returned (WR_Enqueue, (), state_new, state_new\<lparr>sn_WOKEN := True\<rparr>)"
    by (simp add: transition.simps wake_ref_fn_def wake_by_ref_fn_def state_new_def)
  note lin = transition_linearizable [of wake_ref_fn]
  have "\<exists>c0. wake_ref_fn c0 state_new = Some (WR_Enqueue, (), state_new\<lparr>sn_WOKEN := True\<rparr>)"
    using lin [THEN conjunct1, rule_format, OF t] by (rule conjunct1)
  moreover have "transition wake_ref_fn () state_new ([] @ [(state_new, True), (state_new, False)] @ []) \<noteq> Looping"
    using lin [THEN conjunct2, THEN conjunct2, THEN conjunct1] by blast
  moreover have "\<exists>r. wait_for_join_waker state_new ([] @ [(?w, True), (?w, False)] @ []) = Returned r"
    using lin [THEN conjunct2, THEN conjunct2, THEN conjunct2, THEN conjunct2, THEN conjunct1, rule_format, of ?w state_new "[]" True "[]"]
    by simp
  ultimately show ?thesis using t by blast
qed

text \<open>C26. A wake-up by reference during a poll is not lost: whatever the other threads do until the poll ends, ending it
  without completion asks the scheduler to run the task again.\<close>

theorem wake_by_ref_during_poll_kept:
  assumes "sn_POLLING s" "\<not> sn_COMPLETE s" "run_ops (WakeByRef # ps) s = Some s'" "\<forall>p \<in> set ps. \<not> ends_poll p"
    "end_poll_fn False w s' = Some (r, w', s'')"
  shows "r = PendingSchedule"
proof -
  obtain s1 where s1: "op_effect WakeByRef s = Some s1" "run_ops ps s1 = Some s'"
    using assms(3) by (auto simp: bind_eq_Some_conv)
  have "sn_POLLING s1 \<and> sn_WOKEN s1 \<and> \<not> sn_COMPLETE s1"
    using s1(1) assms(1,2) by (auto simp: wake_by_ref_fn_def split: if_splits)
  then have "sn_WOKEN s'" using run_keeps_woken [OF s1(2)] assms(4) by blast
  then show ?thesis using assms(5) by (auto simp: end_poll_fn_def bind_eq_Some_conv split: if_splits)
qed

theorem wake_by_ref_during_poll_kept_witness:
  "\<exists>s' r w' s''. run_ops (WakeByRef # [TryJoin, CloneRef, WakeByVal]) (ts_state demo_polling) = Some s' \<and>
     end_poll_fn False False s' = Some (r, w', s'') \<and> r = PendingSchedule"
proof -
  let ?s = "state_new\<lparr>sn_POLLING := True, sn_WOKEN := True, sn_JOIN_WAKER := JW_Registering, sn_REFS := 2\<rparr>"
  have one: "ref_count (state_new\<lparr>sn_POLLING := True, sn_WOKEN := True, sn_JOIN_WAKER := JW_Registering\<rparr>) = 1"
    "ref_count ?s = 2" by (simp_all add: ref_count_def state_new_def)
  have r: "run_ops (WakeByRef # [TryJoin, CloneRef, WakeByVal]) (ts_state demo_polling) = Some ?s"
    using one ref_count_REF_MAX [of "state_new\<lparr>sn_REFS := 1\<rparr>"] by (simp add: task_fn_defs ref_count_def demo_polling_def sys_new_def state_new_def sn_all_ones_def)
  have e: "end_poll_fn False False ?s = Some (PendingSchedule, False, ?s\<lparr>sn_POLLING := False\<rparr>)"
    using one by (simp add: end_poll_fn_def state_new_def)
  have "PendingSchedule = PendingSchedule"
    by (rule wake_by_ref_during_poll_kept [OF _ _ r _ e]) (simp_all add: demo_polling_def sys_new_def state_new_def)
  with r e show ?thesis by blast
qed

text \<open>What a waker that is called while the task is polled does to it.\<close>

definition meanwhile :: "(Snapshot \<Rightarrow> (bool \<times> Snapshot) option) \<Rightarrow> ('w, 'o) others" where
  "meanwhile f t = map_option (\<lambda>(queued, s). t\<lparr>tk_state := s\<rparr>) (f (tk_state t))"

definition idle :: "('w, 'o) Task \<Rightarrow> bool" where
  "idle t \<longleftrightarrow> \<not> sn_POLLING (tk_state t) \<and> \<not> sn_COMPLETE (tk_state t) \<and> \<not> sn_CANCELLED (tk_state t) \<and>
     0 < ref_count (tk_state t) \<and> tk_stage t = Stage_Pending"

definition demo_task :: "(nat, nat) Task" where
  "demo_task = \<lparr>tk_state = state_new\<lparr>sn_HAS_JOIN_HANDLE := True, sn_REFS := 2\<rparr>, tk_stage = Stage_Pending, tk_join_waker = None\<rparr>"

lemma demo_task_idle: "idle demo_task" "1 < ref_count (tk_state demo_task)"
  by (simp_all add: idle_def demo_task_def state_new_def ref_count_def)

lemma drop_ref_count:
  assumes "1 < ref_count s"
  shows "drop_ref s = Some (False, s\<lparr>sn_REFS := sn_REFS s - 1\<rparr>)" "0 < ref_count (s\<lparr>sn_REFS := sn_REFS s - 1\<rparr>)"
proof -
  have u: "1 < unat (sn_REFS s)" using assms by (simp add: ref_count_pos)
  then have "sn_REFS s \<noteq> 0" by auto
  with u assms show "drop_ref s = Some (False, s\<lparr>sn_REFS := sn_REFS s - 1\<rparr>)"
    by (simp add: drop_ref_def ref_count_pos)
  show "0 < ref_count (s\<lparr>sn_REFS := sn_REFS s - 1\<rparr>)"
    using u unat_REFS_pred [OF \<open>sn_REFS s \<noteq> 0\<close>] by (simp add: word_less_nat_alt unat_ref_count)
qed

text \<open>The poll of an idle task whose end has nothing to wait for.\<close>

lemma task_poll_idle:
  assumes "idle t" "stage_poll res (tk_stage t) = Some (ready, stage)"
    "others (t\<lparr>tk_state := (tk_state t)\<lparr>sn_POLLING := True, sn_WOKEN := False\<rparr>, tk_stage := stage\<rparr>) = Some t1"
    "end_poll_fn ready False (tk_state t1) = Some (result, False, s')"
  shows "task_poll res others waits t =
    Returned (if result = ReadyJoined then (result, wake_join_waker (t1\<lparr>tk_state := s'\<rparr>)) else (result, None, t1\<lparr>tk_state := s'\<rparr>))"
  using assms by (simp add: task_poll_def idle_def start_poll_fn_def after_wait_def finish_poll_def)

text \<open>C8. A wake-up by value during a poll is lost: when the waker of an idle task is consumed while the task is polled, the
  poll of a future that stays pending reports \<open>Pending\<close> and leaves the task unwoken, so the scheduler lets go of a
  task whose waker was called. The same call by reference makes the poll report \<open>PendingSchedule\<close>.\<close>

theorem wake_during_poll_lost:
  assumes "idle t" "1 < ref_count (tk_state t)"
  shows "(\<exists>t'. task_poll None (meanwhile task_wake) waits t = Returned (Pending, None, t') \<and> \<not> sn_WOKEN (tk_state t')) \<and>
    (\<exists>t'. task_poll None (meanwhile task_wake_by_ref) waits t = Returned (PendingSchedule, None, t') \<and> sn_WOKEN (tk_state t'))"
proof -
  let ?s = "(tk_state t)\<lparr>sn_POLLING := True, sn_WOKEN := False\<rparr>"
  let ?d = "?s\<lparr>sn_REFS := sn_REFS ?s - 1\<rparr>" and ?w = "?s\<lparr>sn_WOKEN := True\<rparr>"
  have s: "1 < ref_count ?s" "0 < ref_count ?w" using assms by (simp_all add: ref_count_def idle_def)
  note i = assms(1) [unfolded idle_def]
  have val: "task_wake ?s = Some (False, ?d)" "end_poll_fn False False ?d = Some (Pending, False, ?d\<lparr>sn_POLLING := False\<rparr>)"
    using drop_ref_count [OF s(1)] i by (simp_all add: task_wake_def wake_by_val_fn_def end_poll_fn_def)
  have ref: "task_wake_by_ref ?s = Some (False, ?w)"
    "end_poll_fn False False ?w = Some (PendingSchedule, False, ?w\<lparr>sn_POLLING := False\<rparr>)"
    using s(2) i by (simp_all add: task_wake_by_ref_def wake_by_ref_fn_def end_poll_fn_def)
  have sp: "stage_poll None (tk_stage t) = Some (False, tk_stage t)" using i by (simp add: stage_poll_def)
  show ?thesis
    using task_poll_idle [OF assms(1) sp, where others = "meanwhile task_wake" and waits = waits]
      task_poll_idle [OF assms(1) sp, where others = "meanwhile task_wake_by_ref" and waits = waits] val ref
    by (simp add: meanwhile_def)
qed

theorem wake_during_poll_lost_witness:
  "idle demo_task \<and>
   (\<exists>t'. task_poll None (meanwhile task_wake) Some demo_task = Returned (Pending, None, t') \<and> \<not> sn_WOKEN (tk_state t')) \<and>
   (\<exists>t'. task_poll None (meanwhile task_wake_by_ref) Some demo_task = Returned (PendingSchedule, None, t') \<and> sn_WOKEN (tk_state t'))"
  using wake_during_poll_lost [OF demo_task_idle, of Some] demo_task_idle by blast

text \<open>C25. The output of a task reaches its join handle: joining an idle task is pending and registers the waker of the caller;
  when a poll then completes the future, it reports that a handle was woken and wakes exactly that waker; and
  joining again returns the output and leaves nothing to take.\<close>

theorem join_delivers_output:
  assumes "idle t" "sn_HAS_JOIN_HANDLE (tk_state t)" "\<not> sn_HAS_OUTPUT (tk_state t)"
    "sn_JOIN_WAKER (tk_state t) = JW_Empty \<or> sn_JOIN_WAKER (tk_state t) = JW_Waiting \<and> tk_join_waker t \<noteq> None"
  shows "\<exists>t1 t2 t3. task_poll_join cx Some t = Some (JoinPending, t1) \<and>
    task_poll (Some output) Some Some t1 = Returned (ReadyJoined, Some cx, t2) \<and>
    task_poll_join cx' Some t2 = Some (JoinReady output, t3) \<and>
    tk_stage t3 = Stage_Consumed \<and> sn_COMPLETE (tk_state t3) \<and> \<not> sn_HAS_OUTPUT (tk_state t3)"
proof -
  note i = assms(1) [unfolded idle_def]
  let ?s1 = "(tk_state t)\<lparr>sn_HAS_JOIN_HANDLE := True, sn_JOIN_WAKER := JW_Waiting\<rparr>"
  let ?t1 = "t\<lparr>tk_state := ?s1, tk_join_waker := Some cx\<rparr>"
  let ?s2 = "?s1\<lparr>sn_POLLING := False, sn_COMPLETE := True, sn_WOKEN := False, sn_HAS_OUTPUT := True, sn_JOIN_WAKER := JW_Empty\<rparr>"
  let ?t2 = "t\<lparr>tk_state := ?s2, tk_stage := Stage_Ready output, tk_join_waker := None\<rparr>"
  have one: "task_poll_join cx Some t = Some (JoinPending, ?t1)"
    using i assms(4) by (elim disjE) (auto simp: task_poll_join_def try_join_fn_def should_register_def register_waker_def
      join_waker_registered_fn_def)
  have idle1: "idle ?t1" using i by (simp add: idle_def ref_count_def)
  have sp: "stage_poll (Some output) (tk_stage ?t1) = Some (True, Stage_Ready output)" using i by (simp add: stage_poll_def)
  have e: "end_poll_fn True False (?s1\<lparr>sn_POLLING := True, sn_WOKEN := False\<rparr>) = Some (ReadyJoined, False, ?s2)"
    using i by (simp add: end_poll_fn_def has_join_waker_def ref_count_def)
  have two: "task_poll (Some output) Some Some ?t1 = Returned (ReadyJoined, Some cx, ?t2)"
    using task_poll_idle [OF idle1 sp, of Some _ ReadyJoined ?s2 Some] e by (simp add: wake_join_waker_def)
  have "task_poll_join cx' Some ?t2 =
      Some (JoinReady output, ?t2\<lparr>tk_state := ?s2\<lparr>sn_HAS_OUTPUT := False\<rparr>, tk_stage := Stage_Consumed\<rparr>)"
    using i by (simp add: task_poll_join_def try_join_fn_def take_output_def)
  with one two show ?thesis by force
qed

theorem join_delivers_output_witness:
  "idle demo_task \<and> (\<exists>t1 t2 t3. task_poll_join 7 Some demo_task = Some (JoinPending, t1) \<and>
    task_poll (Some 42) Some Some t1 = Returned (ReadyJoined, Some 7, t2) \<and>
    task_poll_join 8 Some t2 = Some (JoinReady 42, t3) \<and>
    tk_stage t3 = Stage_Consumed \<and> sn_COMPLETE (tk_state t3) \<and> \<not> sn_HAS_OUTPUT (tk_state t3))"
  using join_delivers_output [OF demo_task_idle(1), of 7 42 8] demo_task_idle(1)
  by (simp add: demo_task_def state_new_def)

text \<open>C27. Completing a task whose join handle was dropped after it had registered a waker panics in a debug build, on the
  assertion that a registered waker has a handle: dropping the handle clears its flag but leaves the waker registered.\<close>

theorem dropped_waiting_handle_panics:
  assumes "sn_POLLING s" "\<not> sn_COMPLETE s" "0 < ref_count s" "sn_HAS_JOIN_HANDLE s" "sn_JOIN_WAKER s = JW_Waiting"
  shows "(\<exists>s'. end_poll_fn True w s = Some (ReadyJoined, False, s')) \<and>
    (\<exists>s'. drop_join_handle s = Some ((), s') \<and> end_poll_fn True w s' = None)"
  using assms by (simp add: drop_join_handle_def end_poll_fn_def has_join_waker_def ref_count_def)

theorem dropped_waiting_handle_panics_witness:
  "\<exists>s s'. run_ops [CreateJoinHandle, TryJoin, JoinWakerRegistered, StartPoll] state_new = Some s \<and>
     drop_join_handle s = Some ((), s') \<and> end_poll_fn True False s' = None"
proof -
  let ?s = "state_new\<lparr>sn_POLLING := True, sn_HAS_JOIN_HANDLE := True, sn_JOIN_WAKER := JW_Waiting\<rparr>"
  have "run_ops [CreateJoinHandle, TryJoin, JoinWakerRegistered, StartPoll] state_new = Some ?s"
    by (simp add: task_fn_defs state_new_def)
  then show ?thesis using dropped_waiting_handle_panics [of ?s False] by (simp add: ref_count_def state_new_def)
qed

text \<open>C28. The reference count is not guarded against overflow: with the largest count that fits, \<open>clone_ref\<close> passes its
  assertions and wraps the count to zero, since it compares the count with a mask that is larger than any count.\<close>

theorem clone_ref_overflow_unchecked:
  assumes "sn_REFS s = - 1" "\<not> sn_COMPLETE s"
  shows "clone_ref s = Some ((), s\<lparr>sn_REFS := 0\<rparr>) \<and> ref_count (s\<lparr>sn_REFS := 0\<rparr>) = 0"
proof -
  have "s \<noteq> sn_all_ones" using assms(2) by (auto simp: sn_all_ones_def)
  then show ?thesis using assms(1) ref_count_REF_MAX [of s] by (simp add: clone_ref_def) (simp add: ref_count_def)
qed

theorem clone_ref_overflow_unchecked_witness:
  "clone_ref (state_new\<lparr>sn_REFS := - 1\<rparr>) = Some ((), state_new\<lparr>sn_REFS := 0\<rparr>)"
  using clone_ref_overflow_unchecked [of "state_new\<lparr>sn_REFS := - 1\<rparr>"] by (simp add: state_new_def)

end
