(* ===== verification/Spec2Isabelle.thy ===== *)
theory Spec2Isabelle
  imports Array_Vec Arch_Levels Phys_Map Space_Properties Allocator_Properties Task_Life
begin

text \<open>
  A verification library for the memory management and the task runtime of the k23 kernel.

  \<^bold>\<open>The parts of the program and how they interact.\<close>
  The kernel manages virtual memory with the crates \<^verbatim>\<open>lib/mem-core\<close> (addresses, ranges, page sizes,
  attributes, the architecture interface with its RISC-V modes, the map of physical memory, the interface
  of a frame allocator) and \<^verbatim>\<open>lib/mem-mmu\<close> (page tables, the walk over them, the record of ranges to
  flush, the address space with its operations). Page tables live in frames of a frame allocator:
  \<^verbatim>\<open>sys/loader-flat\<close> has the bump allocator of the loader and \<^verbatim>\<open>lib/mem-testkit\<close> the one that can
  also free. The flush keeps its ranges in the fixed-capacity vector of \<^verbatim>\<open>lib/arrayvec\<close>, and so does
  the bump allocator with its arenas. Tasks are run by \<^verbatim>\<open>sys/async\<close>, whose core is the atomic
  state of a task.

  \<^bold>\<open>How code becomes definitions.\<close>
  A function that may panic returns an \<open>option\<close>, \<open>None\<close> being the panic; the build is the debug build,
  so overflow and \<open>debug_assert!\<close> panic. A function that may fail returns a sum with the error on the left.
  State is passed explicitly: memory is a function from addresses to bytes, a visitor or an allocator is a record,
  and an operation maps the old state to the new one (\<open>act\<close> in \<open>K23_Prelude\<close>, with \<open>act_bind\<close> for the
  question mark). \<open>usize\<close> is a 64-bit word; statements about sizes read it as a natural number. A structure is a
  record, an enumeration a datatype, each with the names of the source. The type parameters of an address space are
  arguments: the architecture, the page size, and the allocator as a record of its three methods.

  \<^bold>\<open>Which theory models what.\<close>
  \<^item> \<open>Address\<close>, \<open>Address_Range\<close>: \<^verbatim>\<open>mem-core/src/address.rs\<close> and \<^verbatim>\<open>address_range.rs\<close>.
  \<^item> \<open>Memory_Attributes\<close>, \<open>Page_Table_Entry\<close>, \<open>Arch_Levels\<close>: attributes, page sizes, the entry format and the level
    geometry of \<^verbatim>\<open>mem-core/src/arch\<close>.
  \<^item> \<open>Phys_Map\<close>, \<open>Machine_Memory\<close>, \<open>Frame_Allocator\<close>: \<^verbatim>\<open>physmap.rs\<close>, the memory accessors of the architecture
    trait, and \<^verbatim>\<open>frame_allocator.rs\<close>.
  \<^item> \<open>Array_Vec\<close>: \<^verbatim>\<open>lib/arrayvec/src/lib.rs\<close>. \<open>Flush\<close>: \<^verbatim>\<open>mem-mmu/src/flush.rs\<close>.
  \<^item> \<open>Page_Table\<close>: \<^verbatim>\<open>mem-mmu/src/table.rs\<close> and \<^verbatim>\<open>utils.rs\<close>. \<open>Address_Space\<close>: \<^verbatim>\<open>address_space.rs\<close>.
  \<^item> \<open>Bump_Allocator\<close>: \<^verbatim>\<open>sys/loader-flat/src/frame_alloc.rs\<close> with the regions of
    \<^verbatim>\<open>sys/loader-api/src/info.rs\<close>. \<open>Test_Frame_Allocator\<close>: \<^verbatim>\<open>mem-testkit/src/frame_allocator.rs\<close>.
  \<^item> \<open>Task_State\<close>: \<^verbatim>\<open>sys/async/src/task/state.rs\<close>, the parts of \<^verbatim>\<open>task.rs\<close> it protects, and the join handle
    of \<^verbatim>\<open>task/join_handle.rs\<close>.

  \<^bold>\<open>What the lemmas show.\<close>
  \<^item> \<open>Page_Walk\<close>: the entry iterator visits each entry of a range once and its sub-ranges partition the range; the fast path
    of the walk for one page is the general walk.
  \<^item> \<open>Page_Tree\<close>: the tree of tables in memory, its invariant, and the frame rule for writes. \<open>Visitor_Contract\<close> and
    \<open>Table_Visitor\<close>: the contract of a visitor as a locale and the theorem about a whole walk, proved once.
    \<open>Space_Visitors\<close> and \<open>Alloc_Visitors\<close> interpret it for the four visitors of the source, those that allocate under
    the contract of a frame allocator.
  \<^item> \<open>Translation\<close>: \<open>lookup\<close> is the walk of the hardware; a walk of a visitor is a change of the translation.
    \<open>Space_Operations\<close> and \<open>Space_Blocks\<close>: each operation as a change of the translation, under the contract of an
    allocator. \<open>Space_Properties\<close>: the same for the allocators of the repository, and the round trip.
  \<^item> \<open>Bump_Correct\<close>, \<open>Bump_Blocks\<close>, \<open>Bump_Properties\<close>, \<open>Bump_Life\<close>: one arena, the discontiguous path with its clean-up,
    the constructor, runs of requests; \<open>Bump_Life\<close> interprets the contract of an allocator. \<open>Test_Frames\<close> does so for the
    test allocator, with deallocation. \<open>Allocator_Properties\<close> holds the statements.
  \<^item> \<open>Task_Life\<close>: the loops of the task state are atomic; a step relation for all threads that use a task and
    for its join handle, its invariant by rule induction, and what happens to wake-ups and to the output.

  \<^bold>\<open>Bounds.\<close>
  Loops of the source are recursion that terminates: over lists, over the levels below a table, over the distance of an
  iterator to its end. The compare-and-exchange loops of the task state recur over the list of attempts they
  meet: two attempts in a row that meet the same value, the second without a spurious failure, end the loop of a
  transition, and end the wait for a join waker when that value has a registered waker; while none has, the wait goes
  on (\<open>Looping\<close>). The operations of an address space are
  stated for a range of whole pages inside one half of the address space, and for physical addresses below \<open>2\<close> to the
  \<open>56\<close>, which is what an entry can hold. Mapping asks that no table below the leaf level is left in the range.

  \<^bold>\<open>What is not modelled.\<close>
  Fences and the register of the active table are hardware effects: the flush is modelled up to the list of
  fences it issues. Locks and memory orderings are left out of the allocator and of the task state, whose steps are
  atomic. Formatting, tracing, conversions to pointers and derived trait implementations have no effect on the modelled
  state. The other crates are not modelled: the WebAssembly runtime and its text format, the kernel proper with its
  device drivers and trap handlers, the EFI loader and the image builders are mostly calls of libraries, of firmware and
  of the compiler back end; the intrusive tree, the range tree, the slab and the lock crates rest on raw pointers, vector
  instructions or weak memory, which this model of memory does not have.
\<close>

end
